(* ===== verification/Prelude.thy ===== *)
theory Prelude
  imports Main "HOL-Library.Word" "HOL-Library.Monad_Syntax" "HOL-Library.Code_Target_Nat"
begin

text \<open>
  Shared vocabulary of the development: names for Rust's machine integers, the run type
  that makes panics visible, checked 32-bit arithmetic, byte slices, and the big- and
  little-endian codecs of the standard library (\<open>to_be_bytes\<close>, \<open>from_be_bytes\<close>,
  \<open>to_le_bytes\<close>, \<open>from_le_bytes\<close>) with their round trips.

  The workspace builds with \<open>overflow-checks = true\<close> in every profile (\<open>src/Cargo.toml\<close>),
  so an arithmetic overflow is a panic and never a silent wrap; code that means to wrap
  says so with \<open>wrapping_add\<close> and is modelled by the operations of \<open>'a word\<close>.
\<close>

unbundle bit_operations_syntax

section \<open>Types\<close>

type_synonym u8 = "8 word"
type_synonym u16 = "16 word"
type_synonym u32 = "32 word"
type_synonym u64 = "64 word"
type_synonym u128 = "128 word"
type_synonym bytes = "u8 list"

text \<open>
  A computation that may panic: \<open>None\<close> is the panic, \<open>Some x\<close> a normal return of \<open>x\<close>. A Rust
  function of type \<open>Option<T>\<close> that may also panic has type \<open>'a option run\<close>.
\<close>

type_synonym 'a run = "'a option"

abbreviation panic :: "'a run" where
  "panic \<equiv> None"

abbreviation ret :: "'a \<Rightarrow> 'a run" where
  "ret \<equiv> Some"

named_theorems wire \<open>byte-level codecs, slices and their round trips\<close>
named_theorems checked \<open>range facts for overflow-checked arithmetic\<close>

section \<open>Total correctness of a run\<close>

text \<open>The run returns, and its result satisfies \<open>P\<close>; the rules follow the structure of the program.\<close>

definition returns :: "'a run \<Rightarrow> ('a \<Rightarrow> bool) \<Rightarrow> bool" where
  "returns m P \<longleftrightarrow> (\<exists>x. m = Some x \<and> P x)"

named_theorems returns_rules \<open>introduction rules for total correctness, one per program construct\<close>

lemma returns_ret [returns_rules]: "P x \<Longrightarrow> returns (ret x) P"
  by (simp add: returns_def)

lemma returns_bind [returns_rules]: "returns m (\<lambda>x. returns (f x) P) \<Longrightarrow> returns (m \<bind> f) P"
  by (auto simp: returns_def)

lemma returns_if [returns_rules]:
  "(b \<Longrightarrow> returns m P) \<Longrightarrow> (\<not> b \<Longrightarrow> returns n P) \<Longrightarrow> returns (if b then m else n) P"
  by simp

lemma returns_let [returns_rules]: "(\<And>x. x = v \<Longrightarrow> returns (f x) P) \<Longrightarrow> returns (let x = v in f x) P"
  by simp

lemma returns_prod [returns_rules]: "(\<And>a b. x = (a, b) \<Longrightarrow> returns (f a b) P) \<Longrightarrow> returns (case x of (a, b) \<Rightarrow> f a b) P"
  by (cases x) simp

lemma returns_option [returns_rules]:
  "(x = None \<Longrightarrow> returns m P) \<Longrightarrow> (\<And>v. x = Some v \<Longrightarrow> returns (f v) P) \<Longrightarrow>
     returns (case x of None \<Rightarrow> m | Some v \<Rightarrow> f v) P"
  by (cases x) simp_all

lemma returns_mono: "returns m P \<Longrightarrow> (\<And>x. P x \<Longrightarrow> Q x) \<Longrightarrow> returns m Q"
  by (auto simp: returns_def)

lemma returns_SomeD: "returns m P \<Longrightarrow> m = Some x \<Longrightarrow> P x"
  by (simp add: returns_def)

section \<open>Checked 32-bit signed arithmetic\<close>

definition in_i32 :: "int \<Rightarrow> bool" where
  "in_i32 x \<longleftrightarrow> - (2 ^ 31) \<le> x \<and> x < 2 ^ 31"

definition i32_add :: "int \<Rightarrow> int \<Rightarrow> int run" where
  "i32_add a b = (if in_i32 (a + b) then ret (a + b) else panic)"

definition i32_sub :: "int \<Rightarrow> int \<Rightarrow> int run" where
  "i32_sub a b = (if in_i32 (a - b) then ret (a - b) else panic)"

text \<open>A cast \<open>x as i32\<close> of an unsigned size keeps the low 32 bits, read in two's complement.\<close>

definition as_i32 :: "nat \<Rightarrow> int" where
  "as_i32 n = (int n + 2 ^ 31) mod 2 ^ 32 - 2 ^ 31"

definition i32_mul :: "int \<Rightarrow> int \<Rightarrow> int run" where
  "i32_mul a b = (if in_i32 (a * b) then ret (a * b) else panic)"

definition in_i64 :: "int \<Rightarrow> bool" where
  "in_i64 x \<longleftrightarrow> - (2 ^ 63) \<le> x \<and> x < 2 ^ 63"

definition i64_add :: "int \<Rightarrow> int \<Rightarrow> int run" where
  "i64_add a b = (if in_i64 (a + b) then ret (a + b) else panic)"

definition i64_sub :: "int \<Rightarrow> int \<Rightarrow> int run" where
  "i64_sub a b = (if in_i64 (a - b) then ret (a - b) else panic)"

text \<open>A cast \<open>x as i32\<close> of a wider signed integer, and the casts of a signed integer to \<open>i8\<close>.\<close>

definition i64_as_i32 :: "int \<Rightarrow> int" where
  "i64_as_i32 x = (x + 2 ^ 31) mod 2 ^ 32 - 2 ^ 31"

definition i32_as_i8 :: "int \<Rightarrow> int" where
  "i32_as_i8 x = (x + 2 ^ 7) mod 2 ^ 8 - 2 ^ 7"

text \<open>Unsigned sizes, indices and counters as \<open>nat\<close>, with the range checks of \<open>u32\<close> and \<open>u64\<close>.\<close>

definition u32_add :: "nat \<Rightarrow> nat \<Rightarrow> nat run" where
  "u32_add a b = (if a + b < 2 ^ 32 then ret (a + b) else panic)"

definition u32_sub :: "nat \<Rightarrow> nat \<Rightarrow> nat run" where
  "u32_sub a b = (if b \<le> a then ret (a - b) else panic)"

definition u32_mul :: "nat \<Rightarrow> nat \<Rightarrow> nat run" where
  "u32_mul a b = (if a * b < 2 ^ 32 then ret (a * b) else panic)"

definition u64_add :: "nat \<Rightarrow> nat \<Rightarrow> nat run" where
  "u64_add a b = (if a + b < 2 ^ 64 then ret (a + b) else panic)"

definition u64_mul :: "nat \<Rightarrow> nat \<Rightarrow> nat run" where
  "u64_mul a b = (if a * b < 2 ^ 64 then ret (a * b) else panic)"

text \<open>The checked subtraction \<open>a - b\<close> of two \<open>u64\<close> words.\<close>

definition word_sub :: "'a::len word \<Rightarrow> 'a word \<Rightarrow> 'a word run" where
  "word_sub a b = (if b \<le> a then ret (a - b) else panic)"

lemma u32_add_Some [checked]: "a + b < 2 ^ 32 \<Longrightarrow> u32_add a b = ret (a + b)"
  by (simp add: u32_add_def)

lemma u32_sub_Some [checked]: "b \<le> a \<Longrightarrow> u32_sub a b = ret (a - b)"
  by (simp add: u32_sub_def)

lemma u32_mul_Some [checked]: "a * b < 2 ^ 32 \<Longrightarrow> u32_mul a b = ret (a * b)"
  by (simp add: u32_mul_def)

lemma u64_add_Some [checked]: "a + b < 2 ^ 64 \<Longrightarrow> u64_add a b = ret (a + b)"
  by (simp add: u64_add_def)

lemma u64_mul_Some [checked]: "a * b < 2 ^ 64 \<Longrightarrow> u64_mul a b = ret (a * b)"
  by (simp add: u64_mul_def)

lemma word_sub_Some [checked]: "b \<le> a \<Longrightarrow> word_sub a b = ret (a - b)"
  by (simp add: word_sub_def)

lemma i32_mul_Some [checked]: "in_i32 (a * b) \<Longrightarrow> i32_mul a b = ret (a * b)"
  by (simp add: i32_mul_def)

lemma i64_add_Some [checked]: "in_i64 (a + b) \<Longrightarrow> i64_add a b = ret (a + b)"
  by (simp add: i64_add_def)

lemma i64_sub_Some [checked]: "in_i64 (a - b) \<Longrightarrow> i64_sub a b = ret (a - b)"
  by (simp add: i64_sub_def)

lemma i64_as_i32_small [checked]: "in_i32 x \<Longrightarrow> i64_as_i32 x = x"
  by (simp add: i64_as_i32_def in_i32_def)

lemma i32_as_i8_small [checked]: "- (2 ^ 7) \<le> x \<Longrightarrow> x < 2 ^ 7 \<Longrightarrow> i32_as_i8 x = x"
  by (simp add: i32_as_i8_def)

lemma i32_add_Some [checked]: "in_i32 (a + b) \<Longrightarrow> i32_add a b = ret (a + b)"
  by (simp add: i32_add_def)

lemma i32_sub_Some [checked]: "in_i32 (a - b) \<Longrightarrow> i32_sub a b = ret (a - b)"
  by (simp add: i32_sub_def)

lemma as_i32_small [checked, simp]: "n < 2 ^ 31 \<Longrightarrow> as_i32 n = int n"
  by (simp add: as_i32_def)

lemma as_i32_range: "in_i32 (as_i32 n)"
  by (simp add: in_i32_def as_i32_def)

section \<open>Slices\<close>

text \<open>The read \<open>buf[a..b]\<close>: a panic unless \<open>a \<le> b \<le> buf.len()\<close>.\<close>

definition slice :: "'a list \<Rightarrow> nat \<Rightarrow> nat \<Rightarrow> 'a list run" where
  "slice buf a b = (if a \<le> b \<and> b \<le> length buf then ret (take (b - a) (drop a buf)) else panic)"

text \<open>The read \<open>buf[i]\<close>.\<close>

definition index :: "'a list \<Rightarrow> nat \<Rightarrow> 'a run" where
  "index buf i = (if i < length buf then ret (buf ! i) else panic)"

text \<open>The write \<open>buf[off..off + src.len()].copy_from_slice(src)\<close>.\<close>

definition put :: "'a list \<Rightarrow> nat \<Rightarrow> 'a list \<Rightarrow> 'a list run" where
  "put buf off src =
     (if off + length src \<le> length buf
      then ret (take off buf @ src @ drop (off + length src) buf) else panic)"

lemma slice_Some_iff:
  "slice buf a b = Some xs \<longleftrightarrow> a \<le> b \<and> b \<le> length buf \<and> xs = take (b - a) (drop a buf)"
  by (auto simp: slice_def)

lemma length_slice [wire]: "slice buf a b = Some xs \<Longrightarrow> length xs = b - a"
  by (auto simp: slice_Some_iff)

lemma put_Some_iff:
  "put buf off src = Some buf' \<longleftrightarrow>
     off + length src \<le> length buf \<and> buf' = take off buf @ src @ drop (off + length src) buf"
  by (auto simp: put_def)

lemma length_put [wire]: "put buf off src = Some buf' \<Longrightarrow> length buf' = length buf"
  by (auto simp: put_Some_iff)

lemma put_fits [wire]:
  "off + length src \<le> length buf \<Longrightarrow>
     put buf off src = Some (take off buf @ src @ drop (off + length src) buf)"
  by (simp add: put_def)

lemma index_Some [wire]: "i < length buf \<Longrightarrow> index buf i = Some (buf ! i)"
  by (simp add: index_def)

lemma nth_put:
  assumes "put buf off src = Some buf'" and "i < length buf"
  shows "buf' ! i = (if off \<le> i \<and> i < off + length src then src ! (i - off) else buf ! i)"
  using assms by (auto simp: put_Some_iff nth_append)

text \<open>A slice that a write does not touch reads the same; the slice it fills reads back.\<close>

lemma slice_put_same: "put buf off src = Some buf' \<Longrightarrow> slice buf' off (off + length src) = Some src"
  by (auto simp: put_Some_iff slice_def)

lemma slice_put_other:
  assumes "put buf off src = Some buf'" and "b \<le> off \<or> off + length src \<le> a"
  shows "slice buf' a b = slice buf a b"
proof (cases "a \<le> b \<and> b \<le> length buf")
  case True
  have "take (b - a) (drop a buf') = take (b - a) (drop a buf)"
  proof (rule nth_equalityI)
    show "length (take (b - a) (drop a buf')) = length (take (b - a) (drop a buf))"
      using assms(1) by (simp add: length_put)
  next
    fix i
    assume "i < length (take (b - a) (drop a buf'))"
    then have i: "a + i < b" "a + i < length buf" "a \<le> length buf"
      using True assms(1) by (auto simp: length_put)
    then have "buf' ! (a + i) = buf ! (a + i)"
      using assms by (subst nth_put [OF assms(1)]) auto
    then show "take (b - a) (drop a buf') ! i = take (b - a) (drop a buf) ! i"
      using i assms(1) by (simp add: length_put)
  qed
  then show ?thesis
    using assms(1) by (simp add: slice_def length_put)
next
  case False
  then show ?thesis
    using assms(1) by (auto simp: slice_def length_put)
qed

section \<open>Bits\<close>

lemma drop_bit_eq_iff_bits:
  fixes a b :: nat
  shows "drop_bit s a = drop_bit s b \<longleftrightarrow> (\<forall>i\<ge>s. bit a i = bit b i)"
proof
  assume eq: "drop_bit s a = drop_bit s b"
  show "\<forall>i\<ge>s. bit a i = bit b i"
  proof (intro allI impI)
    fix i
    assume "s \<le> i"
    then show "bit a i = bit b i"
      using arg_cong [OF eq, of "\<lambda>x. bit x (i - s)"] by (simp add: bit_drop_bit_eq)
  qed
qed (auto simp: bit_eq_iff bit_simps)

text \<open>The number with the given digits, \<open>w\<close> bits each, most significant first.\<close>

definition horner :: "nat \<Rightarrow> nat list \<Rightarrow> nat" where
  "horner w ds = foldl (\<lambda>acc d. push_bit w acc OR d) 0 ds"

lemma bit_less_exp: "d < 2 ^ w \<Longrightarrow> w \<le> j \<Longrightarrow> \<not> bit (d :: nat) j"
  by (simp add: bit_iff_odd div_less [OF less_le_trans [OF _ power_increasing]])

lemma bit_horner:
  assumes "0 < w" and "\<forall>d\<in>set ds. d < 2 ^ w"
  shows "bit (horner w ds) j \<longleftrightarrow> j < w * length ds \<and> bit (ds ! (length ds - 1 - j div w)) (j mod w)"
  using assms(2)
proof (induction ds arbitrary: j rule: rev_induct)
  case Nil
  then show ?case by (simp add: horner_def)
next
  case (snoc d ds)
  have "horner w (ds @ [d]) = push_bit w (horner w ds) OR d"
    by (simp add: horner_def)
  then have split: "bit (horner w (ds @ [d])) j \<longleftrightarrow> w \<le> j \<and> bit (horner w ds) (j - w) \<or> bit d j"
    by (simp add: bit_simps)
  show ?case
  proof (cases "j < w")
    case True
    then have "j < w * length (ds @ [d])"
      by (simp add: trans_less_add1)
    with True show ?thesis by (simp add: split nth_append)
  next
    case False
    let ?j = "j - w"
    have j: "j div w = Suc (?j div w)" "?j mod w = j mod w"
      using False assms(1) by (simp_all add: le_div_geq le_mod_geq)
    have "\<not> bit d j"
      using False snoc.prems bit_less_exp [of d w j] by simp
    then have "bit (horner w (ds @ [d])) j \<longleftrightarrow>
        ?j < w * length ds \<and> bit (ds ! (length ds - 1 - ?j div w)) (?j mod w)"
      using False split snoc.IH [of ?j] snoc.prems by simp
    also have "\<dots> \<longleftrightarrow> j < w * length (ds @ [d]) \<and>
        bit ((ds @ [d]) ! (length (ds @ [d]) - 1 - j div w)) (j mod w)"
    proof (rule conj_cong)
      show "?j < w * length ds \<longleftrightarrow> j < w * length (ds @ [d])"
        using False by auto
    next
      assume "j < w * length (ds @ [d])"
      then have "length ds - 1 - ?j div w < length ds"
        using False by (cases ds) auto
      then show "bit (ds ! (length ds - 1 - ?j div w)) (?j mod w) \<longleftrightarrow>
          bit ((ds @ [d]) ! (length (ds @ [d]) - 1 - j div w)) (j mod w)"
        using j by (simp add: nth_append)
    qed
    finally show ?thesis .
  qed
qed

lemma horner_less:
  assumes "0 < w" and "\<forall>d\<in>set ds. d < 2 ^ w"
  shows "horner w ds < 2 ^ (w * length ds)"
proof -
  have "take_bit (w * length ds) (horner w ds) = horner w ds"
    by (rule bit_eqI) (auto simp: bit_simps bit_horner [OF assms])
  then show ?thesis
    by (metis take_bit_nat_less_exp)
qed

lemma and_exp_minus_1: "a AND (2 ^ k - 1) = (a :: nat) mod 2 ^ k"
  by (simp add: take_bit_eq_mod [symmetric] take_bit_eq_mask mask_eq_exp_minus_1)

lemma unat_ucast_small:
  fixes w :: "'a::len word"
  assumes "unat w < 2 ^ LENGTH('b::len)"
  shows "unat (ucast w :: 'b word) = unat w"
  using assms by (simp add: unsigned_ucast_eq take_bit_nat_eq_self)

text \<open>The signed reading of a word.\<close>

lemma sint_of_int_eq:
  fixes w :: "'a::len word"
  assumes "w = word_of_int k" and "- (2 ^ (LENGTH('a) - 1)) \<le> k" and "k < 2 ^ (LENGTH('a) - 1)"
  shows "sint w = k"
proof -
  have "sint w = signed_take_bit (LENGTH('a) - 1) k"
    unfolding assms(1) by (simp add: signed_of_int)
  also have "\<dots> = k"
    using assms(2,3) by (intro signed_take_bit_int_eq_self) auto
  finally show ?thesis .
qed

lemma sint_sub_eq:
  fixes a b :: "'a::len word"
  assumes "- (2 ^ (LENGTH('a) - 1)) \<le> uint a - uint b" and "uint a - uint b < 2 ^ (LENGTH('a) - 1)"
  shows "sint (a - b) = uint a - uint b"
  using assms by (intro sint_of_int_eq) simp_all

lemma sint_split:
  fixes w :: "'a::len word"
  shows "sint w = (if uint w < 2 ^ (LENGTH('a) - 1) then uint w else uint w - 2 ^ LENGTH('a))"
proof -
  have p: "(2::int) ^ LENGTH('a) = 2 * 2 ^ (LENGTH('a) - 1)"
    by (metis len_gt_0 power_eq_if power_commutes less_numeral_extra(3))
  have b: "uint w < 2 ^ LENGTH('a)" by (rule uint_lt2p)
  have b': "0 \<le> uint w" by simp
  show ?thesis
  proof (cases "uint w < 2 ^ (LENGTH('a) - 1)")
    case True
    have "- (2 ^ (LENGTH('a) - 1)) \<le> uint w"
      by (rule order_trans [OF _ b']) simp
    then show ?thesis using True by (simp add: sint_of_int_eq)
  next
    case False
    have "w = word_of_int (uint w - 2 ^ LENGTH('a))"
      by (simp flip: word_of_int_uint add: word_of_int_2p_len)
    then show ?thesis
      using False b p by (simp add: sint_of_int_eq)
  qed
qed

section \<open>Big- and little-endian codecs\<close>

fun be_bytes :: "nat \<Rightarrow> 'a::len word \<Rightarrow> bytes" where
  "be_bytes 0 w = []"
| "be_bytes (Suc n) w = be_bytes n (drop_bit 8 w) @ [ucast w]"

definition be_word :: "bytes \<Rightarrow> 'a::len word" where
  "be_word bs = foldl (\<lambda>acc b. push_bit 8 acc OR ucast b) 0 bs"

definition le_bytes :: "nat \<Rightarrow> 'a::len word \<Rightarrow> bytes" where
  "le_bytes n w = rev (be_bytes n w)"

definition le_word :: "bytes \<Rightarrow> 'a::len word" where
  "le_word bs = be_word (rev bs)"

lemma length_be_bytes [simp, wire]: "length (be_bytes n w) = n"
  by (induction n arbitrary: w) auto

lemma length_le_bytes [simp, wire]: "length (le_bytes n w) = n"
  by (simp add: le_bytes_def)

lemma be_bytes_nth: "k < n \<Longrightarrow> be_bytes n w ! k = ucast (drop_bit (8 * (n - 1 - k)) w)"
proof (induction n arbitrary: w)
  case (Suc n)
  show ?case
  proof (cases "k = n")
    case True
    then show ?thesis by (simp add: nth_append)
  next
    case False
    then have "8 * (n - Suc k) + 8 = 8 * (n - k)"
      using Suc.prems by auto
    then show ?thesis
      using False Suc.prems Suc.IH [of "drop_bit 8 w"] by (simp add: nth_append)
  qed
qed simp

lemma be_bytes_ucast:
  fixes w :: "'b::len word"
  assumes "8 * n \<le> LENGTH('a::len)"
  shows "be_bytes n (ucast w :: 'a word) = be_bytes n w"
proof (rule nth_equalityI)
  fix k
  assume "k < length (be_bytes n (ucast w :: 'a word))"
  then have k: "k < n" by simp
  have "ucast (drop_bit s (ucast w :: 'a word)) = (ucast (drop_bit s w) :: u8)" if "s + 8 \<le> 8 * n" for s
    using that assms by (intro bit_word_eqI) (auto simp: bit_simps dest: bit_imp_le_length)
  moreover have "8 * (n - 1 - k) + 8 \<le> 8 * n"
    using k by auto
  ultimately show "be_bytes n (ucast w :: 'a word) ! k = be_bytes n w ! k"
    using k by (simp add: be_bytes_nth)
qed simp

lemma be_word_Nil [simp]: "be_word [] = 0"
  by (simp add: be_word_def)

lemma be_word_snoc: "be_word (bs @ [b]) = push_bit 8 (be_word bs) OR ucast b"
  by (simp add: be_word_def)

lemma be_word_be_bytes_take: "be_word (be_bytes n w) = take_bit (8 * n) w"
proof (induction n arbitrary: w)
  case 0
  then show ?case by simp
next
  case (Suc n)
  have "push_bit 8 (take_bit (8 * n) (drop_bit 8 w)) OR ucast (ucast w :: u8)
      = take_bit (8 * Suc n) w"
    by (rule bit_eqI) (auto simp: bit_simps)
  then show ?case
    by (simp add: be_word_snoc Suc.IH)
qed

text \<open>Decoding inverts encoding at the full width of the word.\<close>

lemma be_word_be_bytes [simp, wire]:
  fixes w :: "'a::len word"
  assumes "LENGTH('a) = 8 * n"
  shows "be_word (be_bytes n w) = w"
  using assms by (simp add: be_word_be_bytes_take take_bit_word_eq_self)

text \<open>Encoding inverts decoding on a byte string that fits the word.\<close>

lemma be_bytes_be_word:
  assumes "8 * length bs \<le> LENGTH('a::len)"
  shows "be_bytes (length bs) (be_word bs :: 'a word) = bs"
  using assms
proof (induction bs rule: rev_induct)
  case Nil
  then show ?case by simp
next
  case (snoc b bs)
  let ?w = "be_word bs :: 'a word"
  have len: "8 * length bs + 8 \<le> LENGTH('a)"
    using snoc.prems by simp
  then have bound: "8 * length bs \<le> LENGTH('a) - 8"
    by simp
  have small: "take_bit (8 * length bs) ?w = ?w"
    by (metis be_word_be_bytes_take snoc.IH len add_leD1)
  have "drop_bit 8 (push_bit 8 ?w OR ucast b) = ?w"
  proof (rule bit_word_eqI)
    fix k
    assume k: "k < LENGTH('a)"
    have "bit ?w k \<longleftrightarrow> k < 8 * length bs \<and> bit ?w k"
      by (metis small bit_take_bit_iff)
    with k bound len show "bit (drop_bit 8 (push_bit 8 ?w OR ucast b)) k \<longleftrightarrow> bit ?w k"
      by (auto simp: bit_simps dest: bit_imp_le_length)
  qed
  moreover have "ucast (push_bit 8 ?w OR ucast b) = b"
    using len by (intro bit_word_eqI) (auto simp: bit_simps)
  ultimately show ?case
    using snoc.IH len by (simp add: be_word_snoc)
qed

lemma be_bytes_be_word_eq [wire]:
  "length bs = n \<Longrightarrow> 8 * n \<le> LENGTH('a::len) \<Longrightarrow> be_bytes n (be_word bs :: 'a word) = bs"
  using be_bytes_be_word by blast

lemma le_word_le_bytes [simp, wire]:
  fixes w :: "'a::len word"
  assumes "LENGTH('a) = 8 * n"
  shows "le_word (le_bytes n w) = w"
  using assms by (simp add: le_word_def le_bytes_def)

lemma le_bytes_le_word [wire]:
  "length bs = n \<Longrightarrow> 8 * n \<le> LENGTH('a::len) \<Longrightarrow> le_bytes n (le_word bs :: 'a word) = bs"
  by (simp add: le_word_def le_bytes_def be_bytes_be_word_eq)

lemma be_word_inj:
  assumes "length xs = length ys" and "8 * length xs \<le> LENGTH('a::len)"
    and "(be_word xs :: 'a word) = be_word ys"
  shows "xs = ys"
  using assms by (metis be_bytes_be_word_eq)

end
