(* ===== verification/AddrFilt.thy ===== *)
theory AddrFilt
  imports Prelude
begin

text \<open>
  Address-based access control, \<open>crates/chrony-rs-core/src/addrfilt.rs\<close>: one trie per address
  family, four address bits per level. The operations come first, as the source writes them; the
  abstract view follows (a trie is a map from nibble paths to explicit rules, and a lookup takes
  the most specific explicit rule on the path), then the invariant, the refinement lemmas and the
  properties of the public operations.
\<close>

section \<open>The trie and its operations\<close>

datatype State = Deny | Allow | AsParent

datatype AdfStatus = Success | BadSubnet

text \<open>\<open>Ipv4Addr\<close> and \<open>Ipv6Addr\<close> of the standard library are their address bits.\<close>

datatype Subnet = V4 u32 | V6 u128 | Unspec

datatype IpAddr = IpV4 u32 | IpV6 u128

definition split_ip6 :: "u128 \<Rightarrow> u32 list" where
  "split_ip6 ip =
     (let os = be_bytes 16 ip
      in map (\<lambda>i. be_word [os ! (i * 4), os ! (i * 4 + 1), os ! (i * 4 + 2), os ! (i * 4 + 3)])
           [0..<4])"

text \<open>The index panics past the end of \<open>addr\<close>, the shift distance panics when it underflows.\<close>

definition get_subnet :: "u32 list \<Rightarrow> nat \<Rightarrow> nat run" where
  "get_subnet addr at =
     (let off = at div 32; at' = at mod 32
      in if off < length addr \<and> at' \<le> 32 - 4
         then ret (unat (drop_bit (32 - 4 - at') (addr ! off) AND 15)) else panic)"

datatype TableNode = TableNode (state: State) (extended: "TableNode list option")

definition new_node :: "State \<Rightarrow> TableNode" where
  "new_node s = TableNode s None"

definition open_node :: "TableNode \<Rightarrow> TableNode" where
  "open_node node =
     (case extended node of
        None \<Rightarrow> TableNode (state node) (Some (replicate 16 (new_node AsParent)))
      | Some _ \<Rightarrow> node)"

definition close_node :: "TableNode \<Rightarrow> TableNode" where
  "close_node node = TableNode (state node) None"

definition set_state :: "TableNode \<Rightarrow> State \<Rightarrow> TableNode" where
  "set_state node s = TableNode s (extended node)"

text \<open>
  The two descending loops of \<open>set_subnet\<close> (\<open>whole\<close> selects which guard) move a mutable
  reference down the trie; the model rebuilds the path on the way back and runs \<open>fin\<close>, the code
  after the loop, on the node the reference ends at.
\<close>

function descend ::
  "bool \<Rightarrow> u32 list \<Rightarrow> int \<Rightarrow> nat \<Rightarrow> (int \<Rightarrow> nat \<Rightarrow> TableNode \<Rightarrow> TableNode run) \<Rightarrow>
     TableNode \<Rightarrow> TableNode run" where
  "descend whole ip bits_to_go bits_consumed fin node =
     (if (if whole then bits_to_go > 0 else bits_to_go \<ge> 4) then do {
        subnet \<leftarrow> get_subnet ip bits_consumed;
        let node' = open_node node;
        ext \<leftarrow> extended node';
        child \<leftarrow> index ext subnet;
        child' \<leftarrow> descend whole ip (bits_to_go - 4) (bits_consumed + 4) fin child;
        ret (TableNode (state node') (Some (ext[subnet := child'])))
      } else fin bits_to_go bits_consumed node)"
  by pat_completeness auto
termination
  by (relation "measure (\<lambda>(whole, ip, bits_to_go, bits_consumed, fin, node). nat bits_to_go)")
    (auto split: if_splits)

definition set_leaf :: "State \<Rightarrow> bool \<Rightarrow> TableNode \<Rightarrow> TableNode" where
  "set_leaf new_state delete_children node =
     set_state (if delete_children then close_node node else node) new_state"

definition set_siblings ::
  "u32 list \<Rightarrow> State \<Rightarrow> bool \<Rightarrow> int \<Rightarrow> nat \<Rightarrow> TableNode \<Rightarrow> TableNode run" where
  "set_siblings ip new_state delete_children bits_to_go bits_consumed node = do {
     let n = (2::nat) ^ (4 - nat bits_to_go);
     subnet \<leftarrow> get_subnet ip bits_consumed;
     let base = unat ((of_nat subnet :: u64) AND NOT (of_nat n - 1));
     if base + n \<le> 16 then do {
       let node' = open_node node;
       ext \<leftarrow> extended node';
       ret (TableNode (state node')
         (Some (take base ext @
                map (set_leaf new_state delete_children) (take n (drop base ext)) @
                drop (base + n) ext)))
     } else panic
   }"

definition set_subnet ::
  "TableNode \<Rightarrow> u32 list \<Rightarrow> int \<Rightarrow> int \<Rightarrow> State \<Rightarrow> bool \<Rightarrow> (TableNode \<times> AdfStatus) run" where
  "set_subnet node ip ip_len subnet_bits new_state delete_children =
     (if subnet_bits < 0 \<or> subnet_bits > 32 * ip_len then ret (node, BadSubnet)
      else if subnet_bits AND (4 - 1) = 0 then do {
        node' \<leftarrow> descend True ip subnet_bits 0
          (\<lambda>_ _ leaf. ret (set_leaf new_state delete_children leaf)) node;
        ret (node', Success)
      } else do {
        node' \<leftarrow> descend False ip subnet_bits 0 (set_siblings ip new_state delete_children) node;
        ret (node', Success)
      })"

definition eff :: "State \<Rightarrow> State \<Rightarrow> State" where
  "eff own inherited = (if own \<noteq> AsParent then own else inherited)"

lemma index_mem: "index xs i = Some x \<Longrightarrow> x \<in> set xs"
  by (auto simp: index_def split: if_splits)

lemma size_child [termination_simp]: "extended node = Some ext \<Longrightarrow> c \<in> set ext \<Longrightarrow> size c < size node"
  by (cases node) (auto simp: less_Suc_eq_le size_list_estimation' intro: le_SucI)

function check_ip_loop :: "TableNode \<Rightarrow> u32 list \<Rightarrow> nat \<Rightarrow> State \<Rightarrow> State run" where
  "check_ip_loop node ip bits_consumed s =
     (let s' = eff (state node) s in
      case extended node of
        Some ext \<Rightarrow> do {
          subnet \<leftarrow> get_subnet ip bits_consumed;
          child \<leftarrow> index ext subnet;
          check_ip_loop child ip (bits_consumed + 4) s'
        }
      | None \<Rightarrow> ret s')"
  by pat_completeness auto
termination
  by (relation "measure (\<lambda>(node, ip, bits_consumed, s). size node)")
    (auto dest: index_mem simp: size_child)

definition check_ip :: "TableNode \<Rightarrow> u32 list \<Rightarrow> bool run" where
  "check_ip node ip = do { s \<leftarrow> check_ip_loop node ip 0 Deny; ret (s = Allow) }"

function any_allowed :: "TableNode \<Rightarrow> State \<Rightarrow> bool" where
  "any_allowed node parent =
     (let s = eff (state node) parent in
      case extended node of
        Some ext \<Rightarrow> list_ex (\<lambda>c. any_allowed c s) ext
      | None \<Rightarrow> s = Allow)"
  by pat_completeness auto
termination
  by (relation "measure (\<lambda>(node, parent). size node)") (auto simp: size_child)

declare descend.simps [simp del] check_ip_loop.simps [simp del] any_allowed.simps [simp del]

section \<open>The table\<close>

record AuthTable =
  base4 :: TableNode
  base6 :: TableNode

definition new_table :: AuthTable where
  "new_table = \<lparr>base4 = new_node Deny, base6 = new_node Deny\<rparr>"

fun set_subnet_family :: "AuthTable \<Rightarrow> Subnet \<Rightarrow> int \<Rightarrow> State \<Rightarrow> bool \<Rightarrow> (AuthTable \<times> AdfStatus) run" where
  "set_subnet_family t (V4 ip) subnet_bits new_state delete_children = do {
     (n, st) \<leftarrow> set_subnet (base4 t) [ip] 1 subnet_bits new_state delete_children;
     ret (t\<lparr>base4 := n\<rparr>, st)
   }"
| "set_subnet_family t (V6 ip) subnet_bits new_state delete_children = do {
     (n, st) \<leftarrow> set_subnet (base6 t) (split_ip6 ip) 4 subnet_bits new_state delete_children;
     ret (t\<lparr>base6 := n\<rparr>, st)
   }"
| "set_subnet_family t Unspec subnet_bits new_state delete_children =
     (if subnet_bits \<noteq> 0 then ret (t, BadSubnet)
      else do {
        (n4, st4) \<leftarrow> set_subnet (base4 t) [0] 1 0 new_state delete_children;
        if st4 = Success then do {
          (n6, st6) \<leftarrow> set_subnet (base6 t) [0, 0, 0, 0] 4 0 new_state delete_children;
          ret (t\<lparr>base4 := n4, base6 := n6\<rparr>, if st6 = Success then Success else BadSubnet)
        } else ret (t\<lparr>base4 := n4\<rparr>, BadSubnet)
      })"

definition allow :: "AuthTable \<Rightarrow> Subnet \<Rightarrow> int \<Rightarrow> (AuthTable \<times> AdfStatus) run" where
  "allow t subnet subnet_bits = set_subnet_family t subnet subnet_bits Allow False"

definition allow_all :: "AuthTable \<Rightarrow> Subnet \<Rightarrow> int \<Rightarrow> (AuthTable \<times> AdfStatus) run" where
  "allow_all t subnet subnet_bits = set_subnet_family t subnet subnet_bits Allow True"

definition deny :: "AuthTable \<Rightarrow> Subnet \<Rightarrow> int \<Rightarrow> (AuthTable \<times> AdfStatus) run" where
  "deny t subnet subnet_bits = set_subnet_family t subnet subnet_bits Deny False"

definition deny_all :: "AuthTable \<Rightarrow> Subnet \<Rightarrow> int \<Rightarrow> (AuthTable \<times> AdfStatus) run" where
  "deny_all t subnet subnet_bits = set_subnet_family t subnet subnet_bits Deny True"

fun is_allowed :: "AuthTable \<Rightarrow> IpAddr \<Rightarrow> bool run" where
  "is_allowed t (IpV4 ip) = check_ip (base4 t) [ip]"
| "is_allowed t (IpV6 ip) = check_ip (base6 t) (split_ip6 ip)"

definition is_any_allowed :: "AuthTable \<Rightarrow> bool \<Rightarrow> bool" where
  "is_any_allowed t v6 = any_allowed (if v6 then base6 t else base4 t) AsParent"

section \<open>Abstract view: rules on nibble paths\<close>

text \<open>The index of a lookup at level \<open>k\<close>, and the whole path of an address.\<close>

definition nib :: "u32 list \<Rightarrow> nat \<Rightarrow> nat" where
  "nib ip k = unat (drop_bit (28 - 4 * (k mod 8)) (ip ! (k div 8)) AND 15)"

definition nibbles :: "u32 list \<Rightarrow> nat list" where
  "nibbles ip = map (nib ip) [0..<8 * length ip]"

text \<open>The explicit rule a trie holds at a path; \<open>AsParent\<close> where it holds none.\<close>

fun rule_at :: "TableNode \<Rightarrow> nat list \<Rightarrow> State" where
  "rule_at (TableNode s e) [] = s"
| "rule_at (TableNode s None) (n # ns) = AsParent"
| "rule_at (TableNode s (Some ext)) (n # ns) = (if n < length ext then rule_at (ext ! n) ns else AsParent)"

text \<open>The most specific explicit rule on a path, or the default \<open>s\<close>.\<close>

definition most_specific :: "(nat list \<Rightarrow> State) \<Rightarrow> nat list \<Rightarrow> State \<Rightarrow> State" where
  "most_specific r ns s = foldl (\<lambda>acc k. eff (r (take k ns)) acc) s [0..<Suc (length ns)]"

text \<open>A trie of at most \<open>d\<close> levels whose opened nodes have sixteen children.\<close>

fun wf_node :: "nat \<Rightarrow> TableNode \<Rightarrow> bool" where
  "wf_node d (TableNode s None) = True"
| "wf_node 0 (TableNode s (Some ext)) = False"
| "wf_node (Suc d) (TableNode s (Some ext)) = (length ext = 16 \<and> list_all (wf_node d) ext)"

text \<open>Change the node at a path, opening the nodes above it.\<close>

fun modify_at :: "nat list \<Rightarrow> (TableNode \<Rightarrow> TableNode) \<Rightarrow> TableNode \<Rightarrow> TableNode" where
  "modify_at [] f node = f node"
| "modify_at (n # ns) f node =
     (let ext = the (extended (open_node node))
      in TableNode (state node) (Some (ext[n := modify_at ns f (ext ! n)])))"

fun subtree :: "nat list \<Rightarrow> TableNode \<Rightarrow> TableNode" where
  "subtree [] node = node"
| "subtree (n # ns) node = subtree ns (the (extended (open_node node)) ! n)"

text \<open>The first \<open>b\<close> bits of two word lists agree.\<close>

definition addr_val :: "u32 list \<Rightarrow> nat" where
  "addr_val ip = horner 32 (map unat ip)"

definition same_prefix :: "nat \<Rightarrow> u32 list \<Rightarrow> u32 list \<Rightarrow> bool" where
  "same_prefix b ip ip' \<longleftrightarrow>
     drop_bit (32 * length ip - b) (addr_val ip) = drop_bit (32 * length ip - b) (addr_val ip')"

definition wf_table :: "AuthTable \<Rightarrow> bool" where
  "wf_table t \<longleftrightarrow> wf_node 8 (base4 t) \<and> wf_node 32 (base6 t)"

fun in_subnet :: "Subnet \<Rightarrow> int \<Rightarrow> IpAddr \<Rightarrow> bool" where
  "in_subnet (V4 a) b (IpV4 x) = (drop_bit (32 - nat b) x = drop_bit (32 - nat b) a)"
| "in_subnet (V6 a) b (IpV6 x) = (drop_bit (128 - nat b) x = drop_bit (128 - nat b) a)"
| "in_subnet Unspec b x = True"
| "in_subnet (V4 a) b (IpV6 x) = False"
| "in_subnet (V6 a) b (IpV4 x) = False"

fun valid_width :: "Subnet \<Rightarrow> int \<Rightarrow> bool" where
  "valid_width (V4 a) b = (0 \<le> b \<and> b \<le> 32)"
| "valid_width (V6 a) b = (0 \<le> b \<and> b \<le> 128)"
| "valid_width Unspec b = (b = 0)"

subsection \<open>Nodes\<close>

lemma eff_AsParent [simp]: "eff AsParent s = s"
  by (simp add: eff_def)

lemma new_node_simps [simp]: "state (new_node s) = s" "extended (new_node s) = None"
  by (simp_all add: new_node_def)

lemma state_open_node [simp]: "state (open_node node) = state node"
  by (simp add: open_node_def split: option.splits)

lemma wf_new_node [simp]: "wf_node d (new_node s)"
  by (simp add: new_node_def)

lemma extended_open_node: "\<exists>ext. extended (open_node node) = Some ext"
  by (cases "extended node") (auto simp: open_node_def)

lemma wf_node_iff:
  "wf_node d node \<longleftrightarrow>
     (case extended node of None \<Rightarrow> True
      | Some ext \<Rightarrow> d > 0 \<and> length ext = 16 \<and> (\<forall>c\<in>set ext. wf_node (d - 1) c))"
  by (cases "(d, node)" rule: wf_node.cases) (auto simp: list_all_iff)

lemma wf_open_node: "wf_node (Suc d) node \<Longrightarrow> wf_node (Suc d) (open_node node)"
  by (auto simp: open_node_def new_node_def wf_node_iff [of "Suc d"] split: option.splits)

lemma open_children:
  assumes "wf_node (Suc d) node" and "extended (open_node node) = Some ext"
  shows "length ext = 16" and "c \<in> set ext \<Longrightarrow> wf_node d c"
  using wf_open_node [OF assms(1)] assms(2) by (auto simp: wf_node_iff [of "Suc d"])

lemma rule_at_new [simp]: "rule_at (new_node AsParent) p = AsParent"
  by (cases p) (auto simp: new_node_def)

lemma rule_at_open [simp]: "rule_at (open_node node) p = rule_at node p"
  by (cases node; cases p) (auto simp: open_node_def split: option.splits)

lemma rule_at_Cons:
  assumes "extended (open_node node) = Some ext" and "n < length ext"
  shows "rule_at node (n # ns) = rule_at (ext ! n) ns"
proof -
  have "rule_at node (n # ns) = rule_at (open_node node) (n # ns)"
    by simp
  also have "\<dots> = rule_at (ext ! n) ns"
    using assms by (cases "open_node node") auto
  finally show ?thesis .
qed

subsection \<open>Changing the node at a path\<close>

lemma wf_modify_at:
  assumes "wf_node (length p + d) node" and "\<forall>n\<in>set p. n < 16"
    and "\<And>t. wf_node d t \<Longrightarrow> wf_node d (f t)"
  shows "wf_node (length p + d) (modify_at p f node)"
  using assms(1,2)
proof (induction p arbitrary: node)
  case Nil
  then show ?case using assms(3) by simp
next
  case (Cons n p)
  obtain ext where ext: "extended (open_node node) = Some ext"
    using extended_open_node by blast
  note ch = open_children [of "length p + d", OF _ ext]
  have "wf_node (length p + d) (modify_at p f (ext ! n))"
    using Cons ch by (intro Cons.IH) auto
  then show ?case
    using Cons.prems ch ext by (auto simp: list_all_iff dest!: set_update_subset_insert [THEN subsetD])
qed

lemma wf_subtree:
  "wf_node (length p + d) node \<Longrightarrow> \<forall>n\<in>set p. n < 16 \<Longrightarrow> wf_node d (subtree p node)"
proof (induction p arbitrary: node)
  case (Cons n p)
  obtain ext where ext: "extended (open_node node) = Some ext"
    using extended_open_node by blast
  show ?case
    using Cons open_children [of "length p + d", OF _ ext] ext by simp
qed simp

lemma rule_at_subtree:
  assumes "wf_node (length p + d) node" and "\<forall>n\<in>set p. n < 16"
  shows "rule_at (subtree p node) q = rule_at node (p @ q)"
  using assms
proof (induction p arbitrary: node)
  case (Cons n p)
  obtain ext where ext: "extended (open_node node) = Some ext"
    using extended_open_node by blast
  show ?case
    using Cons open_children [of "length p + d", OF _ ext] ext by (simp add: rule_at_Cons)
qed simp

lemma rule_at_modify_at:
  assumes "wf_node (length p + d) node" and "\<forall>n\<in>set p. n < 16"
  shows "rule_at (modify_at p f node) q =
    (if take (length p) q = p then rule_at (f (subtree p node)) (drop (length p) q)
     else rule_at node q)"
  using assms
proof (induction p arbitrary: node q)
  case (Cons n p)
  obtain ext where ext: "extended (open_node node) = Some ext"
    using extended_open_node by blast
  note ch = open_children [of "length p + d", OF _ ext]
  show ?case
  proof (cases q)
    case Nil
    then show ?thesis by (cases node) (simp add: Let_def)
  next
    case q: (Cons m q')
    show ?thesis
    proof (cases "m < 16")
      case True
      then show ?thesis
        using Cons ch ext q by (auto simp: rule_at_Cons nth_list_update)
    next
      case False
      then have "rule_at node q = AsParent"
        using Cons.prems ch q ext
        by (cases node) (auto simp: open_node_def split: option.splits)
      then show ?thesis
        using False Cons.prems ch ext q by auto
    qed
  qed
qed simp

subsection \<open>The loops compute path updates\<close>

lemma nib_less [simp]: "nib ip k < 16"
proof -
  have "unat (w AND 15) \<le> unat (15 :: u32)" for w :: u32
    by (rule word_and_le1 [THEN word_le_nat_alt [THEN iffD1]])
  from this [of "drop_bit (28 - 4 * (k mod 8)) (ip ! (k div 8))"] show ?thesis
    by (simp add: nib_def)
qed

lemma get_subnet_nib:
  assumes "k < 8 * length ip"
  shows "get_subnet ip (4 * k) = Some (nib ip k)"
proof -
  have "4 * k mod 32 = 4 * (k mod 8)"
    by (simp add: mult_mod_right)
  moreover have "4 * k div 32 = k div 8" and "k div 8 < length ip" and "k mod 8 \<le> 7"
    using assms by auto
  ultimately show ?thesis
    by (simp add: get_subnet_def nib_def Let_def)
qed

lemma descend_step:
  assumes "if whole then b > 0 else b \<ge> 4" and "get_subnet ip c = Some s"
    and "extended (open_node node) = Some ext" and "s < length ext"
    and "descend whole ip (b - 4) (c + 4) fin (ext ! s) = Some child"
  shows "descend whole ip b c fin node = Some (TableNode (state node) (Some (ext[s := child])))"
  using assms by (auto simp: descend.simps [of whole ip b c] index_Some Let_def split: if_splits)

lemma descend_modify:
  assumes "wf_node (m + d) node" and "k + m \<le> 8 * length ip"
    and "if whole then r = 0 else 0 < r \<and> r < 4"
    and fin: "\<And>t. wf_node d t \<Longrightarrow> fin r (4 * (k + m)) t = Some (f t)"
  shows "descend whole ip (4 * int m + r) (4 * k) fin node =
    Some (modify_at (map (nib ip) [k..<k + m]) f node)"
  using assms(1,2) fin
proof (induction m arbitrary: k node)
  case 0
  then show ?case
    using assms(3) by (simp add: descend.simps [of whole ip r] split: if_splits)
next
  case (Suc m)
  obtain ext where ext: "extended (open_node node) = Some ext"
    using extended_open_node by blast
  note ch = open_children [of "m + d", OF _ ext]
  have guard: "if whole then 4 * int (Suc m) + r > 0 else 4 * int (Suc m) + r \<ge> 4"
    using assms(3) by (auto split: if_splits)
  let ?path = "map (nib ip) [Suc k..<Suc k + m]"
  have IH: "descend whole ip (4 * int m + r) (4 * k + 4) fin (ext ! nib ip k) =
      Some (modify_at ?path f (ext ! nib ip k))"
    using Suc.IH [of "ext ! nib ip k" "Suc k"] Suc.prems ch by (simp add: add.commute del: upt_Suc)
  have "descend whole ip (4 * int (Suc m) + r) (4 * k) fin node =
      Some (TableNode (state node) (Some (ext[nib ip k := modify_at ?path f (ext ! nib ip k)])))"
    using guard Suc.prems ext ch IH by (intro descend_step) (simp_all add: get_subnet_nib del: upt_Suc)
  moreover have "map (nib ip) [k..<k + Suc m] = nib ip k # ?path"
    by (simp add: upt_conv_Cons del: upt_Suc)
  ultimately show ?case
    using ext by (simp only: modify_at.simps Let_def option.sel)
qed

lemma rule_at_set_leaf:
  "rule_at (set_leaf new del t) q = (if q = [] then new else if del then AsParent else rule_at t q)"
  by (cases t; cases q; cases "extended t")
    (auto simp: set_leaf_def set_state_def close_node_def)

lemma wf_set_leaf: "wf_node d t \<Longrightarrow> wf_node d (set_leaf new del t)"
  by (auto simp: set_leaf_def set_state_def close_node_def wf_node_iff)

definition siblings :: "nat \<Rightarrow> nat \<Rightarrow> State \<Rightarrow> bool \<Rightarrow> TableNode \<Rightarrow> TableNode" where
  "siblings x n new del t =
     (let ext = the (extended (open_node t))
      in TableNode (state t)
          (Some (map (\<lambda>y. if y div n = x div n then set_leaf new del (ext ! y) else ext ! y) [0..<16])))"

lemma and_not_mask: "(w :: u64) AND NOT (2 ^ k - 1) = push_bit k (drop_bit k w)"
  by (rule bit_word_eqI) (auto simp: bit_simps mask_eq_exp_minus_1 [symmetric])

lemma sibling_range:
  assumes "x < 16"
  shows "unat ((of_nat x :: u64) AND NOT (of_nat (2 ^ k) - 1)) = x div 2 ^ k * 2 ^ k"
proof -
  have x: "unat (of_nat x :: u64) = x"
    using assms by (simp add: unat_of_nat)
  have "unat (push_bit k (drop_bit k (of_nat x :: u64))) = take_bit 64 (x div 2 ^ k * 2 ^ k)"
    unfolding unsigned_push_bit_eq unat_drop_bit_eq x by (simp add: push_bit_eq_mult drop_bit_eq_div)
  moreover have "x div 2 ^ k * 2 ^ k < 2 ^ 64"
    using assms by (simp add: order.strict_trans1 [OF div_times_less_eq_dividend])
  ultimately show ?thesis
    by (simp add: and_not_mask take_bit_nat_eq_self)
qed

lemma siblings_map:
  assumes "length ext = 16" and "x < 16" and "n = 2 ^ k" and "k \<le> 4"
  shows "take (x div n * n) ext @ map g (take n (drop (x div n * n) ext)) @ drop (x div n * n + n) ext =
    map (\<lambda>y. if y div n = x div n then g (ext ! y) else ext ! y) [0..<16]" (is "?l = ?r")
proof (rule nth_equalityI)
  let ?b = "x div n * n"
  have n: "0 < n" "n dvd 16"
    using assms(3,4) by (auto intro: dvd_power_le [of 2 2 k 4, simplified])
  then obtain q where q: "16 = n * q" by blast
  then have "x div n < q"
    using assms(2) n by (simp add: less_mult_imp_div_less mult.commute)
  then have b: "?b + n \<le> 16"
    by (metis Suc_leI add.commute mult.commute mult_Suc mult_le_mono2 q)
  show "length ?l = length ?r"
    using assms(1) b by simp
  fix i
  assume "i < length ?l"
  then have i: "i < 16"
    using assms(1) b by simp
  have blk: "i div n = x div n \<longleftrightarrow> ?b \<le> i \<and> i < ?b + n"
    using n(1) by (metis add.commute div_nat_eqI dividend_less_div_times div_times_less_eq_dividend
        mult.commute mult_Suc)
  show "?l ! i = ?r ! i"
    using i b assms(1) blk by (auto simp: nth_append)
qed

lemma set_siblings_eq:
  assumes "wf_node (Suc d) t" and "k < 8 * length ip" and "r \<in> {1, 2, 3}"
  shows "set_siblings ip new del (int r) (4 * k) t = Some (siblings (nib ip k) (2 ^ (4 - r)) new del t)"
proof -
  obtain ext where ext: "extended (open_node t) = Some ext"
    using extended_open_node by blast
  let ?n = "2 ^ (4 - r) :: nat" and ?x = "nib ip k"
  have len: "length ext = 16"
    using open_children(1) [OF assms(1) ext] .
  have "x div ?n * ?n + ?n \<le> 16" if "x < 16" for x
    using assms(3) that by auto
  from this [OF nib_less] show ?thesis
    using assms(2) ext len siblings_map [OF len nib_less, of ?n "4 - r" ip k "set_leaf new del"]
    by (simp add: set_siblings_def siblings_def get_subnet_nib sibling_range Let_def
        flip: of_nat_power)
qed

lemma rule_at_siblings:
  assumes "wf_node (Suc d) t" and "x < 16" and "n dvd 16"
  shows "rule_at (siblings x n new del t) q =
    (if q \<noteq> [] \<and> hd q div n = x div n \<and> hd q < 16
     then (if tl q = [] then new else if del then AsParent else rule_at t q) else rule_at t q)"
proof -
  obtain ext where ext: "extended (open_node t) = Some ext"
    using extended_open_node by blast
  have len: "length ext = 16"
    using open_children(1) [OF assms(1) ext] .
  show ?thesis
  proof (cases q)
    case Nil
    then show ?thesis by (cases t) (simp add: siblings_def Let_def)
  next
    case (Cons y ys)
    show ?thesis
    proof (cases "y < 16")
      case True
      then show ?thesis
        using Cons ext len by (auto simp: siblings_def Let_def rule_at_set_leaf rule_at_Cons)
    next
      case False
      then have "rule_at t q = AsParent"
        using Cons len ext by (cases t) (auto simp: open_node_def split: option.splits)
      then show ?thesis
        using Cons False by (auto simp: siblings_def Let_def)
    qed
  qed
qed

lemma wf_siblings:
  assumes "wf_node (Suc d) t"
  shows "wf_node (Suc d) (siblings x n new del t)"
proof -
  obtain ext where ext: "extended (open_node t) = Some ext"
    using extended_open_node by blast
  note ch = open_children [OF assms ext]
  show ?thesis
    using ch ext by (auto simp: siblings_def Let_def list_all_iff intro!: wf_set_leaf)
qed

subsection \<open>A subnet update is an update of the rule map\<close>

text \<open>The paths whose rule a subnet of \<open>b\<close> bits sets: \<open>b\<close> bits rounded up to whole nibbles.\<close>

definition affected :: "nat \<Rightarrow> u32 list \<Rightarrow> nat list \<Rightarrow> bool" where
  "affected b ip p \<longleftrightarrow>
     length p = (b + 3) div 4 \<and> (\<forall>k < b div 4. p ! k = nib ip k) \<and>
     (b mod 4 \<noteq> 0 \<longrightarrow> p ! (b div 4) < 16 \<and>
        p ! (b div 4) div 2 ^ (4 - b mod 4) = nib ip (b div 4) div 2 ^ (4 - b mod 4))"

definition update_rules ::
  "nat \<Rightarrow> u32 list \<Rightarrow> State \<Rightarrow> bool \<Rightarrow> (nat list \<Rightarrow> State) \<Rightarrow> nat list \<Rightarrow> State" where
  "update_rules b ip new del r q =
     (if affected b ip (take ((b + 3) div 4) q)
      then (if length q = (b + 3) div 4 then new else if del then AsParent else r q)
      else r q)"

lemma and_3_int: "(b :: int) AND 3 = b mod 4"
  using take_bit_eq_mask [of 2 b] by (simp add: take_bit_eq_mod mask_eq_exp_minus_1)

lemma affected_whole:
  assumes "b = 4 * m"
  shows "affected b ip (take m q) \<longleftrightarrow> take m q = map (nib ip) [0..<m]"
  using assms by (auto simp: affected_def list_eq_iff_nth_eq)

lemma set_subnet_whole:
  assumes "wf_node (8 * length ip) node" and "m \<le> 8 * length ip"
  shows "\<exists>node'. set_subnet node ip (int (length ip)) (int (4 * m)) new del = Some (node', Success) \<and>
    wf_node (8 * length ip) node' \<and> rule_at node' = update_rules (4 * m) ip new del (rule_at node)"
proof -
  let ?p = "map (nib ip) [0..<m]" and ?d = "8 * length ip - m"
  let ?node' = "modify_at ?p (set_leaf new del) node"
  have wf: "wf_node (length ?p + ?d) node"
    using assms by simp
  have "set_subnet node ip (int (length ip)) (int (4 * m)) new del = Some (?node', Success)"
    using assms descend_modify [of m ?d node 0 ip True 0
        "\<lambda>_ _ leaf. Some (set_leaf new del leaf)" "set_leaf new del"]
    by (simp add: set_subnet_def and_3_int del: mult_Suc)
  moreover have "wf_node (8 * length ip) ?node'"
    using wf_modify_at [OF wf, of "set_leaf new del"] assms(2) by (simp add: wf_set_leaf)
  moreover have "rule_at ?node' q = update_rules (4 * m) ip new del (rule_at node) q" for q
  proof (cases "take m q = ?p")
    case True
    then have "rule_at (subtree ?p node) (drop m q) = rule_at node q"
      using rule_at_subtree [OF wf] by (metis append_take_drop_id nib_less length_map imageE set_map)
    moreover have "drop m q = [] \<longleftrightarrow> length q = m"
      using True by (metis diff_is_0_eq drop_eq_Nil2 le_antisym length_drop length_map length_take
          length_upt min.absorb_iff2 minus_nat.diff_0)
    moreover have "affected (4 * m) ip ?p"
      using affected_whole [OF refl, of m ip ?p] by simp
    ultimately show ?thesis
      using True rule_at_modify_at [OF wf, of "set_leaf new del" q]
      by (simp add: update_rules_def rule_at_set_leaf)
  next
    case False
    then show ?thesis
      using rule_at_modify_at [OF wf, of "set_leaf new del" q]
      by (simp add: update_rules_def affected_whole)
  qed
  ultimately show ?thesis
    by (auto simp: fun_eq_iff)
qed

lemma affected_part:
  assumes "b = 4 * m + r" and "r \<in> {1, 2, 3}"
  shows "affected b ip (take (Suc m) q) \<longleftrightarrow>
    take m q = map (nib ip) [0..<m] \<and> drop m q \<noteq> [] \<and> hd (drop m q) < 16 \<and>
    hd (drop m q) div 2 ^ (4 - r) = nib ip m div 2 ^ (4 - r)"
proof -
  have b: "b div 4 = m" "b mod 4 = r" "(b + 3) div 4 = Suc m"
    using assms by auto
  show ?thesis
    using assms(2) by (auto simp: affected_def b list_eq_iff_nth_eq hd_drop_conv_nth)
qed

lemma set_subnet_part:
  assumes "wf_node (8 * length ip) node" and "m < 8 * length ip" and "r \<in> {1, 2, 3}"
  shows "\<exists>node'. set_subnet node ip (int (length ip)) (int (4 * m + r)) new del = Some (node', Success) \<and>
    wf_node (8 * length ip) node' \<and> rule_at node' = update_rules (4 * m + r) ip new del (rule_at node)"
proof -
  let ?p = "map (nib ip) [0..<m]" and ?d = "8 * length ip - Suc m"
  let ?f = "siblings (nib ip m) (2 ^ (4 - r)) new del"
  let ?node' = "modify_at ?p ?f node"
  have lp: "length ?p = m"
    by simp
  have eq: "m + Suc ?d = 8 * length ip"
    using assms(2) by (simp add: Suc_diff_Suc)
  have wf: "wf_node (length ?p + Suc ?d) node"
    using assms(1) unfolding lp eq .
  have bits: "int (4 * m + r) mod 4 \<noteq> 0" "int (4 * m + r) \<le> 32 * int (length ip)"
    using assms(2,3) by auto
  have fin: "set_siblings ip new del (int r) (4 * (0 + m)) t = Some (?f t)" if "wf_node (Suc ?d) t" for t
    using set_siblings_eq [OF that assms(2,3)] by simp
  have "descend False ip (4 * int m + int r) (4 * 0) (set_siblings ip new del) node =
      Some (modify_at (map (nib ip) [0..<0 + m]) ?f node)"
    using assms(2,3) by (intro descend_modify [OF wf [unfolded lp]] fin) auto
  then have "set_subnet node ip (int (length ip)) (int (4 * m + r)) new del = Some (?node', Success)"
    using bits by (simp add: set_subnet_def and_3_int split del: if_split)
  moreover have "wf_node (8 * length ip) ?node'"
    using wf_modify_at [OF wf, of ?f, unfolded lp eq] by (simp add: wf_siblings)
  moreover have "rule_at ?node' q = update_rules (4 * m + r) ip new del (rule_at node) q" for q
  proof (cases "take m q = ?p")
    case True
    have dvd: "(2::nat) ^ (4 - r) dvd 16"
      using assms(3) by auto
    have sub: "wf_node (Suc ?d) (subtree ?p node)"
      using wf_subtree [OF wf] by simp
    have old: "rule_at (subtree ?p node) (drop m q) = rule_at node q"
      using True rule_at_subtree [OF wf] by (metis append_take_drop_id nib_less length_map imageE set_map)
    have "m \<le> length q"
      using True by (metis length_map length_take length_upt min.absorb_iff2 minus_nat.diff_0)
    then have "tl (drop m q) = [] \<longleftrightarrow> length q \<le> Suc m"
      by (simp add: tl_drop drop_Suc flip: drop_Suc)
    moreover have "(4 * m + r + 3) div 4 = Suc m"
      using assms(3) by auto
    ultimately show ?thesis
      using True assms(3) old rule_at_modify_at [OF wf, of ?f q] rule_at_siblings [OF sub nib_less dvd]
      by (auto simp: update_rules_def affected_part [OF refl])
  next
    case False
    moreover have "(4 * m + r + 3) div 4 = Suc m"
      using assms(3) by auto
    ultimately show ?thesis
      using assms(3) rule_at_modify_at [OF wf, of ?f q]
      by (simp add: update_rules_def affected_part [OF refl])
  qed
  ultimately show ?thesis
    by (auto simp: fun_eq_iff)
qed

text \<open>Both branches of \<open>set_subnet\<close>: it never panics, keeps the invariant and updates the rule map.\<close>

lemma set_subnet_refines:
  assumes "wf_node (8 * length ip) node" and "0 \<le> b" and "b \<le> 32 * int (length ip)"
  shows "\<exists>node'. set_subnet node ip (int (length ip)) b new del = Some (node', Success) \<and>
    wf_node (8 * length ip) node' \<and> rule_at node' = update_rules (nat b) ip new del (rule_at node)"
proof -
  define m r where "m = nat b div 4" and "r = nat b mod 4"
  have b: "nat b = 4 * m + r" "b = int (4 * m + r)"
    using assms(2) by (auto simp: m_def r_def)
  show ?thesis
  proof (cases "r = 0")
    case True
    then show ?thesis
      using set_subnet_whole [OF assms(1), of m new del] assms(3) b by simp
  next
    case False
    then have "r \<in> {1, 2, 3}"
      by (auto simp: r_def)
    moreover have "m < 8 * length ip"
      using assms(3) b False by simp
    ultimately show ?thesis
      using set_subnet_part [OF assms(1)] b by metis
  qed
qed

lemma set_subnet_bad:
  "b < 0 \<or> b > 32 * n \<Longrightarrow> set_subnet node ip n b new del = Some (node, BadSubnet)"
  by (auto simp: set_subnet_def)

subsection \<open>A lookup takes the most specific rule\<close>

lemma most_specific_Cons:
  "most_specific r (n # ns) s = most_specific (\<lambda>p. r (n # p)) ns (eff (r []) s)"
proof -
  have "[0..<Suc (length (n # ns))] = 0 # map Suc [0..<Suc (length ns)]"
    by (simp add: map_Suc_upt upt_conv_Cons del: upt_Suc)
  then show ?thesis
    by (simp add: most_specific_def foldl_map del: upt_Suc)
qed

lemma most_specific_Nil [simp]: "most_specific r [] s = eff (r []) s"
  by (simp add: most_specific_def)

lemma most_specific_none [simp]: "most_specific (\<lambda>_. AsParent) ns s = s"
  by (induction ns) (auto simp: most_specific_Cons)

lemma most_specific_cong:
  "(\<And>k. k \<le> length ns \<Longrightarrow> r (take k ns) = r' (take k ns)) \<Longrightarrow> most_specific r ns s = most_specific r' ns s"
  unfolding most_specific_def by (rule foldl_cong) (auto simp: less_Suc_eq_le simp del: upt_Suc)

lemma most_specific_decided:
  assumes "m \<le> length ns" and "r (take m ns) = new" and "new \<noteq> AsParent"
    and "\<And>k. m < k \<Longrightarrow> k \<le> length ns \<Longrightarrow> r (take k ns) = AsParent"
  shows "most_specific r ns s = new"
proof -
  have split: "[0..<Suc (length ns)] = [0..<m] @ m # [Suc m..<Suc (length ns)]"
    using assms(1) upt_add_eq_append [of 0 m "Suc (length ns) - m"] upt_conv_Cons [of m "Suc (length ns)"]
    by simp
  have "foldl (\<lambda>acc k. eff (r (take k ns)) acc) t [Suc m..<Suc (length ns)] =
      foldl (\<lambda>acc k. acc) t [Suc m..<Suc (length ns)]" for t
    using assms(4) by (intro foldl_cong) (auto simp: less_Suc_eq_le Suc_le_eq simp del: upt_Suc)
  moreover have "foldl (\<lambda>acc k. acc) t xs = t" for t and xs :: "nat list"
    by (induction xs) auto
  ultimately show ?thesis
    using assms(2,3) by (simp add: most_specific_def split eff_def del: upt_Suc)
qed

lemma rule_at_leaf: "extended node = None \<Longrightarrow> rule_at node (n # ns) = AsParent"
  by (cases node) simp

lemma rule_at_Nil: "rule_at node [] = state node"
  by (cases node) simp

lemma most_specific_leaf:
  "extended node = None \<Longrightarrow> most_specific (rule_at node) ns s = eff (state node) s"
  by (cases ns) (auto simp: most_specific_Cons rule_at_leaf rule_at_Nil)

lemma check_ip_loop_spec:
  assumes "wf_node d node" and "k + d = 8 * length ip"
  shows "check_ip_loop node ip (4 * k) s =
    Some (most_specific (rule_at node) (map (nib ip) [k..<8 * length ip]) s)"
  using assms
proof (induction d arbitrary: node k s)
  case 0
  then have "extended node = None"
    by (simp add: wf_node_iff split: option.splits)
  then show ?case
    by (simp add: check_ip_loop.simps [of node] most_specific_leaf)
next
  case (Suc d)
  show ?case
  proof (cases "extended node")
    case None
    then show ?thesis
      by (simp add: check_ip_loop.simps [of node] most_specific_leaf)
  next
    case (Some ext)
    then have op: "extended (open_node node) = Some ext"
      by (simp add: open_node_def)
    note ch = open_children [OF Suc.prems(1) op]
    have wf: "wf_node d (ext ! nib ip k)" and pos: "Suc k + d = 8 * length ip" and k: "k < 8 * length ip"
      using ch Suc.prems(2) by auto
    let ?ns = "map (nib ip) [Suc k..<8 * length ip]" and ?s = "eff (state node) s"
    have "check_ip_loop node ip (4 * k) s = check_ip_loop (ext ! nib ip k) ip (4 * Suc k) ?s"
      using Some ch(1) by (subst check_ip_loop.simps) (simp add: get_subnet_nib [OF k] index_Some add.commute)
    also have "\<dots> = Some (most_specific (rule_at (ext ! nib ip k)) ?ns ?s)"
      by (rule Suc.IH [OF wf pos])
    also have "most_specific (rule_at (ext ! nib ip k)) ?ns ?s = most_specific (rule_at node) (nib ip k # ?ns) s"
      using rule_at_Cons [OF op] ch(1) by (simp add: most_specific_Cons rule_at_Nil)
    also have "nib ip k # ?ns = map (nib ip) [k..<8 * length ip]"
      using k by (simp add: upt_conv_Cons)
    finally show ?thesis .
  qed
qed

lemma check_ip_spec:
  "wf_node (8 * length ip) node \<Longrightarrow>
     check_ip node ip = Some (most_specific (rule_at node) (nibbles ip) Deny = Allow)"
  using check_ip_loop_spec [of "8 * length ip" node 0 ip] by (simp add: check_ip_def nibbles_def)

subsection \<open>Paths and address bits\<close>

lemma bit_addr_val:
  "bit (addr_val ip) j \<longleftrightarrow> j < 32 * length ip \<and> bit (ip ! (length ip - 1 - j div 32)) (j mod 32)"
proof -
  have "\<forall>d\<in>set (map unat ip). d < 2 ^ 32"
    using unsigned_less [where 'b = 32] by fastforce
  from bit_horner [OF _ this, of j] show ?thesis
    by (cases "j < 32 * length ip") (auto simp: addr_val_def bit_simps less_mult_imp_div_less)
qed

lemma bit_nib:
  assumes "k < 8 * length ip" and "i < 4"
  shows "bit (nib ip k) i \<longleftrightarrow> bit (addr_val ip) (4 * (8 * length ip - 1 - k) + i)"
proof -
  define q p where "q = k div 8" and "p = k mod 8"
  have k: "k = 8 * q + p" "p < 8" "q < length ip"
    using assms(1) by (auto simp: q_def p_def)
  then have "4 * (8 * length ip - 1 - k) + i = 32 * (length ip - 1 - q) + (28 - 4 * p + i)"
    by (auto simp: algebra_simps)
  moreover have "28 - 4 * p + i < 32"
    using assms(2) by simp
  moreover have "(32 * a + c) div 32 = a \<and> (32 * a + c) mod 32 = c \<and> 32 * a + c < 32 * n"
    if "a < n" "c < 32" for a c n :: nat
    using that by auto
  moreover have "length ip - 1 - q < length ip"
    using k(3) by simp
  ultimately have "(4 * (8 * length ip - 1 - k) + i) div 32 = length ip - 1 - q"
    and "(4 * (8 * length ip - 1 - k) + i) mod 32 = 28 - 4 * p + i"
    and "4 * (8 * length ip - 1 - k) + i < 32 * length ip"
    by metis+
  moreover have "bit (15 :: u32) i"
    using assms(2) by (auto simp: less_Suc_eq numeral_eq_Suc)
  ultimately show ?thesis
    using k(3) by (simp add: bit_addr_val nib_def bit_simps flip: q_def p_def)
qed

lemma nib_high: "4 \<le> i \<Longrightarrow> \<not> bit (nib ip k) i"
proof -
  assume "4 \<le> i"
  then have "(16 :: nat) \<le> 2 ^ i"
    using power_increasing [of 4 i "2 :: nat"] by simp
  then have "nib ip k < 2 ^ i"
    using nib_less [of ip k] by linarith
  then show "\<not> bit (nib ip k) i"
    by (simp add: bit_iff_odd)
qed

text \<open>Comparing nibbles from bit \<open>s\<close> up compares the corresponding address bits.\<close>

lemma nib_drop_eq_iff:
  assumes "k < 8 * length ip" and "length x = length ip"
  shows "drop_bit s (nib x k) = drop_bit s (nib ip k) \<longleftrightarrow>
    (\<forall>i. s \<le> i \<and> i < 4 \<longrightarrow> bit (addr_val x) (4 * (8 * length ip - 1 - k) + i) =
                         bit (addr_val ip) (4 * (8 * length ip - 1 - k) + i))"
proof -
  have "drop_bit s (nib x k) = drop_bit s (nib ip k) \<longleftrightarrow> (\<forall>i\<ge>s. bit (nib x k) i = bit (nib ip k) i)"
    by (rule drop_bit_eq_iff_bits)
  also have "\<dots> \<longleftrightarrow> (\<forall>i. s \<le> i \<and> i < 4 \<longrightarrow> bit (nib x k) i = bit (nib ip k) i)"
    using nib_high [of _ x k] nib_high [of _ ip k] not_le_imp_less by blast
  finally show ?thesis
    using assms by (simp add: bit_nib)
qed

lemma same_prefix_iff:
  assumes "length x = length ip"
  shows "same_prefix b ip x \<longleftrightarrow>
    (\<forall>j. 32 * length ip - b \<le> j \<and> j < 32 * length ip \<longrightarrow> bit (addr_val x) j = bit (addr_val ip) j)"
proof -
  have "same_prefix b ip x \<longleftrightarrow> (\<forall>j\<ge>32 * length ip - b. bit (addr_val ip) j = bit (addr_val x) j)"
    by (simp add: same_prefix_def drop_bit_eq_iff_bits)
  then show ?thesis
    using assms by (auto simp: bit_addr_val)
qed

lemma affected_iff_same_prefix:
  assumes "length x = length ip" and "b \<le> 32 * length ip"
  shows "affected b ip (take ((b + 3) div 4) (nibbles x)) \<longleftrightarrow> same_prefix b ip x"
proof -
  define m r where "m = b div 4" and "r = b mod 4"
  let ?L = "8 * length ip"
  let ?same = "\<lambda>j. bit (addr_val x) j = bit (addr_val ip) j"
  have b: "b = 4 * m + r" "r < 4"
    by (auto simp: m_def r_def)
  have mL: "m \<le> ?L" "r \<noteq> 0 \<Longrightarrow> m < ?L"
    using assms(2) b by linarith+
  have len: "(b + 3) div 4 \<le> ?L"
    using assms(2) by simp
  have "affected b ip (take ((b + 3) div 4) (nibbles x)) \<longleftrightarrow>
      (\<forall>k<m. drop_bit 0 (nib x k) = drop_bit 0 (nib ip k)) \<and>
      (r \<noteq> 0 \<longrightarrow> drop_bit (4 - r) (nib x m) = drop_bit (4 - r) (nib ip m))"
    using len assms(1) mL by (auto simp: affected_def nibbles_def b drop_bit_eq_div)
  also have "\<dots> \<longleftrightarrow> (\<forall>k<m. \<forall>i<4. ?same (4 * (?L - 1 - k) + i)) \<and>
      (r \<noteq> 0 \<longrightarrow> (\<forall>i. 4 - r \<le> i \<and> i < 4 \<longrightarrow> ?same (4 * (?L - 1 - m) + i)))"
    using mL by (simp add: nib_drop_eq_iff [OF _ assms(1)] del: drop_bit_0)
  also have "\<dots> \<longleftrightarrow> (\<forall>j. 4 * ?L - b \<le> j \<and> j < 4 * ?L \<longrightarrow> ?same j)" (is "?nibs \<longleftrightarrow> ?bits")
  proof
    assume nibs: ?nibs
    show ?bits
    proof (intro allI impI)
      fix j
      assume j: "4 * ?L - b \<le> j \<and> j < 4 * ?L"
      define k i where "k = ?L - 1 - j div 4" and "i = j mod 4"
      have eq: "j = 4 * (?L - 1 - k) + i" and "i < 4"
        using j by (auto simp: k_def i_def)
      show "?same j"
      proof (cases "k < m")
        case True
        then show ?thesis using nibs \<open>i < 4\<close> eq by blast
      next
        case False
        moreover have "k \<le> ?L - 1"
          by (simp add: k_def)
        ultimately have "k = m" and "4 - r \<le> i" and "r \<noteq> 0"
          using j eq b \<open>i < 4\<close> by linarith+
        then show ?thesis using nibs \<open>i < 4\<close> eq by blast
      qed
    qed
  next
    assume bits: ?bits
    have "?same (4 * (?L - 1 - k) + i)" if "k < m" "i < 4" for k i
    proof -
      have "4 * ?L - b \<le> 4 * (?L - 1 - k) + i \<and> 4 * (?L - 1 - k) + i < 4 * ?L"
        using that b mL by linarith
      with bits show ?thesis by blast
    qed
    moreover have "?same (4 * (?L - 1 - m) + i)" if "r \<noteq> 0" "4 - r \<le> i" "i < 4" for i
    proof -
      have "4 * ?L - b \<le> 4 * (?L - 1 - m) + i \<and> 4 * (?L - 1 - m) + i < 4 * ?L"
        using that b mL(2) by linarith
      with bits show ?thesis by blast
    qed
    ultimately show ?nibs by blast
  qed
  finally show ?thesis
    using same_prefix_iff [OF assms(1), of b] by simp
qed

text \<open>The word lists of the two families are the addresses.\<close>

lemma addr_val_V4 [simp]: "addr_val [a] = unat a"
  by (simp add: addr_val_def horner_def)

lemma length_split_ip6 [simp]: "length (split_ip6 ip) = 4"
  by (simp add: split_ip6_def Let_def)

lemma split_ip6_nth:
  assumes "i < 4"
  shows "split_ip6 ip ! i = ucast (drop_bit (96 - 32 * i) ip)"
proof -
  let ?v = "ucast (drop_bit (96 - 32 * i) ip) :: u32"
  have b: "be_bytes 16 ip ! (i * 4 + k) = be_bytes 4 (drop_bit (96 - 32 * i) ip) ! k" if "k < 4" for k
  proof -
    have "8 * (15 - (i * 4 + k)) = 8 * (3 - k) + (96 - 32 * i)" and "i * 4 + k < 16"
      using that assms by linarith+
    then show ?thesis
      using that by (simp add: be_bytes_nth)
  qed
  have "split_ip6 ip ! i = be_word (map ((!) (be_bytes 4 (drop_bit (96 - 32 * i) ip))) [0, 1, 2, 3])"
    using assms b [of 0] b [of 1] b [of 2] b [of 3] by (simp add: split_ip6_def Let_def)
  also have "map ((!) (be_bytes 4 (drop_bit (96 - 32 * i) ip))) [0, 1, 2, 3] =
      be_bytes 4 (drop_bit (96 - 32 * i) ip)"
    by (simp add: list_eq_iff_nth_eq less_Suc_eq numeral_eq_Suc)
  also have "\<dots> = be_bytes 4 ?v"
    by (simp add: be_bytes_ucast)
  also have "be_word \<dots> = ?v"
    by simp
  finally show ?thesis .
qed

lemma addr_val_V6 [simp]: "addr_val (split_ip6 a) = unat a"
proof (rule bit_eqI)
  fix j
  show "bit (addr_val (split_ip6 a)) j \<longleftrightarrow> bit (unat a) j"
  proof (cases "j < 128")
    case True
    then have "j div 32 < 4" by auto
    then have "96 - 32 * (3 - j div 32) + j mod 32 = j"
      using div_mult_mod_eq [of j 32] by linarith
    with True show ?thesis
      by (simp add: bit_addr_val split_ip6_nth bit_simps)
  next
    case False
    then show ?thesis
      by (auto simp: bit_addr_val bit_simps dest: bit_imp_le_length)
  qed
qed

lemma same_prefix_V4: "same_prefix b [a] [x] \<longleftrightarrow> drop_bit (32 - b) x = drop_bit (32 - b) a"
  by (auto simp: same_prefix_def word_unat_eq_iff unat_drop_bit_eq)

lemma same_prefix_V6:
  "same_prefix b (split_ip6 a) (split_ip6 x) \<longleftrightarrow> drop_bit (128 - b) x = drop_bit (128 - b) a"
  by (auto simp: same_prefix_def word_unat_eq_iff unat_drop_bit_eq)

section \<open>The table operations on addresses\<close>

text \<open>What a lookup sees of an updated rule map.\<close>

lemma lookup_update_rules:
  assumes "length x = length ip" and "b \<le> 32 * length ip" and "new \<noteq> AsParent"
  shows "\<not> same_prefix b ip x \<Longrightarrow>
      most_specific (update_rules b ip new del r) (nibbles x) s = most_specific r (nibbles x) s"
    and "same_prefix b ip x \<Longrightarrow>
      most_specific (update_rules b ip new True r) (nibbles x) s = new"
proof -
  let ?m = "(b + 3) div 4"
  have m: "?m \<le> length (nibbles x)" "length (nibbles x) = 8 * length ip"
    using assms(1,2) by (auto simp: nibbles_def)
  have aff: "affected b ip (take ?m (take k (nibbles x))) \<longleftrightarrow> ?m \<le> k \<and> same_prefix b ip x"
    if "k \<le> length (nibbles x)" for k
  proof (cases "?m \<le> k")
    case True
    then show ?thesis
      using affected_iff_same_prefix [OF assms(1,2)] by (simp add: min_def)
  next
    case False
    then show ?thesis
      by (simp add: affected_def)
  qed
  show "most_specific (update_rules b ip new del r) (nibbles x) s = most_specific r (nibbles x) s"
    if "\<not> same_prefix b ip x"
    using that aff by (intro most_specific_cong) (auto simp: update_rules_def)
  show "most_specific (update_rules b ip new True r) (nibbles x) s = new" if "same_prefix b ip x"
    using that aff m assms(3) affected_iff_same_prefix [OF assms(1,2)]
    by (intro most_specific_decided [of ?m]) (auto simp: update_rules_def min_def)
qed

lemma wf_new_table [simp]: "wf_table new_table"
  by (simp add: wf_table_def new_table_def)

lemma wf_base4: "wf_table t \<Longrightarrow> wf_node (8 * length [a]) (base4 t)"
  and wf_base6: "wf_table t \<Longrightarrow> wf_node (8 * length (split_ip6 a')) (base6 t)"
  by (simp_all add: wf_table_def)

lemmas set_base4 = set_subnet_refines [OF wf_base4, simplified]
lemmas set_base6 = set_subnet_refines [OF wf_base6, simplified]

text \<open>
  One step of the table, as a refinement: it never panics, succeeds exactly for a valid width,
  leaves the table alone otherwise, and updates the rule map of each family it applies to.
\<close>

lemma set_family_refines:
  assumes "wf_table t"
  shows "\<exists>t' st. set_subnet_family t s b new del = Some (t', st) \<and> wf_table t' \<and>
    (st = Success \<longleftrightarrow> valid_width s b) \<and> (st = BadSubnet \<longrightarrow> t' = t) \<and>
    (st = Success \<longrightarrow>
       rule_at (base4 t') = (case s of V4 a \<Rightarrow> update_rules (nat b) [a] new del (rule_at (base4 t))
          | V6 a \<Rightarrow> rule_at (base4 t) | Unspec \<Rightarrow> update_rules 0 [0] new del (rule_at (base4 t))) \<and>
       rule_at (base6 t') = (case s of V4 a \<Rightarrow> rule_at (base6 t)
          | V6 a \<Rightarrow> update_rules (nat b) (split_ip6 a) new del (rule_at (base6 t))
          | Unspec \<Rightarrow> update_rules 0 (split_ip6 0) new del (rule_at (base6 t))))"
proof (cases s)
  case (V4 a)
  show ?thesis
  proof (cases "valid_width s b")
    case True
    then show ?thesis
      using V4 assms set_base4 [OF assms, of b a new del] by (auto simp: wf_table_def)
  next
    case False
    then show ?thesis
      using V4 assms set_subnet_bad [of b 1 "base4 t" "[a]" new del] by auto
  qed
next
  case (V6 a)
  show ?thesis
  proof (cases "valid_width s b")
    case True
    then show ?thesis
      using V6 assms set_base6 [OF assms, of b a new del] by (auto simp: wf_table_def)
  next
    case False
    then show ?thesis
      using V6 assms set_subnet_bad [of b 4 "base6 t" "split_ip6 a" new del] by auto
  qed
next
  case Unspec
  have z: "split_ip6 0 = [0, 0, 0, 0]"
    by (simp add: list_eq_iff_nth_eq split_ip6_nth nth_Cons split: nat.split)
  show ?thesis
    using Unspec assms set_base4 [OF assms, of 0 0 new del] set_base6 [OF assms, of 0 0 new del]
    by (cases "b = 0") (auto simp: wf_table_def z)
qed

text \<open>The rule map and the path of a lookup, by address family.\<close>

fun rules_for :: "AuthTable \<Rightarrow> IpAddr \<Rightarrow> nat list \<Rightarrow> State" where
  "rules_for t (IpV4 x) = rule_at (base4 t)"
| "rules_for t (IpV6 x) = rule_at (base6 t)"

fun path_of :: "IpAddr \<Rightarrow> nat list" where
  "path_of (IpV4 x) = nibbles [x]"
| "path_of (IpV6 x) = nibbles (split_ip6 x)"

lemma is_allowed_eq:
  "wf_table t \<Longrightarrow> is_allowed t x = Some (most_specific (rules_for t x) (path_of x) Deny = Allow)"
  using check_ip_spec [OF wf_base4] check_ip_spec [OF wf_base6] by (cases x) auto

lemma set_family_outside:
  assumes "wf_table t" and "set_subnet_family t s b new del = Some (t', Success)"
    and "new \<noteq> AsParent" and "\<not> in_subnet s b x"
  shows "is_allowed t' x = is_allowed t x"
proof -
  have wf': "wf_table t'" and val: "valid_width s b"
    using set_family_refines [OF assms(1), of s b new del] assms(2) by auto
  have "most_specific (rules_for t' x) (path_of x) Deny = most_specific (rules_for t x) (path_of x) Deny"
    using set_family_refines [OF assms(1), of s b new del] assms(2-4) val
    by (cases s; cases x)
      (auto simp: lookup_update_rules(1) same_prefix_V4 same_prefix_V6)
  then show ?thesis
    using wf' assms(1) by (simp add: is_allowed_eq)
qed

lemma set_family_all_inside:
  assumes "wf_table t" and "set_subnet_family t s b new True = Some (t', Success)"
    and "new \<noteq> AsParent" and "in_subnet s b x"
  shows "is_allowed t' x = Some (new = Allow)"
proof -
  have wf': "wf_table t'" and val: "valid_width s b"
    using set_family_refines [OF assms(1), of s b new True] assms(2) by auto
  have "same_prefix 0 ip ip'" if "length ip = length ip'" for ip ip'
    using that by (auto simp: same_prefix_iff)
  then have "most_specific (rules_for t' x) (path_of x) Deny = new"
    using set_family_refines [OF assms(1), of s b new True] assms(2-4) val
    by (cases s; cases x)
      (auto simp: lookup_update_rules(2) same_prefix_V4 same_prefix_V6)
  then show ?thesis
    using wf' by (simp add: is_allowed_eq)
qed

section \<open>The interface of an access table\<close>

locale access_table =
  fixes wf :: "'t \<Rightarrow> bool"
    and set_rule :: "'t \<Rightarrow> Subnet \<Rightarrow> int \<Rightarrow> State \<Rightarrow> bool \<Rightarrow> ('t \<times> AdfStatus) run"
    and allowed :: "'t \<Rightarrow> IpAddr \<Rightarrow> bool run"
  assumes set_total: "wf t \<Longrightarrow> \<exists>t' st. set_rule t s b new del = Some (t', st)"
    and set_wf: "wf t \<Longrightarrow> set_rule t s b new del = Some (t', st) \<Longrightarrow> wf t'"
    and set_status: "wf t \<Longrightarrow> set_rule t s b new del = Some (t', st) \<Longrightarrow> st = Success \<longleftrightarrow> valid_width s b"
    and set_bad: "wf t \<Longrightarrow> set_rule t s b new del = Some (t', BadSubnet) \<Longrightarrow> t' = t"
    and allowed_total: "wf t \<Longrightarrow> \<exists>r. allowed t x = Some r"
    and set_outside: "wf t \<Longrightarrow> set_rule t s b new del = Some (t', Success) \<Longrightarrow> new \<noteq> AsParent \<Longrightarrow>
      \<not> in_subnet s b x \<Longrightarrow> allowed t' x = allowed t x"
    and set_all_inside: "wf t \<Longrightarrow> set_rule t s b new True = Some (t', Success) \<Longrightarrow> new \<noteq> AsParent \<Longrightarrow>
      in_subnet s b x \<Longrightarrow> allowed t' x = Some (new = Allow)"
begin

text \<open>An \<open>all\<close> rule decides its subnet and nothing else.\<close>

lemma set_all_decides:
  assumes "wf t" and "valid_width s b" and "new \<noteq> AsParent"
  shows "\<exists>t'. set_rule t s b new True = Some (t', Success) \<and> wf t' \<and>
    (\<forall>x. allowed t' x = (if in_subnet s b x then Some (new = Allow) else allowed t x))"
  using assms set_total [OF assms(1), of s b new True] set_wf set_status set_outside set_all_inside
  by (metis (full_types))

text \<open>A rule of invalid width changes nothing.\<close>

lemma set_invalid:
  assumes "wf t" and "\<not> valid_width s b"
  shows "set_rule t s b new del = Some (t, BadSubnet)"
  using assms set_total [OF assms(1), of s b new del] set_status set_bad
  by (metis (full_types) AdfStatus.exhaust)

lemma set_elsewhere:
  assumes "wf t" and "set_rule t s b new del = Some (t', st)" and "new \<noteq> AsParent"
    and "valid_width s b \<Longrightarrow> \<not> in_subnet s b x"
  shows "allowed t' x = allowed t x"
  using assms set_status set_bad set_outside by (metis (full_types) AdfStatus.exhaust)

end

interpretation adf: access_table wf_table set_subnet_family is_allowed
proof unfold_locales
  fix t s b new del t' st x
  assume wf: "wf_table t"
  note ref = set_family_refines [OF wf, of s b new del]
  show "\<exists>t' st. set_subnet_family t s b new del = Some (t', st)"
    using ref by blast
  show "\<exists>r. is_allowed t x = Some r"
    using wf by (simp add: is_allowed_eq)
  assume "set_subnet_family t s b new del = Some (t', st)"
  then show "wf_table t'" and "st = Success \<longleftrightarrow> valid_width s b"
    using ref by auto
next
  show "t' = t" if "wf_table t" "set_subnet_family t s b new del = Some (t', BadSubnet)" for t s b new del t'
    using set_family_refines [OF that(1), of s b new del] that(2) by auto
qed (fact set_family_outside set_family_all_inside)+

section \<open>Any address allowed\<close>

lemma any_allowed_path:
  assumes "wf_node d node"
  shows "any_allowed node s \<longleftrightarrow>
    (\<exists>ns. length ns = d \<and> (\<forall>n\<in>set ns. n < 16) \<and> most_specific (rule_at node) ns s = Allow)"
  using assms
proof (induction d arbitrary: node s)
  case 0
  then have "extended node = None"
    by (simp add: wf_node_iff split: option.splits)
  then show ?case
    by (simp add: any_allowed.simps [of node] rule_at_Nil)
next
  case (Suc d)
  show ?case
  proof (cases "extended node")
    case None
    have "\<exists>ns. length ns = Suc d \<and> (\<forall>n\<in>set ns. n < (16::nat))"
      by (rule exI [of _ "replicate (Suc d) 0"]) auto
    then show ?thesis
      using None by (auto simp: any_allowed.simps [of node] most_specific_leaf)
  next
    case (Some ext)
    then have op: "extended (open_node node) = Some ext"
      by (simp add: open_node_def)
    note ch = open_children [OF Suc.prems op]
    let ?s = "eff (state node) s"
    have "any_allowed node s \<longleftrightarrow> (\<exists>n<16. any_allowed (ext ! n) ?s)"
      using Some ch(1) by (auto simp: any_allowed.simps [of node] list_ex_length)
    also have "\<dots> \<longleftrightarrow> (\<exists>n<16. \<exists>ns. length ns = d \<and> (\<forall>n\<in>set ns. n < 16) \<and>
        most_specific (rule_at (ext ! n)) ns ?s = Allow)"
      using ch by (intro ex_cong1 conj_cong refl Suc.IH) simp
    also have "\<dots> \<longleftrightarrow> (\<exists>n<16. \<exists>ns. length ns = d \<and> (\<forall>n\<in>set ns. n < 16) \<and>
        most_specific (rule_at node) (n # ns) s = Allow)"
    proof -
      have "most_specific (rule_at node) (n # ns) s = most_specific (rule_at (ext ! n)) ns ?s"
        if "n < 16" for n ns
        using rule_at_Cons [OF op] ch(1) that by (simp add: most_specific_Cons rule_at_Nil)
      then show ?thesis
        by (intro ex_cong1 conj_cong refl) simp
    qed
    also have "\<dots> \<longleftrightarrow> (\<exists>ns. length ns = Suc d \<and> (\<forall>n\<in>set ns. n < 16) \<and>
        most_specific (rule_at node) ns s = Allow)" (is "?l \<longleftrightarrow> ?r")
    proof
      assume ?l
      then obtain n ns where "n < 16" "length ns = d" "\<forall>n\<in>set ns. n < 16"
        "most_specific (rule_at node) (n # ns) s = Allow"
        by blast
      then show ?r
        by (intro exI [of _ "n # ns"]) simp
    next
      assume ?r
      then obtain ns where ns: "length ns = Suc d" "\<forall>n\<in>set ns. n < 16"
        "most_specific (rule_at node) ns s = Allow"
        by blast
      then obtain m ms where "ns = m # ms"
        by (cases ns) auto
      with ns show ?l
        by (intro exI [of _ m] conjI exI [of _ ms]) auto
    qed
    finally show ?thesis .
  qed
qed

text \<open>Every path of nibbles is the path of an address.\<close>

lemma nibbles_of_value:
  assumes "length ns = 8 * length ip" and "\<forall>n\<in>set ns. n < 16" and "addr_val ip = horner 4 ns"
  shows "nibbles ip = ns"
proof (rule nth_equalityI)
  show "length (nibbles ip) = length ns"
    using assms(1) by (simp add: nibbles_def)
  fix k
  assume "k < length (nibbles ip)"
  then have k: "k < 8 * length ip"
    by (simp add: nibbles_def)
  have digits: "\<forall>n\<in>set ns. n < 2 ^ 4"
    using assms(2) by simp
  have "bit (nib ip k) i = bit (ns ! k) i" for i
  proof (cases "i < 4")
    case True
    have "(4 * (8 * length ip - 1 - k) + i) div 4 = 8 * length ip - 1 - k"
      and "(4 * (8 * length ip - 1 - k) + i) mod 4 = i"
      using True by auto
    moreover have "4 * (8 * length ip - 1 - k) + i < 4 * (8 * length ip)"
      using True k by linarith
    moreover have "8 * length ip - 1 - (8 * length ip - 1 - k) = k"
      using k by linarith
    ultimately show ?thesis
      using bit_nib [OF k True] bit_horner [OF _ digits] assms(1,3) by simp
  next
    case False
    then show ?thesis
      using nib_high [of i ip k] bit_less_exp [of "ns ! k" 4 i] digits k assms(1) by simp
  qed
  then have "nib ip k = ns ! k"
    by (simp add: bit_eq_iff)
  then show "nibbles ip ! k = ns ! k"
    using k by (simp add: nibbles_def)
qed

lemma path_surj:
  assumes "\<forall>n\<in>set ns. n < 16"
  shows "length ns = 8 \<Longrightarrow> \<exists>x. path_of (IpV4 x) = ns" and "length ns = 32 \<Longrightarrow> \<exists>x. path_of (IpV6 x) = ns"
proof -
  have less: "horner 4 ns < 2 ^ (4 * length ns)"
    using horner_less [of 4 ns] assms by simp
  show "\<exists>x. path_of (IpV4 x) = ns" if "length ns = 8"
    using less that assms
    by (intro exI [of _ "of_nat (horner 4 ns)"]) (simp add: nibbles_of_value unat_of_nat)
  show "\<exists>x. path_of (IpV6 x) = ns" if "length ns = 32"
    using less that assms
    by (intro exI [of _ "of_nat (horner 4 ns)"]) (simp add: nibbles_of_value unat_of_nat)
qed

lemma path_digits: "n \<in> set (nibbles ip) \<Longrightarrow> n < 16"
  by (auto simp: nibbles_def)

lemma default_irrelevant: "most_specific r ns AsParent = Allow \<longleftrightarrow> most_specific r ns Deny = Allow"
proof -
  have "foldl (\<lambda>acc k. eff (r (take k ns)) acc) AsParent ks = Allow \<longleftrightarrow>
      foldl (\<lambda>acc k. eff (r (take k ns)) acc) Deny ks = Allow" for ks
    by (induction ks rule: rev_induct) (auto simp: eff_def)
  then show ?thesis
    unfolding most_specific_def by blast
qed

lemma any_allowed_addresses:
  assumes "wf_node d node" and "\<And>ns. length ns = d \<Longrightarrow> \<forall>n\<in>set ns. n < 16 \<Longrightarrow> \<exists>x. path x = ns"
    and "\<And>x. length (path x) = d" and "\<And>x. \<forall>n\<in>set (path x). n < 16"
  shows "any_allowed node AsParent \<longleftrightarrow> (\<exists>x. most_specific (rule_at node) (path x) Deny = Allow)"
  unfolding any_allowed_path [OF assms(1)] default_irrelevant using assms(2-4) by metis

lemma is_any_allowed_family:
  assumes "wf_table t"
  shows "is_any_allowed t False \<longleftrightarrow> (\<exists>x. is_allowed t (IpV4 x) = Some True)"
    and "is_any_allowed t True \<longleftrightarrow> (\<exists>x. is_allowed t (IpV6 x) = Some True)"
proof -
  have 4: "wf_node 8 (base4 t)" and 6: "wf_node 32 (base6 t)"
    using assms by (simp_all add: wf_table_def)
  have "any_allowed (base4 t) AsParent \<longleftrightarrow>
      (\<exists>x. most_specific (rule_at (base4 t)) (path_of (IpV4 x)) Deny = Allow)"
    using path_surj(1) by (intro any_allowed_addresses [OF 4]) (auto simp: nibbles_def)
  then show "is_any_allowed t False \<longleftrightarrow> (\<exists>x. is_allowed t (IpV4 x) = Some True)"
    by (simp add: is_any_allowed_def is_allowed_eq [OF assms] del: is_allowed.simps)
  have "any_allowed (base6 t) AsParent \<longleftrightarrow>
      (\<exists>x. most_specific (rule_at (base6 t)) (path_of (IpV6 x)) Deny = Allow)"
    using path_surj(2) by (intro any_allowed_addresses [OF 6]) (auto simp: nibbles_def)
  then show "is_any_allowed t True \<longleftrightarrow> (\<exists>x. is_allowed t (IpV6 x) = Some True)"
    by (simp add: is_any_allowed_def is_allowed_eq [OF assms] del: is_allowed.simps)
qed

section \<open>Properties\<close>

fun subnet_words :: "Subnet \<Rightarrow> IpAddr \<Rightarrow> u32 list option" where
  "subnet_words (V4 a) (IpV4 x) = Some [a]"
| "subnet_words (V6 a) (IpV6 x) = Some (split_ip6 a)"
| "subnet_words Unspec (IpV4 x) = Some [0]"
| "subnet_words Unspec (IpV6 x) = Some (split_ip6 0)"
| "subnet_words (V4 a) (IpV6 x) = None"
| "subnet_words (V6 a) (IpV4 x) = None"

text \<open>
  C1: an \<open>allow all\<close> or \<open>deny all\<close> rule of valid width succeeds without a panic, keeps the table
  well formed, and from then on decides exactly the addresses of its subnet, whatever rules were
  there before; every other address keeps its decision.
\<close>

theorem all_rules_decide_subnet:
  assumes "wf_table t" and "valid_width s b"
  shows "(\<exists>t'. allow_all t s b = Some (t', Success) \<and> wf_table t' \<and>
            (\<forall>x. is_allowed t' x = (if in_subnet s b x then Some True else is_allowed t x))) \<and>
         (\<exists>t'. deny_all t s b = Some (t', Success) \<and> wf_table t' \<and>
            (\<forall>x. is_allowed t' x = (if in_subnet s b x then Some False else is_allowed t x)))"
  using adf.set_all_decides [OF assms, of Allow] adf.set_all_decides [OF assms, of Deny]
  by (simp add: allow_all_def deny_all_def split del: if_split cong: if_cong)

theorem all_rules_decide_subnet_witness:
  "wf_table new_table \<and> valid_width (V4 0x0A000000) 8 \<and>
   (\<exists>t'. allow_all new_table (V4 0x0A000000) 8 = Some (t', Success) \<and>
      is_allowed t' (IpV4 0x0A010203) = Some True)"
proof -
  have "in_subnet (V4 0x0A000000) 8 (IpV4 0x0A010203)"
    by simp
  then show ?thesis
    using all_rules_decide_subnet [of new_table "V4 0x0A000000" 8]
    by (auto simp del: is_allowed.simps in_subnet.simps)
qed

text \<open>
  C2: the trie refines a map from nibble paths to rules. Every \<open>allow\<close>, \<open>deny\<close>, \<open>allow all\<close> and
  \<open>deny all\<close> of valid width is the pointwise map update \<open>update_rules\<close> on the families it applies
  to, and a lookup returns the most specific explicit rule on the address's path, \<open>Deny\<close> when
  there is none.
\<close>

theorem set_subnet_family_refines_rule_map:
  assumes "wf_table t" and "valid_width s b"
  shows "\<exists>t'. set_subnet_family t s b new del = Some (t', Success) \<and> wf_table t' \<and>
    (\<forall>x. rules_for t' x = (case subnet_words s x of
         Some ip \<Rightarrow> update_rules (nat b) ip new del (rules_for t x) | None \<Rightarrow> rules_for t x) \<and>
       is_allowed t' x = Some (most_specific (rules_for t' x) (path_of x) Deny = Allow))"
proof -
  obtain t' where t': "set_subnet_family t s b new del = Some (t', Success)" "wf_table t'"
    using set_family_refines [OF assms(1), of s b new del] assms(2) by auto
  moreover have "rules_for t' x = (case subnet_words s x of
      Some ip \<Rightarrow> update_rules (nat b) ip new del (rules_for t x) | None \<Rightarrow> rules_for t x)" for x
    using set_family_refines [OF assms(1), of s b new del] assms(2) t'(1) by (cases s; cases x) auto
  ultimately show ?thesis
    using is_allowed_eq [OF t'(2)] by blast
qed

theorem set_subnet_family_refines_rule_map_witness:
  "wf_table new_table \<and> valid_width Unspec 0 \<and>
   (\<exists>t'. set_subnet_family new_table Unspec 0 Allow False = Some (t', Success) \<and> wf_table t')"
  using set_subnet_family_refines_rule_map [of new_table Unspec 0 Allow False] by auto

text \<open>
  C3: \<open>is_any_allowed\<close> answers exactly whether some address of the family is allowed, although it
  only inspects the leaves of the trie.
\<close>

theorem is_any_allowed_iff:
  assumes "wf_table t"
  shows "(is_any_allowed t False \<longleftrightarrow> (\<exists>x. is_allowed t (IpV4 x) = Some True)) \<and>
    (is_any_allowed t True \<longleftrightarrow> (\<exists>x. is_allowed t (IpV6 x) = Some True))"
  using is_any_allowed_family [OF assms] by blast

theorem is_any_allowed_iff_witness:
  "wf_table new_table \<and> \<not> (\<exists>x. is_allowed new_table (IpV4 x) = Some True)"
proof -
  have "\<not> is_any_allowed new_table False"
    by (simp add: is_any_allowed_def new_table_def any_allowed.simps eff_def)
  then show ?thesis
    using is_any_allowed_iff [of new_table] by simp
qed

text \<open>
  A rule of five to seven bits more than a nibble boundary is stored at the same trie level as the
  wider rules that share its last nibble, so a later wider rule overwrites it although it is the
  finer one: after allowing 8.0.0.0/6, denying 8.0.0.0/5 without \<open>all\<close> denies 10.1.1.1 as well.
\<close>

theorem finer_rule_in_nibble_overwritten:
  "\<exists>t1 t2. allow new_table (V4 0x08000000) 6 = Some (t1, Success) \<and>
     is_allowed t1 (IpV4 0x0A010101) = Some True \<and>
     deny t1 (V4 0x08000000) 5 = Some (t2, Success) \<and>
     is_allowed t2 (IpV4 0x0A010101) = Some False"
proof -
  define t1 where "t1 = fst (the (allow new_table (V4 0x08000000) 6))"
  define t2 where "t2 = fst (the (deny t1 (V4 0x08000000) 5))"
  have "allow new_table (V4 0x08000000) 6 = Some (t1, Success)"
    unfolding t1_def by code_simp
  moreover have "is_allowed t1 (IpV4 0x0A010101) = Some True"
    unfolding t1_def by code_simp
  moreover have "deny t1 (V4 0x08000000) 5 = Some (t2, Success)"
    unfolding t2_def t1_def by code_simp
  moreover have "is_allowed t2 (IpV4 0x0A010101) = Some False"
    unfolding t2_def t1_def by code_simp
  ultimately show ?thesis by blast
qed

end
