(* ===== verification/Access.thy ===== *)
theory Access
  imports AddrFilt
begin

text \<open>
  The clients of the access table: the \<open>allow\<close>/\<open>deny\<close> surface of the NTP server
  (\<open>crates/chrony-rs-core/src/ntp/access.rs\<close>) and the two loops of the daemon that build the NTP
  and the command access tables from the configuration (\<open>crates/chronyd-rs/src/main.rs\<close>,
  \<open>build_ntp_access_table\<close> and \<open>build_cmd_access_table\<close>). The lemmas about rule sequences are
  proved once for any access table (locale \<open>access_table\<close>) and used for the trie through its
  interpretation \<open>adf\<close>.
\<close>

section \<open>Operations\<close>

datatype AccessOp = Allow | AllowAll | Deny | DenyAll

fun select_access_op :: "bool \<Rightarrow> bool \<Rightarrow> AccessOp" where
  "select_access_op True False = Allow"
| "select_access_op True True = AllowAll"
| "select_access_op False False = Deny"
| "select_access_op False True = DenyAll"

definition add_access_restriction ::
  "AuthTable \<Rightarrow> Subnet \<Rightarrow> int \<Rightarrow> bool \<Rightarrow> bool \<Rightarrow> (AuthTable \<times> bool) run" where
  "add_access_restriction table subnet subnet_bits allow' all' = do {
     (table', status) \<leftarrow> (case select_access_op allow' all' of
         Allow \<Rightarrow> allow table subnet subnet_bits
       | AllowAll \<Rightarrow> allow_all table subnet subnet_bits
       | Deny \<Rightarrow> deny table subnet subnet_bits
       | DenyAll \<Rightarrow> deny_all table subnet subnet_bits);
     ret (table', status = Success)
   }"

definition check_access_restriction :: "AuthTable \<Rightarrow> IpAddr \<Rightarrow> bool run" where
  "check_access_restriction table ip = is_allowed table ip"

record AllowDeny =
  all :: bool
  subnet :: Subnet
  subnet_bits :: int

text \<open>One directive: \<open>allow\<close> or \<open>deny\<close>, for commands or for NTP, and its subnet.\<close>

type_synonym restriction = "bool \<times> bool \<times> AllowDeny"

fun apply_spec :: "AuthTable \<Rightarrow> bool \<Rightarrow> AllowDeny \<Rightarrow> AuthTable run" where
  "apply_spec table allow' spec =
     map_option fst
       (if all spec then
          (if allow' then allow_all table (subnet spec) (subnet_bits spec)
           else deny_all table (subnet spec) (subnet_bits spec))
        else if allow' then allow table (subnet spec) (subnet_bits spec)
        else deny table (subnet spec) (subnet_bits spec))"

text \<open>The loop, for the directives whose \<open>cmd\<close> flag is \<open>want\<close>; the flag counts matches.\<close>

fun access_loop :: "bool \<Rightarrow> restriction list \<Rightarrow> bool \<Rightarrow> AuthTable \<Rightarrow> (bool \<times> AuthTable) run" where
  "access_loop want [] has_rules table = ret (has_rules, table)"
| "access_loop want ((allow', cmd, spec) # rest) has_rules table =
     (if cmd = want then do {
        table' \<leftarrow> apply_spec table allow' spec;
        access_loop want rest True table'
      } else access_loop want rest has_rules table)"

definition build_cmd_access_table :: "restriction list \<Rightarrow> AuthTable option run" where
  "build_cmd_access_table parsed = do {
     (has_cmd_rules, table) \<leftarrow> access_loop True parsed False new_table;
     ret (if has_cmd_rules then Some table else None)
   }"

definition build_ntp_access_table :: "restriction list \<Rightarrow> AuthTable option run" where
  "build_ntp_access_table parsed = do {
     (has_ntp_rules, table) \<leftarrow> access_loop False parsed False new_table;
     ret (if has_ntp_rules then Some table else None)
   }"

section \<open>Rule sequences over any access table\<close>

text \<open>A directive as one call of the table: the state it sets and whether it prunes.\<close>

fun rule_state :: "restriction \<Rightarrow> State" where
  "rule_state (allow', cmd, spec) = (if allow' then State.Allow else State.Deny)"

fun matches :: "restriction \<Rightarrow> IpAddr \<Rightarrow> bool" where
  "matches (allow', cmd, spec) x \<longleftrightarrow>
     valid_width (subnet spec) (subnet_bits spec) \<and> in_subnet (subnet spec) (subnet_bits spec) x"

fun run_rules ::
  "('t \<Rightarrow> Subnet \<Rightarrow> int \<Rightarrow> State \<Rightarrow> bool \<Rightarrow> ('t \<times> AdfStatus) run) \<Rightarrow> restriction list \<Rightarrow> 't \<Rightarrow> 't run" where
  "run_rules set_rule [] t = ret t"
| "run_rules set_rule (r # rs) t = do {
     (t', st) \<leftarrow> set_rule t (subnet (snd (snd r))) (subnet_bits (snd (snd r))) (rule_state r)
       (all (snd (snd r)));
     run_rules set_rule rs t'
   }"

lemma rule_state_explicit [simp]: "rule_state r \<noteq> AsParent"
  by (cases r) simp

lemma run_rules_append:
  "run_rules f (xs @ ys) t = Option.bind (run_rules f xs t) (run_rules f ys)"
  by (induction xs arbitrary: t) (simp_all add: Option.bind_assoc split_def)

context access_table
begin

lemma run_total: "wf t \<Longrightarrow> \<exists>t'. run_rules set_rule rs t = Some t' \<and> wf t'"
proof (induction rs arbitrary: t)
  case (Cons r rs)
  obtain t1 st where "set_rule t (subnet (snd (snd r))) (subnet_bits (snd (snd r))) (rule_state r)
      (all (snd (snd r))) = Some (t1, st)"
    using set_total [OF Cons.prems] by blast
  then show ?case
    using Cons set_wf by auto
qed simp

text \<open>Directives that do not cover an address leave its decision alone.\<close>

lemma run_unmatched:
  assumes "wf t" and "run_rules set_rule rs t = Some t'" and "\<forall>r\<in>set rs. \<not> matches r x"
  shows "allowed t' x = allowed t x"
  using assms
proof (induction rs arbitrary: t)
  case (Cons r rs)
  obtain t1 st where step: "set_rule t (subnet (snd (snd r))) (subnet_bits (snd (snd r))) (rule_state r)
      (all (snd (snd r))) = Some (t1, st)"
    using set_total [OF Cons.prems(1)] by blast
  have "wf t1"
    using set_wf [OF Cons.prems(1) step] .
  moreover have "run_rules set_rule rs t1 = Some t'"
    using Cons.prems(2) step by simp
  ultimately have "allowed t' x = allowed t1 x"
    using Cons.IH Cons.prems(3) by simp
  also have "\<dots> = allowed t x"
    using set_elsewhere [OF Cons.prems(1) step, of x] Cons.prems(3) by (cases r) auto
  finally show ?case .
qed simp

text \<open>An \<open>all\<close> directive with no matching directive after it has the last word.\<close>

lemma run_last_all:
  assumes "wf t" and "run_rules set_rule (rs @ r # rs') t = Some t'"
    and "all (snd (snd r))" and "matches r x" and "\<forall>r'\<in>set rs'. \<not> matches r' x"
  shows "allowed t' x = Some (rule_state r = State.Allow)"
proof -
  obtain t0 where t0: "run_rules set_rule rs t = Some t0" "wf t0"
    using run_total [OF assms(1)] by blast
  have val: "valid_width (subnet (snd (snd r))) (subnet_bits (snd (snd r)))"
    and inn: "in_subnet (subnet (snd (snd r))) (subnet_bits (snd (snd r))) x"
    using assms(4) by (cases r; simp)+
  obtain t1 where t1: "set_rule t0 (subnet (snd (snd r))) (subnet_bits (snd (snd r))) (rule_state r) True
      = Some (t1, Success)" "wf t1" "allowed t1 x = Some (rule_state r = State.Allow)"
    using set_all_decides [OF t0(2) val rule_state_explicit [of r]] inn by auto
  have "run_rules set_rule rs' t1 = Some t'"
    using assms(2,3) t0 t1 by (simp add: run_rules_append)
  then show ?thesis
    using run_unmatched [OF t1(2) _ assms(5)] t1(3) by simp
qed

end

section \<open>The daemon's tables\<close>

lemma apply_spec_eq:
  "apply_spec t allow' spec = map_option fst
     (set_subnet_family t (subnet spec) (subnet_bits spec) (rule_state (allow', cmd, spec)) (all spec))"
  by (simp add: allow_def allow_all_def deny_def deny_all_def)

lemma access_loop_eq:
  "access_loop want rs has t = map_option (Pair (has \<or> (\<exists>r\<in>set rs. fst (snd r) = want)))
     (run_rules set_subnet_family (filter (\<lambda>r. fst (snd r) = want) rs) t)"
proof (induction want rs has t rule: access_loop.induct)
  case (2 want allow' cmd spec rest has t)
  show ?case
  proof (cases "cmd = want")
    case True
    then show ?thesis
      using "2.IH"(1) apply_spec_eq [of t allow' spec cmd]
      by (cases "set_subnet_family t (subnet spec) (subnet_bits spec) (rule_state (allow', cmd, spec)) (all spec)")
        auto
  next
    case False
    then show ?thesis
      using "2.IH"(2) by auto
  qed
qed simp



end
