(* ===== verification/NtpSources.thy ===== *)
theory NtpSources
  imports Prelude
begin

text \<open>
  The NTP source manager, \<open>crates/chrony-rs-core/src/ntp_sources.rs\<close>: the open-addressing table
  of sources keyed by remote address (quadratic probing over a power-of-two array, load at most one
  half), the pool counters and the \<open>NSR_*\<close> operations built on them. Callbacks the host injects
  (\<open>UTI_IsIPReal\<close>, the per-source destructor, the name resolver) are function parameters.

  Sizes and counters are \<open>nat\<close> with the range checks of \<open>u32\<close> written out where they can fail;
  probe indices stay far below the width of \<open>usize\<close>. A failed \<open>debug_assert_eq!\<close> is a panic.
\<close>

section \<open>Addresses and the hash\<close>

datatype NsrStatus =
    Success | NoSuchSource | AlreadyInUse | TooManySources | InvalidAf | InvalidName | UnresolvedName

definition status_to_string :: "NsrStatus \<Rightarrow> string" where
  "status_to_string status = (case status of
       Success \<Rightarrow> ''Success''
     | NoSuchSource \<Rightarrow> ''No such source''
     | AlreadyInUse \<Rightarrow> ''Already in use''
     | TooManySources \<Rightarrow> ''Too many sources''
     | InvalidAf \<Rightarrow> ''Invalid address''
     | InvalidName \<Rightarrow> ''Invalid name''
     | UnresolvedName \<Rightarrow> ''Unresolved name'')"

definition check_hashtable_size :: "nat \<Rightarrow> nat \<Rightarrow> bool run" where
  "check_hashtable_size sources size' =
     (if sources * 2 < 2 ^ 32 then ret (sources * 2 \<le> size') else panic)"

text \<open>\<open>get_next_conf_id\<close>: the wrapping counter, returned with its new value.\<close>

record ConfIdAllocator =
  last_conf_id :: u32

definition allocate :: "ConfIdAllocator \<Rightarrow> ConfIdAllocator \<times> u32" where
  "allocate a = (let a' = a\<lparr>last_conf_id := last_conf_id a + 1\<rparr> in (a', last_conf_id a'))"

text \<open>A \<open>[u8; 16]\<close> address is its 128 bits, most significant byte first.\<close>

datatype IpKey = V4 u32 | V6 u128 | Id u32 | Unspec

fun hash_bytes :: "IpKey \<Rightarrow> bytes" where
  "hash_bytes (V4 v) = le_bytes 4 v"
| "hash_bytes (V6 b) = be_bytes 16 b"
| "hash_bytes (Id v) = le_bytes 4 v"
| "hash_bytes Unspec = []"

definition is_valid_family :: "IpKey \<Rightarrow> bool" where
  "is_valid_family k \<longleftrightarrow> k \<noteq> Unspec"

fun ip_equal_under_mask :: "IpKey \<Rightarrow> IpKey \<Rightarrow> IpKey option \<Rightarrow> bool" where
  "ip_equal_under_mask (V4 x) (V4 y) msk =
     (let m = (case msk of Some (V4 m) \<Rightarrow> m | _ \<Rightarrow> 0xffffffff) in x AND m = y AND m)"
| "ip_equal_under_mask (V6 x) (V6 y) msk =
     (let m = be_bytes 16 (case msk of Some (V6 m) \<Rightarrow> m | _ \<Rightarrow> - 1);
          xs = be_bytes 16 x; ys = be_bytes 16 y
      in list_all (\<lambda>i. xs ! i AND m ! i = ys ! i AND m ! i) [0..<16])"
| "ip_equal_under_mask (Id x) (Id y) msk = (x = y)"
| "ip_equal_under_mask a b msk = False"

definition ip_to_hash :: "u32 \<Rightarrow> IpKey \<Rightarrow> u32" where
  "ip_to_hash sd k =
     (if \<not> is_valid_family k then 0
      else foldl (\<lambda>hash b. hash * 71 + ucast b) sd (hash_bytes k) + sd)"

section \<open>The table\<close>

record RemoteAddr =
  ip :: IpKey
  port :: u16

datatype Find2 = NoMatch | IpOnly | Both

definition MAX_SOURCES :: nat where
  "MAX_SOURCES = 65536"

record SourceTable =
  seed :: u32
  slots :: "RemoteAddr option list"
  n_sources :: nat

definition with_size :: "u32 \<Rightarrow> nat \<Rightarrow> SourceTable" where
  "with_size sd size' = \<lparr>seed = sd, slots = replicate size' None, n_sources = 0\<rparr>"

definition new_sources :: "u32 \<Rightarrow> SourceTable" where
  "new_sources sd = with_size sd 1"

text \<open>The probe sequence, and the probing loop of \<open>find_slot\<close> over the indices that are left.\<close>

definition probe :: "u32 \<Rightarrow> nat \<Rightarrow> IpKey \<Rightarrow> nat \<Rightarrow> nat" where
  "probe sd size' k i = (unat (ip_to_hash sd k) + (i + i * i) div 2) mod size'"

fun find_loop :: "u32 \<Rightarrow> RemoteAddr option list \<Rightarrow> IpKey \<Rightarrow> nat list \<Rightarrow> nat \<Rightarrow> bool \<times> nat" where
  "find_loop sd ss k [] slot = (False, slot)"
| "find_loop sd ss k (i # is) slot =
     (let slot' = probe sd (length ss) k i in
      case ss ! slot' of
        None \<Rightarrow> (False, slot')
      | Some rec \<Rightarrow> if ip rec = k then (True, slot') else find_loop sd ss k is slot')"

definition find_slot :: "SourceTable \<Rightarrow> IpKey \<Rightarrow> bool \<times> nat" where
  "find_slot t k =
     (if \<not> is_valid_family k then (False, 0)
      else find_loop (seed t) (slots t) k [0..<length (slots t) div 2] 0)"

definition find_slot2 :: "SourceTable \<Rightarrow> RemoteAddr \<Rightarrow> (Find2 \<times> nat) run" where
  "find_slot2 t addr = (case find_slot t (ip addr) of
       (False, slot) \<Rightarrow> ret (NoMatch, slot)
     | (True, slot) \<Rightarrow> do {
         e \<leftarrow> index (slots t) slot;
         ret (if map_option port e = Some (port addr) then Both else IpOnly, slot)
       })"

text \<open>The assignment \<open>slots[slot] = value\<close>.\<close>

definition set_slot :: "SourceTable \<Rightarrow> nat \<Rightarrow> RemoteAddr option \<Rightarrow> SourceTable run" where
  "set_slot t slot v =
     (if slot < length (slots t) then ret (t\<lparr>slots := (slots t)[slot := v]\<rparr>) else panic)"

definition insert_addr :: "SourceTable \<Rightarrow> RemoteAddr \<Rightarrow> (SourceTable \<times> nat) run" where
  "insert_addr t addr = do {
     let (found, slot) = find_slot t (ip addr);
     t' \<leftarrow> set_slot t slot (Some addr);
     ret (t', slot)
   }"

text \<open>The sizing loop of \<open>rehash\<close>, entered with \<open>new_size = 1\<close>.\<close>

function grow :: "nat \<Rightarrow> nat \<Rightarrow> nat run" where
  "grow n new_size = do {
     ok \<leftarrow> check_hashtable_size n new_size;
     if ok then ret new_size
     else if 0 < new_size \<and> new_size * 2 < 2 ^ 32 then grow n (new_size * 2) else panic
   }"
  by pat_completeness auto
termination
  by (relation "measure (\<lambda>(n, new_size). 2 ^ 32 - new_size)") auto

declare grow.simps [simp del]

text \<open>Re-insert the records of the old array in slot order.\<close>

fun reinsert :: "RemoteAddr list \<Rightarrow> SourceTable \<Rightarrow> SourceTable run" where
  "reinsert [] t = ret t"
| "reinsert (rec # recs) t = do {
     (r, slot) \<leftarrow> find_slot2 t rec;
     t' \<leftarrow> (if r = NoMatch then set_slot t slot (Some rec) else panic);
     reinsert recs t'
   }"

definition flatten :: "'a option list \<Rightarrow> 'a list" where
  "flatten xs = List.map_filter id xs"

definition rehash :: "SourceTable \<Rightarrow> nat \<Rightarrow> SourceTable run" where
  "rehash t n = do {
     new_size \<leftarrow> grow n 1;
     reinsert (flatten (slots t)) (t\<lparr>slots := replicate new_size None\<rparr>)
   }"

definition add_source :: "SourceTable \<Rightarrow> RemoteAddr \<Rightarrow> bool \<Rightarrow> bool \<Rightarrow> (SourceTable \<times> NsrStatus) run" where
  "add_source t addr has_name ip_is_real = do {
     (r, _) \<leftarrow> find_slot2 t addr;
     if r \<noteq> NoMatch then ret (t, AlreadyInUse)
     else if \<not> has_name \<and> \<not> ip_is_real then ret (t, InvalidName)
     else if n_sources t \<ge> MAX_SOURCES then ret (t, TooManySources)
     else if \<not> is_valid_family (ip addr) then ret (t, InvalidAf)
     else do {
       let t1 = t\<lparr>n_sources := n_sources t + 1\<rparr>;
       ok \<leftarrow> check_hashtable_size (n_sources t1) (length (slots t1));
       t2 \<leftarrow> (if ok then ret t1 else rehash t1 (n_sources t1));
       (r', slot) \<leftarrow> find_slot2 t2 addr;
       t3 \<leftarrow> (if r' = NoMatch then set_slot t2 slot (Some addr) else panic);
       ret (t3, Success)
     }
   }"

text \<open>\<open>modify_source\<close> hands the matched record to \<open>apply\<close>; the model returns it.\<close>

definition modify_source :: "SourceTable \<Rightarrow> IpKey \<Rightarrow> RemoteAddr option run" where
  "modify_source t address = (case find_slot t address of
       (False, _) \<Rightarrow> ret None
     | (True, slot) \<Rightarrow> do { e \<leftarrow> index (slots t) slot; r \<leftarrow> e; ret (Some r) })"

definition change_source_address ::
  "SourceTable \<Rightarrow> RemoteAddr \<Rightarrow> RemoteAddr \<Rightarrow> (SourceTable \<times> NsrStatus) run" where
  "change_source_address t old new = do {
     (found_old, slot1) \<leftarrow> find_slot2 t old;
     if found_old \<noteq> Both then ret (t, NoSuchSource)
     else do {
       (found_new, slot2) \<leftarrow> find_slot2 t new;
       if found_new = Both \<or> (found_new \<noteq> NoMatch \<and> slot1 \<noteq> slot2) then ret (t, AlreadyInUse)
       else do {
         t1 \<leftarrow> set_slot t slot1 (Some new);
         t2 \<leftarrow> (if found_new = NoMatch then rehash t1 (n_sources t1) else ret t1);
         ret (t2, Success)
       }
     }
   }"

definition update_source_ntp_address ::
  "SourceTable \<Rightarrow> RemoteAddr \<Rightarrow> RemoteAddr \<Rightarrow> bool \<Rightarrow> bool \<Rightarrow> (SourceTable \<times> NsrStatus) run" where
  "update_source_ntp_address t old new old_real new_real =
     (if \<not> old_real \<or> \<not> new_real then ret (t, InvalidAf)
      else if ip old \<noteq> ip new \<and> fst (find_slot t (ip new)) then ret (t, AlreadyInUse)
      else change_source_address t old new)"

text \<open>The decrement \<open>n_sources -= 1\<close>.\<close>

definition dec_sources :: "SourceTable \<Rightarrow> SourceTable run" where
  "dec_sources t = (if 0 < n_sources t then ret (t\<lparr>n_sources := n_sources t - 1\<rparr>) else panic)"

definition remove_source :: "SourceTable \<Rightarrow> IpKey \<Rightarrow> (SourceTable \<times> NsrStatus) run" where
  "remove_source t address = (case find_slot t address of
       (False, _) \<Rightarrow> ret (t, NoSuchSource)
     | (True, slot) \<Rightarrow> do {
         t1 \<leftarrow> set_slot t slot None;
         t2 \<leftarrow> dec_sources t1;
         t3 \<leftarrow> rehash t2 (n_sources t2);
         ret (t3, Success)
       })"

section \<open>Selection and reports\<close>

definition select_matching :: "SourceTable \<Rightarrow> IpKey \<Rightarrow> IpKey option \<Rightarrow> nat list \<times> bool" where
  "select_matching t address msk =
     (let matched = filter (\<lambda>slot. case slots t ! slot of
            Some r \<Rightarrow> address = Unspec \<or> ip_equal_under_mask (ip r) address msk
          | None \<Rightarrow> False) [0..<length (slots t)]
      in (matched, matched \<noteq> []))"

definition remove_all :: "SourceTable \<Rightarrow> SourceTable run" where
  "remove_all t = rehash (t\<lparr>slots := map (\<lambda>_. None) (slots t), n_sources := 0\<rparr>) 0"

text \<open>Reads through \<open>find_slot\<close>: \<open>f\<close> is the host's accessor, \<open>d\<close> the value for an unknown source.\<close>

definition get_local_refid :: "SourceTable \<Rightarrow> IpKey \<Rightarrow> (RemoteAddr \<Rightarrow> u32) \<Rightarrow> u32 run" where
  "get_local_refid t address refid_of = do {
     e \<leftarrow> modify_source t address;
     ret (case e of Some r \<Rightarrow> refid_of r | None \<Rightarrow> 0)
   }"

definition report_source :: "SourceTable \<Rightarrow> IpKey \<Rightarrow> (RemoteAddr \<Rightarrow> int) \<Rightarrow> int run" where
  "report_source t address fill = do {
     e \<leftarrow> modify_source t address;
     ret (case e of Some r \<Rightarrow> fill r | None \<Rightarrow> 0)
   }"

definition get_name :: "SourceTable \<Rightarrow> IpKey \<Rightarrow> (RemoteAddr \<Rightarrow> string) \<Rightarrow> string option run" where
  "get_name t address name_of = do {
     e \<leftarrow> modify_source t address;
     ret (map_option name_of e)
   }"

definition get_ntp_report :: "SourceTable \<Rightarrow> IpKey \<Rightarrow> bool" where
  "get_ntp_report t address = fst (find_slot t address)"

definition address_present :: "SourceTable \<Rightarrow> RemoteAddr \<Rightarrow> bool run" where
  "address_present t addr = do { (r, _) \<leftarrow> find_slot2 t addr; ret (r \<noteq> NoMatch) }"

datatype SrcConnectivity = Offline | Online | MaybeOnline

text \<open>One iteration of the loop of \<open>set_connectivity_order\<close> over (applied, syncpeer, any).\<close>

definition connectivity_step ::
  "SourceTable \<Rightarrow> IpKey \<Rightarrow> IpKey option \<Rightarrow> SrcConnectivity \<Rightarrow> (RemoteAddr \<Rightarrow> bool) \<Rightarrow> (RemoteAddr \<Rightarrow> bool) \<Rightarrow>
     nat \<Rightarrow> nat list \<times> nat option \<times> bool \<Rightarrow> nat list \<times> nat option \<times> bool" where
  "connectivity_step t address msk connectivity is_real is_syncpeer slot s =
     (case s of (applied, syncpeer, any) \<Rightarrow>
      case slots t ! slot of
        None \<Rightarrow> s
      | Some r \<Rightarrow>
          if (address = Unspec \<and> (connectivity \<noteq> MaybeOnline \<or> is_real r)) \<or>
             ip_equal_under_mask (ip r) address msk
          then (if is_syncpeer r then (applied, Some slot, True) else (applied @ [slot], syncpeer, True))
          else s)"

definition set_connectivity_order ::
  "SourceTable \<Rightarrow> IpKey \<Rightarrow> IpKey option \<Rightarrow> SrcConnectivity \<Rightarrow> (RemoteAddr \<Rightarrow> bool) \<Rightarrow> (RemoteAddr \<Rightarrow> bool) \<Rightarrow>
     nat list \<times> bool" where
  "set_connectivity_order t address msk connectivity is_real is_syncpeer =
     (case fold (connectivity_step t address msk connectivity is_real is_syncpeer)
             [0..<length (slots t)] ([], None, False) of
        (applied, syncpeer, any) \<Rightarrow>
          (case syncpeer of Some s \<Rightarrow> applied @ [s] | None \<Rightarrow> applied, any))"

section \<open>Triangular probing visits every slot once\<close>

lemma triangular_diff:
  fixes i j :: nat
  assumes "i < j"
  shows "2 * ((j + j * j) div 2 - (i + i * i) div 2) = (j - i) * (i + j + 1)"
proof -
  obtain d where j: "j = i + d" using assms less_imp_add_positive by blast
  have "2 * ((j + j * j) div 2 - (i + i * i) div 2) = (j + j * j) - (i + i * i)"
    by (simp add: diff_mult_distrib2)
  moreover have "j + j * j = (i + i * i) + d * (i + j + 1)" by (simp add: j algebra_simps)
  ultimately have "2 * ((j + j * j) div 2 - (i + i * i) div 2) = d * (i + j + 1)" by linarith
  also have "d = j - i" by (simp add: j)
  finally show ?thesis .
qed

lemma triangular_mod_inj:
  fixes i j :: nat
  assumes "i < j" "j < 2 ^ k"
  shows "(h + (i + i * i) div 2) mod 2 ^ k \<noteq> (h + (j + j * j) div 2) mod 2 ^ k"
proof
  let ?d = "(j + j * j) div 2 - (i + i * i) div 2"
  assume eq: "(h + (i + i * i) div 2) mod 2 ^ k = (h + (j + j * j) div 2) mod 2 ^ k"
  have le: "(i + i * i) div 2 \<le> (j + j * j) div 2"
    using assms by (intro div_le_mono add_mono mult_mono) auto
  then have "2 ^ k dvd ?d"
    using eq mod_eq_dvd_iff_nat [of "h + (i + i * i) div 2" "h + (j + j * j) div 2" "2 ^ k"] by simp
  then have "2 ^ Suc k dvd 2 * ?d" by simp
  then have dvd: "2 ^ Suc k dvd (j - i) * (i + j + 1)" by (simp only: triangular_diff [OF \<open>i < j\<close>])
  have "odd (j - i) \<or> odd (i + j + 1)" using assms by auto
  then show False
  proof
    assume "odd (j - i)"
    then have "coprime (2 ^ Suc k) (j - i)" by simp
    then have "2 ^ Suc k dvd i + j + 1" using dvd by (simp only: coprime_dvd_mult_right_iff)
    then have "2 ^ Suc k \<le> i + j + 1" by (rule dvd_imp_le) simp
    then show False using assms by simp
  next
    assume "odd (i + j + 1)"
    then have "coprime (2 ^ Suc k) (i + j + 1)" by simp
    then have "2 ^ Suc k dvd j - i" using dvd by (simp only: coprime_dvd_mult_left_iff)
    then have "2 ^ Suc k \<le> j - i" by (rule dvd_imp_le) (use assms in simp)
    then show False using assms by simp
  qed
qed

lemma probe_inj: "inj_on (probe sd (2 ^ k) key) {..<2 ^ k}"
proof (rule linorder_inj_onI)
  fix i j :: nat
  assume "i < j" "i \<in> {..<2 ^ k}" "j \<in> {..<2 ^ k}"
  then show "probe sd (2 ^ k) key i \<noteq> probe sd (2 ^ k) key j"
    unfolding probe_def by (intro triangular_mod_inj) auto
qed auto

lemma probe_less: "0 < size' \<Longrightarrow> probe sd size' key i < size'"
  by (simp add: probe_def)

section \<open>The table invariant\<close>

definition occupied :: "RemoteAddr option list \<Rightarrow> nat set" where
  "occupied ss = {s. s < length ss \<and> ss ! s \<noteq> None}"

definition on_path :: "u32 \<Rightarrow> RemoteAddr option list \<Rightarrow> IpKey \<Rightarrow> nat \<Rightarrow> bool" where
  "on_path sd ss k s \<longleftrightarrow> (\<exists>i < length ss div 2.
     probe sd (length ss) k i = s \<and> (\<forall>j < i. ss ! probe sd (length ss) k j \<noteq> None))"

definition unique_ips :: "RemoteAddr option list \<Rightarrow> bool" where
  "unique_ips ss \<longleftrightarrow> (\<forall>s < length ss. \<forall>s' < length ss. \<forall>r r'.
     ss ! s = Some r \<longrightarrow> ss ! s' = Some r' \<longrightarrow> ip r = ip r' \<longrightarrow> s = s')"

definition wf_slots :: "u32 \<Rightarrow> RemoteAddr option list \<Rightarrow> bool" where
  "wf_slots sd ss \<longleftrightarrow> (\<exists>k. length ss = 2 ^ k) \<and> unique_ips ss \<and>
     (\<forall>s < length ss. \<forall>r. ss ! s = Some r \<longrightarrow> is_valid_family (ip r) \<and> on_path sd ss (ip r) s)"

text \<open>A table between two operations of the manager.\<close>

definition wf_sources :: "SourceTable \<Rightarrow> bool" where
  "wf_sources t \<longleftrightarrow> wf_slots (seed t) (slots t) \<and> n_sources t = card (occupied (slots t)) \<and>
     2 * n_sources t \<le> length (slots t) \<and> n_sources t \<le> MAX_SOURCES"

text \<open>What a table stands for: the port registered for each address.\<close>

definition port_of :: "SourceTable \<Rightarrow> IpKey \<rightharpoonup> u16" where
  "port_of t = map_of (map (\<lambda>r. (ip r, port r)) (flatten (slots t)))"

lemma set_flatten [simp]: "r \<in> set (flatten xs) \<longleftrightarrow> Some r \<in> set xs"
  by (force simp: flatten_def map_filter_def)

lemma flatten_simps [simp]:
  "flatten [] = []"
  "flatten (None # xs) = flatten xs"
  "flatten (Some x # xs) = x # flatten xs"
  "flatten (xs @ ys) = flatten xs @ flatten ys"
  "flatten (replicate n None) = []"
  by (simp_all add: flatten_def map_filter_def)

lemma length_flatten: "length (flatten ss) = card (occupied ss)"
  by (simp add: flatten_def map_filter_def length_filter_conv_card occupied_def)

lemma finite_occupied [simp]: "finite (occupied ss)"
  by (simp add: occupied_def)

lemma unique_ipsD:
  "unique_ips ss \<Longrightarrow> s < length ss \<Longrightarrow> s' < length ss \<Longrightarrow> ss ! s = Some r \<Longrightarrow> ss ! s' = Some r' \<Longrightarrow>
     ip r = ip r' \<Longrightarrow> s = s'"
  by (simp add: unique_ips_def)

lemma unique_ips_tl:
  assumes "unique_ips (x # ss)"
  shows "unique_ips ss"
  unfolding unique_ips_def
proof (intro allI impI)
  fix s s' r r'
  assume "s < length ss" "s' < length ss" "ss ! s = Some r" "ss ! s' = Some r'" "ip r = ip r'"
  then show "s = s'" using unique_ipsD [OF assms, of "Suc s" "Suc s'" r r'] by simp
qed

lemma unique_ips_hd:
  assumes "unique_ips (Some r # ss)" "Some r' \<in> set ss"
  shows "ip r' \<noteq> ip r"
proof
  assume "ip r' = ip r"
  moreover obtain s where "s < length ss" "ss ! s = Some r'" using assms(2) by (auto simp: in_set_conv_nth)
  ultimately show False using unique_ipsD [OF assms(1), of 0 "Suc s" r r'] by simp
qed

lemma distinct_flatten: "unique_ips ss \<Longrightarrow> distinct (map ip (flatten ss))"
proof (induction ss)
  case (Cons x ss)
  show ?case
    using Cons.IH [OF unique_ips_tl [OF Cons.prems]] Cons.prems
    by (cases x) (auto dest: unique_ips_hd)
qed simp

lemma port_of_eq_Some:
  assumes "unique_ips (slots t)"
  shows "port_of t k = Some p \<longleftrightarrow> (\<exists>r. Some r \<in> set (slots t) \<and> ip r = k \<and> port r = p)"
proof -
  let ?l = "map (\<lambda>r. (ip r, port r)) (flatten (slots t))"
  have "distinct (map fst ?l)" using distinct_flatten [OF assms] by (simp add: comp_def)
  from map_of_eq_Some_iff [OF this] have "port_of t k = Some p \<longleftrightarrow> (k, p) \<in> set ?l"
    by (simp add: port_of_def)
  also have "\<dots> \<longleftrightarrow> (\<exists>r. Some r \<in> set (slots t) \<and> ip r = k \<and> port r = p)"
    by (simp add: image_iff Bex_def eq_commute)
  finally show ?thesis .
qed

section \<open>Lookup\<close>

text \<open>The loop stops at the first probe that is empty or holds the key.\<close>

lemma find_loop_stops:
  assumes "m \<le> i" "i < n"
    and "\<And>j. m \<le> j \<Longrightarrow> j < i \<Longrightarrow> \<exists>r. ss ! probe sd (length ss) k j = Some r \<and> ip r \<noteq> k"
    and "ss ! probe sd (length ss) k i = None \<or> (\<exists>r. ss ! probe sd (length ss) k i = Some r \<and> ip r = k)"
  shows "find_loop sd ss k [m..<n] s =
     (ss ! probe sd (length ss) k i \<noteq> None, probe sd (length ss) k i)"
  using assms
proof (induction "i - m" arbitrary: m s)
  case 0
  then have "[m..<n] = i # [Suc i..<n]" by (simp add: upt_conv_Cons)
  then show ?case using 0 by auto
next
  case (Suc d)
  then have "m < i" by simp
  then have eq: "[m..<n] = m # [Suc m..<n]" using Suc.prems by (simp add: upt_conv_Cons)
  obtain r where "ss ! probe sd (length ss) k m = Some r" "ip r \<noteq> k"
    using Suc.prems(3) [of m] \<open>m < i\<close> by auto
  moreover have "find_loop sd ss k [Suc m..<n] s' =
     (ss ! probe sd (length ss) k i \<noteq> None, probe sd (length ss) k i)" for s'
    by (rule Suc.hyps(1)) (use Suc in auto)
  ultimately show ?case by (simp add: eq Let_def)
qed

lemma find_loop_True:
  "find_loop sd ss k is s = (True, s') \<Longrightarrow>
     (\<exists>i \<in> set is. s' = probe sd (length ss) k i) \<and> (\<exists>r. ss ! s' = Some r \<and> ip r = k)"
  by (induction "is" arbitrary: s) (auto simp: Let_def split: option.splits if_splits)

lemma find_loop_bounded:
  "0 < length ss \<Longrightarrow> s < length ss \<Longrightarrow> find_loop sd ss k is s = (b, s') \<Longrightarrow> s' < length ss"
proof (induction "is" arbitrary: s)
  case (Cons i "is")
  have "probe sd (length ss) k i < length ss" using Cons.prems(1) by (rule probe_less)
  then show ?case using Cons by (auto simp: Let_def split: option.splits if_splits)
qed simp

lemma wf_slotsD:
  assumes "wf_slots sd ss"
  shows "0 < length ss" "unique_ips ss"
    "s < length ss \<Longrightarrow> ss ! s = Some r \<Longrightarrow> is_valid_family (ip r) \<and> on_path sd ss (ip r) s"
    "inj_on (probe sd (length ss) k) {..<length ss}"
  using assms probe_inj by (auto simp: wf_slots_def)

lemma find_slot_present:
  assumes wf: "wf_slots (seed t) (slots t)" and s: "s < length (slots t)" "slots t ! s = Some r"
  shows "find_slot t (ip r) = (True, s)"
proof -
  let ?ss = "slots t" and ?p = "probe (seed t) (length (slots t)) (ip r)"
  obtain i where i: "i < length ?ss div 2" "?p i = s" "\<And>j. j < i \<Longrightarrow> ?ss ! ?p j \<noteq> None"
    using wf_slotsD(3) [OF wf s] by (auto simp: on_path_def)
  have "\<exists>r'. ?ss ! ?p j = Some r' \<and> ip r' \<noteq> ip r" if "j < i" for j
  proof -
    obtain r' where r': "?ss ! ?p j = Some r'" using i(3) \<open>j < i\<close> by auto
    have "?p j \<noteq> ?p i"
      using inj_onD [OF wf_slotsD(4) [OF wf, of "ip r"], of j i] that i(1) by fastforce
    moreover have "?p j < length ?ss" by (rule probe_less [OF wf_slotsD(1) [OF wf]])
    ultimately show ?thesis using unique_ipsD [OF wf_slotsD(2) [OF wf] _ s(1) r' s(2)] r' i(2) by auto
  qed
  then have "find_loop (seed t) ?ss (ip r) [0..<length ?ss div 2] 0 = (?ss ! ?p i \<noteq> None, ?p i)"
    by (intro find_loop_stops) (use i s in auto)
  then show ?thesis using wf_slotsD(3) [OF wf s] i s by (simp add: find_slot_def)
qed

lemma find_slot_True:
  assumes "find_slot t k = (True, s)" "0 < length (slots t)"
  shows "s < length (slots t)" "\<exists>r. slots t ! s = Some r \<and> ip r = k"
  using assms find_loop_True [of "seed t" "slots t" k] find_loop_bounded [of "slots t" 0]
  by (auto simp: find_slot_def split: if_splits)

lemma find_slot_absent:
  assumes "wf_slots (seed t) (slots t)" "\<And>r. Some r \<in> set (slots t) \<Longrightarrow> ip r \<noteq> k"
  shows "\<exists>s < length (slots t). find_slot t k = (False, s)"
proof -
  obtain b s where f: "find_slot t k = (b, s)" by fastforce
  have "0 < length (slots t)" using assms(1) by (rule wf_slotsD(1))
  moreover have "\<not> b" using find_slot_True [of t k s] f assms calculation nth_mem by metis
  ultimately show ?thesis
    using f find_loop_bounded [of "slots t" 0] by (auto simp: find_slot_def split: if_splits)
qed

text \<open>Below half load one of the distinct probes is empty, so the loop never gives up.\<close>

lemma empty_probe:
  assumes "wf_slots sd ss" "2 * Suc (card (occupied ss)) \<le> length ss"
  shows "\<exists>i < length ss div 2. ss ! probe sd (length ss) k i = None"
proof (rule ccontr)
  let ?p = "probe sd (length ss) k"
  assume "\<not> ?thesis"
  then have "?p ` {..<length ss div 2} \<subseteq> occupied ss"
    using probe_less [OF wf_slotsD(1) [OF assms(1)]] by (auto simp: occupied_def)
  then have "card (?p ` {..<length ss div 2}) \<le> card (occupied ss)" by (simp add: card_mono)
  moreover have "inj_on ?p {..<length ss div 2}"
    by (rule inj_on_subset [OF wf_slotsD(4) [OF assms(1)]]) auto
  moreover obtain e where "length ss = 2 ^ e" using assms(1) by (auto simp: wf_slots_def)
  ultimately show False using assms(2) by (cases e) (auto simp: card_image)
qed

lemma find_slot_free:
  assumes wf: "wf_slots (seed t) (slots t)" and load: "2 * Suc (card (occupied (slots t))) \<le> length (slots t)"
    and absent: "\<And>r. Some r \<in> set (slots t) \<Longrightarrow> ip r \<noteq> k" and "is_valid_family k"
  obtains s where "find_slot t k = (False, s)" "s < length (slots t)" "slots t ! s = None"
    "on_path (seed t) (slots t) k s"
proof -
  let ?ss = "slots t" and ?p = "probe (seed t) (length (slots t)) k"
  define i where "i = (LEAST i. i < length ?ss div 2 \<and> ?ss ! ?p i = None)"
  have i: "i < length ?ss div 2" "?ss ! ?p i = None"
    using LeastI_ex [OF empty_probe [OF wf load]] unfolding i_def by blast+
  have before: "?ss ! ?p j \<noteq> None" if "j < i" for j
    using not_less_Least [of j "\<lambda>i. i < length ?ss div 2 \<and> ?ss ! ?p i = None"] that i(1)
    by (auto simp: i_def)
  have bound: "?p j < length ?ss" for j by (rule probe_less [OF wf_slotsD(1) [OF wf]])
  have "find_loop (seed t) ?ss k [0..<length ?ss div 2] 0 = (?ss ! ?p i \<noteq> None, ?p i)"
  proof (rule find_loop_stops)
    show "\<exists>r. ?ss ! ?p j = Some r \<and> ip r \<noteq> k" if "j < i" for j
      using before [OF that] absent nth_mem [OF bound, of j] by (cases "?ss ! ?p j") auto
  qed (use i in auto)
  then have "find_slot t k = (False, ?p i)" using i assms(4) by (simp add: find_slot_def)
  then show ?thesis using i before bound by (intro that [of "?p i"]) (auto simp: on_path_def)
qed

section \<open>Placing records and rehashing\<close>

definition records :: "SourceTable \<Rightarrow> RemoteAddr set" where
  "records t = {r. Some r \<in> set (slots t)}"

lemma RemoteAddr_eta [simp]: "\<lparr>ip = ip r, port = port r\<rparr> = r"
  by (cases r) simp

lemma RemoteAddr_eq: "\<lparr>ip = k, port = p\<rparr> = a \<longleftrightarrow> ip a = k \<and> port a = p"
  by (cases a) auto

lemma port_of_records:
  "unique_ips (slots t) \<Longrightarrow> port_of t k = Some p \<longleftrightarrow> \<lparr>ip = k, port = p\<rparr> \<in> records t"
  by (auto simp: port_of_eq_Some records_def intro!: exI [of _ "\<lparr>ip = k, port = p\<rparr>"])

lemma port_of_None:
  assumes "unique_ips (slots t)"
  shows "port_of t k = None \<longleftrightarrow> (\<forall>r. Some r \<in> set (slots t) \<longrightarrow> ip r \<noteq> k)"
  using port_of_eq_Some [OF assms, of k] by (cases "port_of t k") auto

lemma on_path_update:
  "on_path sd ss k s' \<Longrightarrow> on_path sd (ss[s := Some r]) k s'"
  by (cases "s < length ss") (auto simp: on_path_def nth_list_update list_update_beyond)

text \<open>Storing a record whose address no other slot holds keeps the addresses unique.\<close>

lemma unique_ips_update:
  assumes u: "unique_ips ss" and s: "s < length ss"
    and other: "\<And>c r'. c < length ss \<Longrightarrow> c \<noteq> s \<Longrightarrow> ss ! c = Some r' \<Longrightarrow> ip r' \<noteq> ip r"
  shows "unique_ips (ss[s := Some r])"
  unfolding unique_ips_def
proof (intro allI impI)
  fix a b ra rb
  assume *: "a < length (ss[s := Some r])" "b < length (ss[s := Some r])"
    "ss[s := Some r] ! a = Some ra" "ss[s := Some r] ! b = Some rb" "ip ra = ip rb"
  have at: "ss[s := Some r] ! c = Some rc \<Longrightarrow> c = s \<and> rc = r \<or> c \<noteq> s \<and> ss ! c = Some rc" for c rc
    using s by (cases "c = s") auto
  from at [OF *(3)] at [OF *(4)] show "a = b"
    using *(1,2,5) other [of a ra] other [of b rb] unique_ipsD [OF u, of a b ra rb]
    unfolding length_list_update by metis
qed

lemma unique_ips_clear:
  assumes u: "unique_ips ss"
  shows "unique_ips (ss[s := None])"
proof (cases "s < length ss")
  case True
  then have at: "ss[s := None] ! c = Some rc \<Longrightarrow> ss ! c = Some rc" for c rc
    by (cases "c = s") auto
  show ?thesis unfolding unique_ips_def using at unique_ipsD [OF u] by (metis length_list_update)
qed (use u in \<open>simp add: list_update_beyond\<close>)

lemma wf_slots_update:
  assumes wf: "wf_slots sd ss" and s: "s < length ss" and path: "on_path sd ss (ip r) s"
    and "is_valid_family (ip r)"
    and other: "\<And>c r'. c < length ss \<Longrightarrow> c \<noteq> s \<Longrightarrow> ss ! c = Some r' \<Longrightarrow> ip r' \<noteq> ip r"
  shows "wf_slots sd (ss[s := Some r])"
proof -
  have "unique_ips (ss[s := Some r])" using wf_slotsD(2) [OF wf] s other by (rule unique_ips_update)
  moreover have "is_valid_family (ip r') \<and> on_path sd (ss[s := Some r]) (ip r') a"
    if "a < length ss" "ss[s := Some r] ! a = Some r'" for a r'
  proof (cases "a = s")
    case True
    then show ?thesis using that s path assms(4) on_path_update by simp
  next
    case False
    then show ?thesis using that wf_slotsD(3) [OF wf, of a r'] on_path_update by simp
  qed
  ultimately show ?thesis using wf by (simp add: wf_slots_def)
qed

lemma occupied_place: "s < length ss \<Longrightarrow> occupied (ss[s := Some r]) = insert s (occupied ss)"
  by (auto simp: occupied_def nth_list_update split: if_splits)

lemma set_place:
  assumes "s < length ss" "ss ! s = None"
  shows "Some r' \<in> set (ss[s := Some r]) \<longleftrightarrow> r' = r \<or> Some r' \<in> set ss"
proof -
  have "ss[s := Some r] ! a = Some r' \<longleftrightarrow> (if a = s then r' = r else ss ! a = Some r')" for a
    using assms by auto
  then show ?thesis using assms unfolding in_set_conv_nth length_list_update by (metis option.distinct(1))
qed

text \<open>\<open>find_slot2\<close> followed by the store: a new record in a table with room.\<close>

lemma place_new:
  assumes "wf_slots (seed t) (slots t)" "2 * Suc (card (occupied (slots t))) \<le> length (slots t)"
    and "\<And>r'. r' \<in> records t \<Longrightarrow> ip r' \<noteq> ip r" "is_valid_family (ip r)"
  obtains s t' where "find_slot2 t r = Some (NoMatch, s)" "set_slot t s (Some r) = Some t'"
    "wf_slots (seed t') (slots t')" "records t' = insert r (records t)" "seed t' = seed t"
    "n_sources t' = n_sources t" "length (slots t') = length (slots t)"
    "card (occupied (slots t')) = Suc (card (occupied (slots t)))"
proof -
  have absent: "\<And>r'. Some r' \<in> set (slots t) \<Longrightarrow> ip r' \<noteq> ip r"
    using assms(3) by (simp add: records_def)
  then have other: "ip r' \<noteq> ip r" if "c < length (slots t)" "slots t ! c = Some r'" for c r'
    using nth_mem [OF that(1)] that(2) by simp
  obtain s where s: "find_slot t (ip r) = (False, s)" "s < length (slots t)" "slots t ! s = None"
    "on_path (seed t) (slots t) (ip r) s"
    using find_slot_free [OF assms(1,2) absent assms(4)] by blast
  let ?t' = "t\<lparr>slots := (slots t)[s := Some r]\<rparr>"
  show ?thesis
  proof (rule that [of s ?t'])
    show "wf_slots (seed ?t') (slots ?t')"
      using wf_slots_update [OF assms(1) s(2,4) assms(4)] other by simp
    show "card (occupied (slots ?t')) = Suc (card (occupied (slots t)))"
      using s by (simp add: occupied_place) (simp add: occupied_def)
  qed (use s set_place [of s "slots t"] in \<open>auto simp: find_slot2_def set_slot_def records_def\<close>)
qed

lemma reinsert_spec:
  assumes "wf_slots (seed t) (slots t)" "2 * (card (occupied (slots t)) + length recs) \<le> length (slots t)"
    and "distinct (map ip recs)" "\<forall>r \<in> set recs. is_valid_family (ip r)"
    and "\<forall>r \<in> set recs. \<forall>r' \<in> records t. ip r' \<noteq> ip r"
  shows "\<exists>t'. reinsert recs t = Some t' \<and> wf_slots (seed t') (slots t') \<and>
     records t' = records t \<union> set recs \<and> seed t' = seed t \<and> n_sources t' = n_sources t \<and>
     length (slots t') = length (slots t) \<and>
     card (occupied (slots t')) = card (occupied (slots t)) + length recs"
  using assms
proof (induction recs arbitrary: t)
  case (Cons r recs)
  obtain s t1 where t1: "find_slot2 t r = Some (NoMatch, s)" "set_slot t s (Some r) = Some t1"
    "wf_slots (seed t1) (slots t1)" "records t1 = insert r (records t)" "seed t1 = seed t"
    "n_sources t1 = n_sources t" "length (slots t1) = length (slots t)"
    "card (occupied (slots t1)) = Suc (card (occupied (slots t)))"
    by (rule place_new [of t r]) (use Cons.prems in auto)
  have "\<exists>t'. reinsert recs t1 = Some t' \<and> wf_slots (seed t') (slots t') \<and>
     records t' = records t1 \<union> set recs \<and> seed t' = seed t1 \<and> n_sources t' = n_sources t1 \<and>
     length (slots t') = length (slots t1) \<and>
     card (occupied (slots t')) = card (occupied (slots t1)) + length recs"
    by (rule Cons.IH) (use Cons.prems t1 in auto)
  then show ?case using t1 by auto
qed auto

lemma grow_spec:
  assumes "k \<le> 31" "n * 2 \<le> 2 ^ 31"
  shows "\<exists>k'. grow n (2 ^ k) = Some (2 ^ k') \<and> n * 2 \<le> 2 ^ k' \<and> k' \<le> 31"
  using assms
proof (induction "31 - k" arbitrary: k)
  case 0
  then have "n * 2 \<le> 2 ^ k" by simp
  then show ?case using 0
    by (subst grow.simps) (auto simp: check_hashtable_size_def intro!: exI [of _ k])
next
  case (Suc d)
  show ?case
  proof (cases "n * 2 \<le> 2 ^ k")
    case True
    then show ?thesis using Suc.prems
      by (subst grow.simps) (auto simp: check_hashtable_size_def intro!: exI [of _ k])
  next
    case False
    have "k < 31" using Suc.hyps(2) by simp
    then have "(2::nat) ^ Suc k \<le> 2 ^ 31" by (intro power_increasing) auto
    then have "grow n (2 ^ k) = grow n (2 ^ Suc k)"
      using Suc.prems False by (subst grow.simps) (auto simp: check_hashtable_size_def mult.commute)
    then show ?thesis using Suc.hyps(1) [of "Suc k"] Suc.hyps(2) Suc.prems by simp
  qed
qed

lemma wf_slots_empty: "wf_slots sd (replicate (2 ^ k) None)"
  by (auto simp: wf_slots_def unique_ips_def)

lemma occupied_empty [simp]: "occupied (replicate m None) = {}"
  by (auto simp: occupied_def)

lemma rehash_spec:
  assumes "unique_ips (slots t)" "\<And>r. r \<in> records t \<Longrightarrow> is_valid_family (ip r)"
    and "card (occupied (slots t)) \<le> n" "n * 2 \<le> 2 ^ 31"
  shows "\<exists>t'. rehash t n = Some t' \<and> wf_slots (seed t') (slots t') \<and> records t' = records t \<and>
     seed t' = seed t \<and> n_sources t' = n_sources t \<and> 2 * n \<le> length (slots t') \<and>
     card (occupied (slots t')) = card (occupied (slots t))"
proof -
  obtain k where k: "grow n 1 = Some (2 ^ k)" "n * 2 \<le> 2 ^ k"
    using grow_spec [of 0 n] assms(4) by auto
  let ?t0 = "t\<lparr>slots := replicate (2 ^ k) None\<rparr>"
  have "\<exists>t'. reinsert (flatten (slots t)) ?t0 = Some t' \<and> wf_slots (seed t') (slots t') \<and>
     records t' = records ?t0 \<union> set (flatten (slots t)) \<and> seed t' = seed ?t0 \<and>
     n_sources t' = n_sources ?t0 \<and> length (slots t') = length (slots ?t0) \<and>
     card (occupied (slots t')) = card (occupied (slots ?t0)) + length (flatten (slots t))"
    by (rule reinsert_spec)
      (use assms k distinct_flatten in \<open>auto simp: wf_slots_empty length_flatten records_def\<close>)
  then show ?thesis using k by (auto simp: rehash_def length_flatten records_def)
qed

section \<open>The operations\<close>

text \<open>Overwriting or clearing the slot of \<open>r0\<close>.\<close>

lemma set_update_slot:
  assumes u: "unique_ips ss" and s: "s < length ss" "ss ! s = Some r0"
  shows "Some r' \<in> set (ss[s := v]) \<longleftrightarrow> v = Some r' \<or> (Some r' \<in> set ss \<and> ip r' \<noteq> ip r0)"
proof -
  have at: "ss[s := v] ! c = Some r' \<longleftrightarrow> (if c = s then v = Some r' else ss ! c = Some r')" for c
    using s by auto
  have "c \<noteq> s \<longleftrightarrow> ip r' \<noteq> ip r0" if "c < length ss" "ss ! c = Some r'" for c
    using unique_ipsD [OF u that(1) s(1) that(2) s(2)] that s by auto
  then show ?thesis using s unfolding in_set_conv_nth length_list_update at by metis
qed

lemma occupied_clear:
  "s < length ss \<Longrightarrow> occupied (ss[s := None]) = occupied ss - {s}"
  by (auto simp: occupied_def nth_list_update split: if_splits)

lemma wf_sourcesD:
  assumes "wf_sources t"
  shows "wf_slots (seed t) (slots t)" "unique_ips (slots t)" "0 < length (slots t)"
    "n_sources t = card (occupied (slots t))" "2 * n_sources t \<le> length (slots t)"
    "n_sources t \<le> MAX_SOURCES" "r \<in> records t \<Longrightarrow> is_valid_family (ip r)"
  using assms wf_slotsD(1-3) [of "seed t" "slots t"]
  by (auto simp: wf_sources_def records_def in_set_conv_nth)

lemma find_slot_cases:
  assumes "wf_sources t"
  obtains (found) s p where "port_of t k = Some p" "find_slot t k = (True, s)" "s < length (slots t)"
      "slots t ! s = Some \<lparr>ip = k, port = p\<rparr>"
  | (absent) s where "port_of t k = None" "find_slot t k = (False, s)" "s < length (slots t)"
proof (cases "port_of t k")
  case None
  then show ?thesis
    using find_slot_absent [OF wf_sourcesD(1) [OF assms], of k] absent
    by (auto simp: port_of_None [OF wf_sourcesD(2) [OF assms]])
next
  case (Some p)
  then obtain s where s: "s < length (slots t)" "slots t ! s = Some \<lparr>ip = k, port = p\<rparr>"
    by (auto simp: port_of_records [OF wf_sourcesD(2) [OF assms]] records_def in_set_conv_nth)
  then show ?thesis
    using found [OF Some _ s] find_slot_present [OF wf_sourcesD(1) [OF assms] s] by simp
qed

definition find2_of :: "u16 option \<Rightarrow> u16 \<Rightarrow> Find2" where
  "find2_of v p = (case v of None \<Rightarrow> NoMatch | Some q \<Rightarrow> if q = p then Both else IpOnly)"

lemma find_slot2_spec:
  assumes "wf_sources t"
  obtains s where "find_slot2 t a = Some (find2_of (port_of t (ip a)) (port a), s)" "s < length (slots t)"
    "snd (find_slot t (ip a)) = s"
    "\<And>p. port_of t (ip a) = Some p \<Longrightarrow> slots t ! s = Some \<lparr>ip = ip a, port = p\<rparr>"
  using assms
proof (cases rule: find_slot_cases [where k = "ip a"])
  case (found s p)
  then show ?thesis by (intro that [of s]) (auto simp: find_slot2_def find2_of_def index_def)
next
  case (absent s)
  then show ?thesis by (intro that [of s]) (auto simp: find_slot2_def find2_of_def)
qed

text \<open>Two tables with related records have related views.\<close>

lemma port_of_eqI:
  assumes "unique_ips (slots t)" "\<And>k p. \<lparr>ip = k, port = p\<rparr> \<in> records t \<longleftrightarrow> m k = Some p"
  shows "port_of t = m"
proof
  fix k
  show "port_of t k = m k"
    using port_of_records [OF assms(1), of k] assms(2) [of k] by (cases "m k"; cases "port_of t k") auto
qed

text \<open>The abstract table: a finite map from addresses to ports.\<close>

datatype TableOp =
    AddSource RemoteAddr bool bool
  | RemoveSource IpKey
  | ChangeAddress RemoteAddr RemoteAddr
  | RemoveAll

definition add_status :: "(IpKey \<rightharpoonup> u16) \<Rightarrow> RemoteAddr \<Rightarrow> bool \<Rightarrow> bool \<Rightarrow> NsrStatus" where
  "add_status m a has_name real' =
     (if m (ip a) \<noteq> None then AlreadyInUse
      else if \<not> has_name \<and> \<not> real' then InvalidName
      else if MAX_SOURCES \<le> card (dom m) then TooManySources
      else if ip a = Unspec then InvalidAf
      else Success)"

definition change_status :: "(IpKey \<rightharpoonup> u16) \<Rightarrow> RemoteAddr \<Rightarrow> RemoteAddr \<Rightarrow> NsrStatus" where
  "change_status m old new =
     (if m (ip old) \<noteq> Some (port old) then NoSuchSource
      else if m (ip new) \<noteq> None \<and> (ip new \<noteq> ip old \<or> port new = port old) then AlreadyInUse
      else Success)"

fun spec_step :: "TableOp \<Rightarrow> (IpKey \<rightharpoonup> u16) \<Rightarrow> (IpKey \<rightharpoonup> u16) \<times> NsrStatus" where
  "spec_step (AddSource a has_name real') m =
     (let st = add_status m a has_name real' in
      (if st = Success then m(ip a \<mapsto> port a) else m, st))"
| "spec_step (RemoveSource k) m = (if m k = None then (m, NoSuchSource) else (m(k := None), Success))"
| "spec_step (ChangeAddress old new) m =
     (let st = change_status m old new in
      (if st = Success then (m(ip old := None))(ip new \<mapsto> port new) else m, st))"
| "spec_step RemoveAll m = (Map.empty, Success)"

fun table_step :: "TableOp \<Rightarrow> SourceTable \<Rightarrow> (SourceTable \<times> NsrStatus) run" where
  "table_step (AddSource a has_name real') t = add_source t a has_name real'"
| "table_step (RemoveSource k) t = remove_source t k"
| "table_step (ChangeAddress old new) t = change_source_address t old new"
| "table_step RemoveAll t = do { t' \<leftarrow> remove_all t; ret (t', Success) }"

text \<open>Address changes go to addresses of a family the table stores.\<close>

fun op_ok :: "TableOp \<Rightarrow> bool" where
  "op_ok (ChangeAddress old new) = is_valid_family (ip new)"
| "op_ok _ = True"

lemma card_dom_port_of:
  assumes "wf_sources t"
  shows "card (dom (port_of t)) = n_sources t"
proof -
  have "dom (port_of t) = set (map ip (flatten (slots t)))"
    by (simp add: port_of_def dom_map_of_conv_image_fst image_image)
  then show ?thesis
    using distinct_card [OF distinct_flatten [OF wf_sourcesD(2) [OF assms]]] wf_sourcesD(4) [OF assms]
    by (simp add: length_flatten)
qed

lemma MAX_SOURCES_bound: "n \<le> MAX_SOURCES \<Longrightarrow> n * 2 \<le> 2 ^ 31"
  by (simp add: MAX_SOURCES_def)

text \<open>Rehashing with the table's own count restores the invariant and keeps the records.\<close>

lemma rehash_wf:
  assumes "unique_ips (slots t)" "\<And>r. r \<in> records t \<Longrightarrow> is_valid_family (ip r)"
    and "card (occupied (slots t)) = n_sources t" "n_sources t \<le> MAX_SOURCES"
  obtains t' where "rehash t (n_sources t) = Some t'" "wf_sources t'" "records t' = records t"
  using rehash_spec [OF assms(1,2), of "n_sources t"] assms(3,4) MAX_SOURCES_bound
  by (auto simp: wf_sources_def)

text \<open>The last part of \<open>add_source\<close>: count the source, grow if needed, place it.\<close>

lemma add_source_room:
  assumes wf: "wf_sources t" and "n_sources t < MAX_SOURCES"
  obtains ok t2 where "check_hashtable_size (n_sources t + 1) (length (slots t)) = Some ok"
    "(if ok then Some (t\<lparr>n_sources := n_sources t + 1\<rparr>)
      else rehash (t\<lparr>n_sources := n_sources t + 1\<rparr>) (n_sources t + 1)) = Some t2"
    "wf_slots (seed t2) (slots t2)" "records t2 = records t" "n_sources t2 = n_sources t + 1"
    "card (occupied (slots t2)) = n_sources t" "2 * (n_sources t + 1) \<le> length (slots t2)"
proof (cases "(n_sources t + 1) * 2 \<le> length (slots t)")
  case True
  then show ?thesis using wf_sourcesD [OF wf] assms(2)
    by (intro that [of True "t\<lparr>n_sources := n_sources t + 1\<rparr>"])
      (auto simp: check_hashtable_size_def records_def MAX_SOURCES_def)
next
  case False
  let ?t1 = "t\<lparr>n_sources := n_sources t + 1\<rparr>"
  have "\<exists>t'. rehash ?t1 (n_sources t + 1) = Some t' \<and> wf_slots (seed t') (slots t') \<and>
     records t' = records ?t1 \<and> seed t' = seed ?t1 \<and> n_sources t' = n_sources ?t1 \<and>
     2 * (n_sources t + 1) \<le> length (slots t') \<and>
     card (occupied (slots t')) = card (occupied (slots ?t1))"
    by (rule rehash_spec)
      (use wf_sourcesD [OF wf] assms(2) in \<open>auto simp: records_def MAX_SOURCES_def\<close>)
  then obtain t2 where t2: "rehash ?t1 (n_sources t + 1) = Some t2" "wf_slots (seed t2) (slots t2)"
    "records t2 = records ?t1" "n_sources t2 = n_sources ?t1"
    "2 * (n_sources t + 1) \<le> length (slots t2)" "card (occupied (slots t2)) = card (occupied (slots ?t1))"
    by blast
  show ?thesis
    by (rule that [of False t2])
      (use t2 False wf_sourcesD(4) [OF wf] assms(2)
       in \<open>auto simp: check_hashtable_size_def records_def MAX_SOURCES_def\<close>)
qed

lemma add_source_Success:
  assumes wf: "wf_sources t" and st: "add_status (port_of t) a hn re = Success"
  shows "\<exists>t'. add_source t a hn re = Some (t', Success) \<and> wf_sources t' \<and>
     port_of t' = (port_of t)(ip a \<mapsto> port a)"
proof -
  have pre: "port_of t (ip a) = None" "hn \<or> re" "n_sources t < MAX_SOURCES" "is_valid_family (ip a)"
    using st card_dom_port_of [OF wf] by (auto simp: add_status_def is_valid_family_def split: if_splits)
  obtain s0 where s0: "find_slot2 t a = Some (NoMatch, s0)"
    using find_slot2_spec [OF wf, of a] pre(1) by (auto simp: find2_of_def)
  obtain ok t2 where t2: "check_hashtable_size (n_sources t + 1) (length (slots t)) = Some ok"
    "(if ok then Some (t\<lparr>n_sources := n_sources t + 1\<rparr>)
      else rehash (t\<lparr>n_sources := n_sources t + 1\<rparr>) (n_sources t + 1)) = Some t2"
    "wf_slots (seed t2) (slots t2)" "records t2 = records t" "n_sources t2 = n_sources t + 1"
    "card (occupied (slots t2)) = n_sources t" "2 * (n_sources t + 1) \<le> length (slots t2)"
    using add_source_room [OF wf pre(3)] by blast
  have new: "ip r' \<noteq> ip a" if "r' \<in> records t2" for r'
    using that pre(1) t2(4) by (auto simp: port_of_None [OF wf_sourcesD(2) [OF wf]] records_def)
  obtain s t3 where t3: "find_slot2 t2 a = Some (NoMatch, s)" "set_slot t2 s (Some a) = Some t3"
    "wf_slots (seed t3) (slots t3)" "records t3 = insert a (records t2)" "n_sources t3 = n_sources t2"
    "length (slots t3) = length (slots t2)"
    "card (occupied (slots t3)) = Suc (card (occupied (slots t2)))"
    by (rule place_new [of t2 a]) (use t2 new pre(4) in auto)
  have "port_of t3 = (port_of t)(ip a \<mapsto> port a)"
    using pre(1) by (intro port_of_eqI [OF wf_slotsD(2) [OF t3(3)]])
      (auto simp: t3(4) t2(4) RemoteAddr_eq simp flip: port_of_records [OF wf_sourcesD(2) [OF wf]])
  moreover have "wf_sources t3" using t2 t3 pre(3) by (simp add: wf_sources_def)
  ultimately show ?thesis using s0 pre t2(1,2) t3(1,2) by (cases ok) (auto simp: add_source_def Let_def)
qed

lemma add_source_refused:
  assumes wf: "wf_sources t" and st: "add_status (port_of t) a hn re \<noteq> Success"
  shows "add_source t a hn re = Some (t, add_status (port_of t) a hn re)"
proof -
  obtain s where "find_slot2 t a = Some (find2_of (port_of t (ip a)) (port a), s)"
    using find_slot2_spec [OF wf, of a] by blast
  then show ?thesis using st card_dom_port_of [OF wf]
    by (auto simp: add_source_def add_status_def find2_of_def is_valid_family_def
        split: option.splits if_splits)
qed

lemma remove_source_spec:
  assumes wf: "wf_sources t"
  shows "\<exists>t'. remove_source t k = Some (t', snd (spec_step (RemoveSource k) (port_of t))) \<and> wf_sources t' \<and>
     port_of t' = fst (spec_step (RemoveSource k) (port_of t))"
  using wf
proof (cases rule: find_slot_cases [where k = k])
  case (found s p)
  let ?t = "t\<lparr>slots := (slots t)[s := None], n_sources := n_sources t - 1\<rparr>"
  have s: "s \<in> occupied (slots t)" using found by (simp add: occupied_def)
  then have pos: "0 < n_sources t"
    using wf_sourcesD(4) [OF wf] card_gt_0_iff [of "occupied (slots t)"] by auto
  have rec: "r \<in> records ?t \<longleftrightarrow> r \<in> records t \<and> ip r \<noteq> k" for r
    using set_update_slot [OF wf_sourcesD(2) [OF wf] found(3,4), of r None] by (simp add: records_def)
  obtain t' where t': "rehash ?t (n_sources ?t) = Some t'" "wf_sources t'" "records t' = records ?t"
  proof (rule rehash_wf [of ?t])
    show "is_valid_family (ip r)" if "r \<in> records ?t" for r
      using that rec wf_sourcesD(7) [OF wf] by blast
  qed (use s found wf_sourcesD [OF wf] in \<open>auto simp: unique_ips_clear occupied_clear\<close>)
  have rec': "r \<in> records t' \<longleftrightarrow> r \<in> records t \<and> ip r \<noteq> k" for r
    using t'(3) rec by blast
  have "port_of t' = (port_of t)(k := None)"
    by (intro port_of_eqI wf_sourcesD(2) [OF t'(2)])
      (auto simp: rec' simp flip: port_of_records [OF wf_sourcesD(2) [OF wf]])
  then show ?thesis
    using found t' pos by (simp add: remove_source_def set_slot_def dec_sources_def)
qed (use wf in \<open>auto simp: remove_source_def\<close>)

lemma remove_all_spec:
  "\<exists>t'. remove_all t = Some t' \<and> wf_sources t' \<and> port_of t' = Map.empty"
proof -
  let ?t = "t\<lparr>slots := map (\<lambda>_. None) (slots t), n_sources := 0\<rparr>"
  have none: "slots ?t = replicate (length (slots t)) None" by (simp add: map_replicate_const)
  have "unique_ips (slots ?t)" "records ?t = {}"
    unfolding none unique_ips_def records_def by auto
  then obtain t' where t': "rehash ?t (n_sources ?t) = Some t'" "wf_sources t'" "records t' = {}"
    using rehash_wf [of ?t] none occupied_empty by (metis (no_types, lifting) card.empty empty_iff
      le0 SourceTable.select_convs(3) SourceTable.surjective SourceTable.update_convs(3))
  then show ?thesis
    by (auto simp: remove_all_def intro!: port_of_eqI wf_sourcesD(2))
qed

text \<open>Storing \<open>new\<close> in the slot that holds \<open>old\<close>, before a possible rehash.\<close>

lemma overwrite_slot:
  assumes wf: "wf_sources t" and s: "s < length (slots t)" "slots t ! s = Some old"
    and free: "ip new = ip old \<or> port_of t (ip new) = None"
  defines "t1 \<equiv> t\<lparr>slots := (slots t)[s := Some new]\<rparr>"
  shows "unique_ips (slots t1)" "card (occupied (slots t1)) = n_sources t1"
    "r \<in> records t1 \<longleftrightarrow> r = new \<or> r \<in> records t \<and> ip r \<noteq> ip old"
proof -
  have other: "ip r' \<noteq> ip new" if "c < length (slots t)" "c \<noteq> s" "slots t ! c = Some r'" for c r'
    using free
  proof
    assume "ip new = ip old"
    then show ?thesis using unique_ipsD [OF wf_sourcesD(2) [OF wf] that(1) s(1) that(3) s(2)] that(2) by auto
  next
    assume "port_of t (ip new) = None"
    then show ?thesis
      using nth_mem [OF that(1)] that(3) by (auto simp: port_of_None [OF wf_sourcesD(2) [OF wf]])
  qed
  show "unique_ips (slots t1)"
    using unique_ips_update [OF wf_sourcesD(2) [OF wf] s(1) other] by (simp add: t1_def)
  have "occupied (slots t1) = occupied (slots t)"
    using s by (auto simp: t1_def occupied_place) (simp add: occupied_def)
  then show "card (occupied (slots t1)) = n_sources t1" using wf_sourcesD(4) [OF wf] by (simp add: t1_def)
  show "r \<in> records t1 \<longleftrightarrow> r = new \<or> r \<in> records t \<and> ip r \<noteq> ip old"
    using set_update_slot [OF wf_sourcesD(2) [OF wf] s, of r "Some new"] by (auto simp: t1_def records_def)
qed

lemma port_of_overwrite:
  assumes "wf_sources t" "unique_ips (slots t')"
    and "\<And>r. r \<in> records t' \<longleftrightarrow> r = new \<or> r \<in> records t \<and> ip r \<noteq> ip old"
    and "ip new = ip old \<or> port_of t (ip new) = None"
  shows "port_of t' = (port_of t)(ip old := None, ip new \<mapsto> port new)"
  using assms(4)
  by (intro port_of_eqI [OF assms(2)])
    (auto simp: assms(3) RemoteAddr_eq simp flip: port_of_records [OF wf_sourcesD(2) [OF assms(1)]])

lemma change_source_address_Success:
  assumes wf: "wf_sources t" and st: "change_status (port_of t) old new = Success"
    and valid: "is_valid_family (ip new)"
  shows "\<exists>t'. change_source_address t old new = Some (t', Success) \<and> wf_sources t' \<and>
     port_of t' = (port_of t)(ip old := None, ip new \<mapsto> port new)"
proof -
  have pre: "port_of t (ip old) = Some (port old)"
    "port_of t (ip new) = None \<or> ip new = ip old \<and> port new \<noteq> port old"
    using st by (auto simp: change_status_def split: if_splits)
  then have free: "ip new = ip old \<or> port_of t (ip new) = None" by auto
  obtain s1 where s1: "find_slot2 t old = Some (Both, s1)" "s1 < length (slots t)"
    "slots t ! s1 = Some old" "snd (find_slot t (ip old)) = s1"
    by (rule find_slot2_spec [OF wf, of old]) (use pre(1) in \<open>auto simp: find2_of_def\<close>)
  obtain s2 where s2: "find_slot2 t new = Some (find2_of (port_of t (ip new)) (port new), s2)"
    "snd (find_slot t (ip new)) = s2"
    using find_slot2_spec [OF wf, of new] by blast
  let ?t1 = "t\<lparr>slots := (slots t)[s1 := Some new]\<rparr>"
  note over = overwrite_slot [OF wf s1(2,3) free]
  show ?thesis
  proof (cases "port_of t (ip new)")
    case None
    obtain t' where t': "rehash ?t1 (n_sources ?t1) = Some t'" "wf_sources t'" "records t' = records ?t1"
    proof (rule rehash_wf [of ?t1])
      show "is_valid_family (ip r)" if "r \<in> records ?t1" for r
        using that over(3) [of r] valid wf_sourcesD(7) [OF wf, of r] by (cases "r = new") auto
    qed (use over wf_sourcesD(6) [OF wf] in auto)
    moreover have "port_of t' = (port_of t)(ip old := None, ip new \<mapsto> port new)"
      using over(3) t'(3) by (intro port_of_overwrite [OF wf wf_sourcesD(2) [OF t'(2)] _ free]) blast
    ultimately show ?thesis
      using s1 s2 None by (auto simp: change_source_address_def find2_of_def set_slot_def)
  next
    case (Some p)
    then have same: "ip new = ip old" "port new \<noteq> port old" using pre by auto
    have "wf_slots (seed t) ((slots t)[s1 := Some new])"
    proof (rule wf_slots_update [OF wf_sourcesD(1) [OF wf] s1(2) _ valid])
      show "on_path (seed t) (slots t) (ip new) s1"
        using wf_slotsD(3) [OF wf_sourcesD(1) [OF wf] s1(2,3)] same by simp
      show "ip r' \<noteq> ip new" if "c < length (slots t)" "c \<noteq> s1" "slots t ! c = Some r'" for c r'
        using unique_ipsD [OF wf_sourcesD(2) [OF wf] that(1) s1(2) that(3) s1(3)] that(2) same by auto
    qed
    then have "wf_sources ?t1" using over(2) wf_sourcesD(5,6) [OF wf] by (simp add: wf_sources_def)
    moreover have "port_of ?t1 = (port_of t)(ip old := None, ip new \<mapsto> port new)"
      by (rule port_of_overwrite [OF wf over(1) over(3) free])
    ultimately show ?thesis
      using s1 s2 Some same pre(1) by (auto simp: change_source_address_def find2_of_def set_slot_def)
  qed
qed

lemma change_source_address_refused:
  assumes wf: "wf_sources t" and st: "change_status (port_of t) old new \<noteq> Success"
  shows "change_source_address t old new = Some (t, change_status (port_of t) old new)"
proof -
  obtain s1 where s1: "find_slot2 t old = Some (find2_of (port_of t (ip old)) (port old), s1)"
    "\<And>p. port_of t (ip old) = Some p \<Longrightarrow> slots t ! s1 = Some \<lparr>ip = ip old, port = p\<rparr>"
    using find_slot2_spec [OF wf, of old] by metis
  obtain s2 where s2: "find_slot2 t new = Some (find2_of (port_of t (ip new)) (port new), s2)"
    "\<And>p. port_of t (ip new) = Some p \<Longrightarrow> slots t ! s2 = Some \<lparr>ip = ip new, port = p\<rparr>"
    using find_slot2_spec [OF wf, of new] by metis
  show ?thesis
  proof (cases "port_of t (ip old) = Some (port old)")
    case False
    then show ?thesis using s1(1)
      by (auto simp: change_source_address_def change_status_def find2_of_def split: option.splits)
  next
    case True
    then obtain p where p: "port_of t (ip new) = Some p" and diff: "ip new \<noteq> ip old \<or> port new = port old"
      using st by (auto simp: change_status_def split: if_splits)
    have "s1 \<noteq> s2" if "ip new \<noteq> ip old" using s1(2) [OF True] s2(2) [OF p] that by auto
    then show ?thesis using s1(1) s2(1) True p diff
      by (cases "ip new = ip old") (auto simp: change_source_address_def change_status_def find2_of_def)
  qed
qed

section \<open>The interface of the source table\<close>

text \<open>A sequence of operations with the statuses they return, on a table and on the abstract map.\<close>

fun run_ops :: "(TableOp \<Rightarrow> 't \<Rightarrow> ('t \<times> NsrStatus) run) \<Rightarrow> TableOp list \<Rightarrow> 't \<Rightarrow> ('t \<times> NsrStatus list) run" where
  "run_ops step [] t = ret (t, [])"
| "run_ops step (op # ops) t = do {
     (t', st) \<leftarrow> step op t;
     (t'', sts) \<leftarrow> run_ops step ops t';
     ret (t'', st # sts)
   }"

fun spec_run :: "TableOp list \<Rightarrow> (IpKey \<rightharpoonup> u16) \<Rightarrow> (IpKey \<rightharpoonup> u16) \<times> NsrStatus list" where
  "spec_run [] m = (m, [])"
| "spec_run (op # ops) m =
     (let (m', st) = spec_step op m; (m'', sts) = spec_run ops m' in (m'', st # sts))"

text \<open>
  A table behind the operations of the manager: each operation succeeds, answers as the abstract map
  does, keeps the invariant and commutes with the view.
\<close>

locale source_map =
  fixes wf :: "'t \<Rightarrow> bool" and view :: "'t \<Rightarrow> IpKey \<rightharpoonup> u16"
    and step :: "TableOp \<Rightarrow> 't \<Rightarrow> ('t \<times> NsrStatus) run"
  assumes step_refines: "wf t \<Longrightarrow> op_ok op \<Longrightarrow>
    \<exists>t'. step op t = Some (t', snd (spec_step op (view t))) \<and> wf t' \<and> view t' = fst (spec_step op (view t))"
begin

lemma steps_refine:
  assumes "wf t" "list_all op_ok ops"
  shows "\<exists>t'. run_ops step ops t = Some (t', snd (spec_run ops (view t))) \<and> wf t' \<and>
     view t' = fst (spec_run ops (view t))"
  using assms
proof (induction ops arbitrary: t)
  case (Cons op ops)
  then obtain t1 where t1: "step op t = Some (t1, snd (spec_step op (view t)))" "wf t1"
    "view t1 = fst (spec_step op (view t))"
    using step_refines [of t op] by auto
  moreover obtain t2 where "run_ops step ops t1 = Some (t2, snd (spec_run ops (view t1)))" "wf t2"
    "view t2 = fst (spec_run ops (view t1))"
    using Cons.IH [OF t1(2)] Cons.prems by auto
  ultimately show ?case by (auto simp: split_beta)
qed simp

end

lemma table_step_refines:
  assumes wf: "wf_sources t" and ok: "op_ok op"
  shows "\<exists>t'. table_step op t = Some (t', snd (spec_step op (port_of t))) \<and> wf_sources t' \<and>
    port_of t' = fst (spec_step op (port_of t))"
proof (cases op)
  case (AddSource a hn re)
  then show ?thesis using add_source_Success [OF wf, of a hn re] add_source_refused [OF wf, of a hn re] wf
    by (cases "add_status (port_of t) a hn re = Success") auto
next
  case (RemoveSource k)
  then show ?thesis using remove_source_spec [OF wf, of k] by (simp del: spec_step.simps)
next
  case (ChangeAddress old new)
  then show ?thesis
    using change_source_address_Success [OF wf, of old new] change_source_address_refused [OF wf, of old new]
      wf ok
    by (cases "change_status (port_of t) old new = Success") auto
next
  case RemoveAll
  then show ?thesis using remove_all_spec [of t] by auto
qed

interpretation st: source_map wf_sources port_of table_step
  by unfold_locales (rule table_step_refines)

lemma new_sources_wf: "wf_sources (new_sources sd)" "port_of (new_sources sd) = Map.empty"
proof -
  have "slots (new_sources sd) = replicate (2 ^ 0) None" by (simp add: new_sources_def with_size_def)
  then show "wf_sources (new_sources sd)"
    unfolding wf_sources_def by (simp only: wf_slots_empty occupied_empty)
      (simp add: new_sources_def with_size_def)
  show "port_of (new_sources sd) = Map.empty"
    by (simp add: new_sources_def with_size_def port_of_def)
qed



end
