(* ===== verification/Nsr.thy ===== *)
theory Nsr
  imports NtpSources
begin

text \<open>
  The outer layer of \<open>crates/chrony-rs-core/src/ntp_sources.rs\<close>: pool counters, packet routing, and
  the \<open>nsr_*\<close> functions that compose the table of \<open>NtpSources\<close> with the pools and the name
  resolver. Pool counters are \<open>i32\<close>: an increment or decrement out of range panics.
  Destructors and callbacks that return nothing leave no trace in the table; the records a
  destructor is called on are returned in call order.
\<close>

section \<open>Pools and routing\<close>

definition INVALID_POOL :: int where
  "INVALID_POOL = - 1"

record SourcePool =
  sources :: int
  unresolved_sources :: int
  confirmed_sources :: int
  max_sources :: int

definition add_sources :: "int \<Rightarrow> SourcePool \<Rightarrow> SourcePool run" where
  "add_sources d p = do { v \<leftarrow> i32_add (sources p) d; ret (p\<lparr>sources := v\<rparr>) }"

definition add_unresolved :: "int \<Rightarrow> SourcePool \<Rightarrow> SourcePool run" where
  "add_unresolved d p = do { v \<leftarrow> i32_add (unresolved_sources p) d; ret (p\<lparr>unresolved_sources := v\<rparr>) }"

definition add_confirmed :: "int \<Rightarrow> SourcePool \<Rightarrow> SourcePool run" where
  "add_confirmed d p = do { v \<leftarrow> i32_add (confirmed_sources p) d; ret (p\<lparr>confirmed_sources := v\<rparr>) }"

definition is_resolved :: "int \<Rightarrow> int \<Rightarrow> bool \<Rightarrow> bool" where
  "is_resolved pool_id pool_unresolved_sources present =
     (if pool_id \<noteq> INVALID_POOL then pool_unresolved_sources \<le> 0 else \<not> present)"

fun unused_pool_loop :: "int \<Rightarrow> SourcePool list \<Rightarrow> int list \<Rightarrow> int" where
  "unused_pool_loop i [] pending_pool_ids = INVALID_POOL"
| "unused_pool_loop i (p # ps) pending_pool_ids =
     (if sources p > 0 then unused_pool_loop (i + 1) ps pending_pool_ids
      else if i \<in> set pending_pool_ids then unused_pool_loop (i + 1) ps pending_pool_ids
      else i)"

definition get_unused_pool_id :: "SourcePool list \<Rightarrow> int list \<Rightarrow> int" where
  "get_unused_pool_id pools pending_pool_ids = unused_pool_loop 0 pools pending_pool_ids"

definition on_remove :: "SourcePool \<Rightarrow> bool \<Rightarrow> bool \<Rightarrow> SourcePool run" where
  "on_remove p is_real tentative = do {
     p \<leftarrow> add_sources (- 1) p;
     p \<leftarrow> (if \<not> is_real then add_unresolved (- 1) p else ret p);
     p \<leftarrow> (if \<not> tentative then add_confirmed (- 1) p else ret p);
     ret (if max_sources p > sources p then p\<lparr>max_sources := sources p\<rparr> else p)
   }"

definition MODE_ACTIVE :: u8 where "MODE_ACTIVE = 1"
definition MODE_PASSIVE :: u8 where "MODE_PASSIVE = 2"
definition MODE_CLIENT :: u8 where "MODE_CLIENT = 3"
definition MODE_SERVER :: u8 where "MODE_SERVER = 4"

datatype RouteTarget = Known | Unknown

definition process_rx_route :: "u8 \<Rightarrow> bool \<Rightarrow> RouteTarget" where
  "process_rx_route mode matched = (if mode \<noteq> MODE_CLIENT \<and> matched then Known else Unknown)"

definition process_tx_route :: "u8 \<Rightarrow> bool \<Rightarrow> RouteTarget" where
  "process_tx_route mode matched = (if mode \<noteq> MODE_SERVER \<and> matched then Known else Unknown)"

definition confirm_tentative_pool_source :: "SourcePool \<Rightarrow> (SourcePool \<times> bool) run" where
  "confirm_tentative_pool_source p = do {
     p \<leftarrow> add_confirmed 1 p;
     ret (p, confirmed_sources p \<ge> max_sources p)
   }"

definition change_address_pool_bookkeeping :: "SourcePool \<Rightarrow> bool \<Rightarrow> bool \<Rightarrow> bool \<Rightarrow> SourcePool run" where
  "change_address_pool_bookkeeping p old_real new_real was_tentative = do {
     p \<leftarrow> (if \<not> old_real \<and> new_real then add_unresolved (- 1) p else ret p);
     if \<not> was_tentative then add_confirmed (- 1) p else ret p
   }"

section \<open>The \<open>nsr_*\<close> functions\<close>

definition nsr_initialise :: "u32 \<Rightarrow> SourceTable" where
  "nsr_initialise sd = new_sources sd"

definition nsr_finalise :: "SourceTable \<Rightarrow> SourceTable \<times> RemoteAddr list" where
  "nsr_finalise t =
     (t\<lparr>slots := map (\<lambda>_. None) (slots t), n_sources := 0\<rparr>, flatten (slots t))"

definition nsr_add_source :: "SourceTable \<Rightarrow> RemoteAddr \<Rightarrow> bool \<Rightarrow> (SourceTable \<times> NsrStatus) run" where
  "nsr_add_source t addr has_name = add_source t addr has_name True"

definition append_unresolved_source :: "SourcePool \<Rightarrow> int \<Rightarrow> SourcePool run" where
  "append_unresolved_source p pool_id =
     (if pool_id \<noteq> INVALID_POOL then add_unresolved 1 p else ret p)"

definition remove_unresolved_source :: "SourcePool \<Rightarrow> int \<Rightarrow> SourcePool run" where
  "remove_unresolved_source p pool_id =
     (if pool_id \<noteq> INVALID_POOL then add_unresolved (- 1) p else ret p)"

definition nsr_add_source_by_name ::
  "SourceTable \<Rightarrow> SourcePool \<Rightarrow> RemoteAddr \<Rightarrow> bool \<Rightarrow> int \<Rightarrow> (SourceTable \<times> SourcePool \<times> NsrStatus) run" where
  "nsr_add_source_by_name t p addr ip_is_real pool_id = do {
     (t, status) \<leftarrow> add_source t addr True ip_is_real;
     p \<leftarrow> (if status = Success \<and> \<not> ip_is_real then append_unresolved_source p pool_id else ret p);
     ret (t, p, status)
   }"

text \<open>The loop of \<open>nsr_remove_sources_by_id\<close> over the slot indices, with the destroyed records.\<close>

fun remove_by_id_loop ::
  "(RemoteAddr \<Rightarrow> bool) \<Rightarrow> nat list \<Rightarrow> SourceTable \<Rightarrow> (SourceTable \<times> RemoteAddr list) run" where
  "remove_by_id_loop is_in_pool [] t = ret (t, [])"
| "remove_by_id_loop is_in_pool (i # is) t = (case slots t ! i of
       None \<Rightarrow> remove_by_id_loop is_in_pool is t
     | Some rec \<Rightarrow>
         if is_in_pool rec then do {
           t \<leftarrow> set_slot t i None;
           t \<leftarrow> dec_sources t;
           (t, destroyed) \<leftarrow> remove_by_id_loop is_in_pool is t;
           ret (t, rec # destroyed)
         } else remove_by_id_loop is_in_pool is t)"

definition nsr_remove_sources_by_id ::
  "SourceTable \<Rightarrow> (RemoteAddr \<Rightarrow> bool) \<Rightarrow> (SourceTable \<times> RemoteAddr list) run" where
  "nsr_remove_sources_by_id t is_in_pool = do {
     (t, destroyed) \<leftarrow> remove_by_id_loop is_in_pool [0..<length (slots t)] t;
     t \<leftarrow> rehash t (n_sources t);
     ret (t, destroyed)
   }"

definition nsr_handle_bad_source :: "SourceTable \<Rightarrow> RemoteAddr \<Rightarrow> bool \<Rightarrow> bool \<Rightarrow> NsrStatus run" where
  "nsr_handle_bad_source t addr restart is_auto_offline = do {
     (found, _) \<leftarrow> find_slot2 t addr;
     if found \<noteq> Both then ret NoSuchSource
     else if is_auto_offline then ret Success
     else if restart then ret Success
     else ret Success
   }"

text \<open>The selections by slot: occupied slots whose record satisfies a predicate, in slot order.\<close>

definition slots_where :: "(RemoteAddr \<Rightarrow> bool) \<Rightarrow> SourceTable \<Rightarrow> nat list" where
  "slots_where P t = filter (\<lambda>s. case slots t ! s of Some r \<Rightarrow> P r | None \<Rightarrow> False) [0..<length (slots t)]"

definition nsr_auto_start_sources :: "SourceTable \<Rightarrow> (RemoteAddr \<Rightarrow> bool) \<Rightarrow> nat list" where
  "nsr_auto_start_sources t has_auto_offline = slots_where (\<lambda>r. \<not> has_auto_offline r) t"

fun nsr_start_sources :: "SourceTable \<Rightarrow> nat list \<Rightarrow> (RemoteAddr \<times> bool) list run" where
  "nsr_start_sources t [] = ret []"
| "nsr_start_sources t (s # ss) = do {
     e \<leftarrow> index (slots t) s;
     rest \<leftarrow> nsr_start_sources t ss;
     ret (case e of Some r \<Rightarrow> (r, True) # rest | None \<Rightarrow> rest)
   }"

definition nsr_select_unresolved_slots :: "SourceTable \<Rightarrow> (RemoteAddr \<Rightarrow> bool) \<Rightarrow> nat list" where
  "nsr_select_unresolved_slots t is_real = slots_where (\<lambda>r. \<not> is_real r) t"

definition nsr_refresh_addresses :: "SourceTable \<Rightarrow> (RemoteAddr \<Rightarrow> bool) \<Rightarrow> nat list" where
  "nsr_refresh_addresses t has_name = slots_where has_name t"

section \<open>Name resolution\<close>

definition process_resolved_name ::
  "SourceTable \<Rightarrow> SourcePool \<Rightarrow> nat \<Rightarrow> RemoteAddr \<Rightarrow> int \<Rightarrow> (SourceTable \<times> SourcePool) run" where
  "process_resolved_name t p slot new_addr pool_id =
     (if pool_id \<noteq> INVALID_POOL then do {
        (t, p, status) \<leftarrow> nsr_add_source_by_name t p new_addr True pool_id;
        p \<leftarrow> (if status = Success then do { p \<leftarrow> add_sources 1 p; add_confirmed 0 p } else ret p);
        ret (t, p)
      } else do {
        e \<leftarrow> index (slots t) slot;
        case e of
          Some old \<Rightarrow> do { (t, _) \<leftarrow> change_source_address t old new_addr; ret (t, p) }
        | None \<Rightarrow> ret (t, p)
      })"

fun process_resolved_names ::
  "nat \<Rightarrow> int \<Rightarrow> RemoteAddr list \<Rightarrow> SourceTable \<times> SourcePool \<Rightarrow> (SourceTable \<times> SourcePool) run" where
  "process_resolved_names slot pool_id [] tp = ret tp"
| "process_resolved_names slot pool_id (addr # addrs) (t, p) = do {
     tp \<leftarrow> process_resolved_name t p slot addr pool_id;
     process_resolved_names slot pool_id addrs tp
   }"

definition name_resolve_handler ::
  "SourceTable \<Rightarrow> SourcePool \<Rightarrow> nat \<Rightarrow> RemoteAddr list \<Rightarrow> int \<Rightarrow> (SourceTable \<times> SourcePool) run" where
  "name_resolve_handler t p slot resolved_addrs pool_id =
     (if resolved_addrs = [] then
        (if pool_id \<noteq> INVALID_POOL then do { p \<leftarrow> remove_unresolved_source p pool_id; ret (t, p) }
         else ret (t, p))
      else process_resolved_names slot pool_id resolved_addrs (t, p))"

text \<open>
  \<open>resolve_one name\<close> is the resolver's answer, \<open>None\<close> for a failure. The outer loop runs over a clone
  of the slots.
\<close>

fun resolvers_loop ::
  "(string \<Rightarrow> RemoteAddr list option) \<Rightarrow> nat \<Rightarrow> (string \<times> int) list \<Rightarrow> SourceTable \<times> SourcePool \<Rightarrow>
     (SourceTable \<times> SourcePool) run" where
  "resolvers_loop resolve_one slot [] tp = ret tp"
| "resolvers_loop resolve_one slot ((name, pool_id) # rs) (t, p) = do {
     tp \<leftarrow> (if pool_id \<ge> 0 then
              (case resolve_one name of
                 Some addrs \<Rightarrow> name_resolve_handler t p slot addrs pool_id
               | None \<Rightarrow> ret (t, p))
            else ret (t, p));
     resolvers_loop resolve_one slot rs tp
   }"

fun resolve_slots_loop ::
  "(string \<Rightarrow> RemoteAddr list option) \<Rightarrow> (string \<times> int) list \<Rightarrow> (nat \<times> RemoteAddr option) list \<Rightarrow>
     SourceTable \<times> SourcePool \<Rightarrow> (SourceTable \<times> SourcePool) run" where
  "resolve_slots_loop resolve_one resolvers [] tp = ret tp"
| "resolve_slots_loop resolve_one resolvers ((slot, rec) # rest) tp = do {
     tp \<leftarrow> (if rec \<noteq> None then resolvers_loop resolve_one slot resolvers tp else ret tp);
     resolve_slots_loop resolve_one resolvers rest tp
   }"

definition resolve_sources_operation ::
  "SourceTable \<Rightarrow> (string \<times> int) list \<Rightarrow> SourcePool \<Rightarrow> (string \<Rightarrow> RemoteAddr list option) \<Rightarrow>
     (SourceTable \<times> SourcePool) run" where
  "resolve_sources_operation t resolvers p resolve_one =
     resolve_slots_loop resolve_one resolvers (enumerate 0 (slots t)) (t, p)"

definition resolve_sources_timeout :: "SourceTable \<Rightarrow> SourcePool \<Rightarrow> bool" where
  "resolve_sources_timeout t p \<longleftrightarrow> n_sources t > 0 \<and> unresolved_sources p > 0"

definition resolve_source_replacement ::
  "SourceTable \<Rightarrow> RemoteAddr \<Rightarrow> RemoteAddr \<Rightarrow> (SourceTable \<times> NsrStatus) run" where
  "resolve_source_replacement t old_addr new_addr = change_source_address t old_addr new_addr"

definition replace_source_connectable ::
  "SourceTable \<Rightarrow> RemoteAddr \<Rightarrow> RemoteAddr \<Rightarrow> (SourceTable \<times> NsrStatus) run" where
  "replace_source_connectable t old_addr new_addr = change_source_address t old_addr new_addr"

definition get_pool :: "SourcePool list \<Rightarrow> int \<Rightarrow> SourcePool option" where
  "get_pool pools pool_id =
     (if pool_id < 0 \<or> nat pool_id \<ge> length pools then None else Some (pools ! nat pool_id))"

definition get_record :: "SourceTable \<Rightarrow> nat \<Rightarrow> RemoteAddr option" where
  "get_record t slot = (if slot < length (slots t) then slots t ! slot else None)"

definition handle_saved_address_update ::
  "SourceTable \<Rightarrow> SourcePool \<Rightarrow> RemoteAddr \<Rightarrow> RemoteAddr \<Rightarrow> int \<Rightarrow> bool \<Rightarrow> (SourceTable \<times> SourcePool) run" where
  "handle_saved_address_update t p old_addr new_addr pool_id was_tentative = do {
     let old_real = True;
     let new_real = True;
     (t, status) \<leftarrow> change_source_address t old_addr new_addr;
     p \<leftarrow> (if status = Success \<and> pool_id \<noteq> INVALID_POOL
           then change_address_pool_bookkeeping p old_real new_real was_tentative else ret p);
     ret (t, p)
   }"

definition maybe_refresh_source :: "SourceTable \<Rightarrow> RemoteAddr \<Rightarrow> (RemoteAddr \<Rightarrow> bool) \<Rightarrow> bool run" where
  "maybe_refresh_source t addr has_name = do {
     (found, _) \<leftarrow> find_slot2 t addr;
     ret (found = Both \<and> has_name addr)
   }"

fun remove_pool_loop ::
  "(RemoteAddr \<Rightarrow> bool) \<Rightarrow> (RemoteAddr \<Rightarrow> bool) \<Rightarrow> bool \<Rightarrow> nat list \<Rightarrow> SourceTable \<times> SourcePool \<Rightarrow>
     (SourceTable \<times> SourcePool) run" where
  "remove_pool_loop is_in_pool is_tentative only_tentative [] tp = ret tp"
| "remove_pool_loop is_in_pool is_tentative only_tentative (i # is) (t, p) = do {
     tp \<leftarrow> (case slots t ! i of
              None \<Rightarrow> ret (t, p)
            | Some rec \<Rightarrow>
                if is_in_pool rec \<and> (\<not> only_tentative \<or> is_tentative rec) then do {
                  t \<leftarrow> set_slot t i None;
                  t \<leftarrow> dec_sources t;
                  p \<leftarrow> add_sources (- 1) p;
                  p \<leftarrow> (if \<not> is_tentative rec then add_confirmed (- 1) p else ret p);
                  ret (t, p)
                } else ret (t, p));
     remove_pool_loop is_in_pool is_tentative only_tentative is tp
   }"

definition remove_pool_sources ::
  "SourceTable \<Rightarrow> SourcePool \<Rightarrow> (RemoteAddr \<Rightarrow> bool) \<Rightarrow> (RemoteAddr \<Rightarrow> bool) \<Rightarrow> bool \<Rightarrow>
     (SourceTable \<times> SourcePool) run" where
  "remove_pool_sources t p is_in_pool is_tentative only_tentative = do {
     (t, p) \<leftarrow> remove_pool_loop is_in_pool is_tentative only_tentative (rev [0..<length (slots t)]) (t, p);
     t \<leftarrow> rehash t (n_sources t);
     ret (t, p)
   }"

section \<open>Reports\<close>

record ActivityReport =
  online_sources :: nat
  offline_sources :: nat
  burst_online_sources :: nat
  burst_offline_sources :: nat
  report_unresolved :: int

definition count_activity ::
  "(RemoteAddr \<Rightarrow> bool) \<Rightarrow> (RemoteAddr \<Rightarrow> bool) \<Rightarrow> RemoteAddr \<Rightarrow> ActivityReport \<Rightarrow> ActivityReport" where
  "count_activity is_online is_burst addr r =
     (let online = is_online addr; burst = is_burst addr in
      if online \<and> burst then r\<lparr>burst_online_sources := burst_online_sources r + 1\<rparr>
      else if online then r\<lparr>online_sources := online_sources r + 1\<rparr>
      else if burst then r\<lparr>burst_offline_sources := burst_offline_sources r + 1\<rparr>
      else r\<lparr>offline_sources := offline_sources r + 1\<rparr>)"

definition nsr_get_activity_report ::
  "SourceTable \<Rightarrow> (RemoteAddr \<Rightarrow> bool) \<Rightarrow> (RemoteAddr \<Rightarrow> bool) \<Rightarrow> int \<Rightarrow> ActivityReport" where
  "nsr_get_activity_report t is_online is_burst pool_unresolved =
     fold (count_activity is_online is_burst) (flatten (slots t))
       \<lparr>online_sources = 0, offline_sources = 0, burst_online_sources = 0, burst_offline_sources = 0,
        report_unresolved = pool_unresolved\<rparr>"

definition nsr_dump_auth_data :: "SourceTable \<Rightarrow> (RemoteAddr \<Rightarrow> int \<times> u32) \<Rightarrow> (int \<times> u32) list" where
  "nsr_dump_auth_data t get_auth = map get_auth (flatten (slots t))"

section \<open>Removing the sources of a pool\<close>

text \<open>The records at the given slots that satisfy \<open>P\<close>, in the order of the slots.\<close>

definition hits :: "(RemoteAddr \<Rightarrow> bool) \<Rightarrow> RemoteAddr option list \<Rightarrow> nat list \<Rightarrow> RemoteAddr list" where
  "hits P ss is = filter P (flatten (map ((!) ss) is))"

text \<open>The state of a removal loop: the addresses are unique and every occupied slot is counted.\<close>

definition counted :: "SourceTable \<Rightarrow> bool" where
  "counted t \<longleftrightarrow> unique_ips (slots t) \<and> card (occupied (slots t)) = n_sources t"

text \<open>The table once the hits among the slots \<open>is\<close> are cleared.\<close>

definition cleared :: "(RemoteAddr \<Rightarrow> bool) \<Rightarrow> nat list \<Rightarrow> SourceTable \<Rightarrow> SourceTable \<Rightarrow> bool" where
  "cleared P is t t' \<longleftrightarrow> counted t' \<and> seed t' = seed t \<and> length (slots t') = length (slots t) \<and>
     n_sources t' + length (hits P (slots t) is) = n_sources t \<and>
     (\<forall>j < length (slots t). slots t' ! j =
        (case slots t ! j of Some r \<Rightarrow> if j \<in> set is \<and> P r then None else Some r | None \<Rightarrow> None))"

lemma hits_Cons:
  "hits P ss (i # is) = (case ss ! i of Some r \<Rightarrow> if P r then [r] else [] | None \<Rightarrow> []) @ hits P ss is"
  by (cases "ss ! i") (auto simp: hits_def)

lemma hits_update: "i \<notin> set is \<Longrightarrow> hits P (ss[i := v]) is = hits P ss is"
  unfolding hits_def by (metis (no_types, lifting) map_eq_conv nth_list_update_neq)

lemma clear_one:
  assumes "counted t" "i < length (slots t)" "slots t ! i = Some r"
  obtains t1 t2 where "set_slot t i None = Some t1" "dec_sources t1 = Some t2" "counted t2"
    "t2 = t\<lparr>slots := (slots t)[i := None], n_sources := n_sources t - 1\<rparr>" "0 < n_sources t"
proof -
  have i: "i \<in> occupied (slots t)" using assms by (simp add: occupied_def)
  then have pos: "0 < n_sources t"
    using assms(1) card_gt_0_iff [of "occupied (slots t)"] by (auto simp: counted_def)
  then show ?thesis
    using assms i
    by (intro that [of "t\<lparr>slots := (slots t)[i := None]\<rparr>"])
      (auto simp: set_slot_def dec_sources_def counted_def unique_ips_clear occupied_clear)
qed

lemma cleared_Nil: "counted t \<Longrightarrow> cleared P [] t t"
  by (auto simp: cleared_def hits_def split: option.splits)

lemma cleared_skip:
  assumes "cleared P is t t'" "slots t ! i = None \<or> (\<exists>r. slots t ! i = Some r \<and> \<not> P r)"
  shows "cleared P (i # is) t t'"
  using assms by (auto simp: cleared_def hits_Cons split: option.splits if_splits)

lemma cleared_hit:
  assumes "cleared P is (t\<lparr>slots := (slots t)[i := None], n_sources := n_sources t - 1\<rparr>) t'"
    and "i < length (slots t)" "slots t ! i = Some r" "P r" "i \<notin> set is" "0 < n_sources t"
  shows "cleared P (i # is) t t'"
proof -
  have "slots t' ! j =
      (case slots t ! j of Some r \<Rightarrow> if j \<in> set (i # is) \<and> P r then None else Some r | None \<Rightarrow> None)"
    if "j < length (slots t)" for j
    using assms that by (cases "j = i") (auto simp: cleared_def split: option.splits)
  then show ?thesis using assms by (auto simp: cleared_def hits_Cons hits_update)
qed

lemma remove_by_id_loop_spec:
  assumes "counted t" "distinct is" "\<forall>i \<in> set is. i < length (slots t)"
  shows "\<exists>t'. remove_by_id_loop P is t = Some (t', hits P (slots t) is) \<and> cleared P is t t'"
  using assms
proof (induction "is" arbitrary: t)
  case Nil
  then show ?case using cleared_Nil by (simp add: hits_def)
next
  case (Cons i "is")
  show ?case
  proof (cases "\<exists>r. slots t ! i = Some r \<and> P r")
    case True
    then obtain r where r: "slots t ! i = Some r" "P r" by blast
    obtain t1 t2 where t2: "set_slot t i None = Some t1" "dec_sources t1 = Some t2" "counted t2"
      "t2 = t\<lparr>slots := (slots t)[i := None], n_sources := n_sources t - 1\<rparr>" "0 < n_sources t"
      using clear_one [OF Cons.prems(1) _ r(1)] Cons.prems(3) by auto
    obtain t' where "remove_by_id_loop P is t2 = Some (t', hits P (slots t2) is)" "cleared P is t2 t'"
      using Cons.IH [OF t2(3)] Cons.prems t2(4) by auto
    moreover have "hits P (slots t2) is = hits P (slots t) is" using Cons.prems(2) t2(4) by (simp add: hits_update)
    ultimately show ?thesis
      using cleared_hit [of P "is" t i t' r] r t2 Cons.prems by (auto simp: hits_Cons)
  next
    case False
    then show ?thesis
      using Cons.IH [OF Cons.prems(1)] Cons.prems cleared_skip [of P "is" t _ i]
      by (cases "slots t ! i") (auto simp: hits_Cons)
  qed
qed

text \<open>Clearing all slots and rehashing keeps exactly the other records.\<close>

lemma cleared_rehash:
  assumes wf: "wf_sources t" and cl: "cleared P is t t1" and all: "set is = {..<length (slots t)}"
  obtains t' where "rehash t1 (n_sources t1) = Some t'" "wf_sources t'"
    "\<And>r. r \<in> records t' \<longleftrightarrow> r \<in> records t \<and> \<not> P r"
proof -
  have at: "slots t1 ! j = Some r \<longleftrightarrow> slots t ! j = Some r \<and> \<not> P r" if "j < length (slots t)" for j r
    using cl that all by (auto simp: cleared_def split: option.splits)
  have rec: "r \<in> records t1 \<longleftrightarrow> r \<in> records t \<and> \<not> P r" for r
    using cl at by (auto simp: records_def in_set_conv_nth cleared_def)
  obtain t' where "rehash t1 (n_sources t1) = Some t'" "wf_sources t'" "records t' = records t1"
  proof (rule rehash_wf [of t1])
    show "is_valid_family (ip r)" if "r \<in> records t1" for r
      using that rec wf_sourcesD(7) [OF wf] by blast
  qed (use cl wf_sourcesD(6) [OF wf] in \<open>auto simp: cleared_def counted_def\<close>)
  then show ?thesis using that rec by auto
qed

definition drop_where :: "(RemoteAddr \<Rightarrow> bool) \<Rightarrow> (IpKey \<rightharpoonup> u16) \<Rightarrow> IpKey \<rightharpoonup> u16" where
  "drop_where P m k = (case m k of Some p \<Rightarrow> if P \<lparr>ip = k, port = p\<rparr> then None else Some p | None \<Rightarrow> None)"

lemma port_of_drop_where:
  assumes "wf_sources t" "wf_sources t'" "\<And>r. r \<in> records t' \<longleftrightarrow> r \<in> records t \<and> \<not> P r"
  shows "port_of t' = drop_where P (port_of t)"
  by (rule port_of_eqI [OF wf_sourcesD(2) [OF assms(2)]])
    (auto simp: assms(3) drop_where_def simp flip: port_of_records [OF wf_sourcesD(2) [OF assms(1)]]
      split: option.splits)

lemma wf_counted: "wf_sources t \<Longrightarrow> counted t"
  using wf_sourcesD by (simp add: counted_def)

lemma hits_all: "hits P ss [0..<length ss] = filter P (flatten ss)"
  by (simp add: hits_def map_nth)

lemma flatten_rev: "flatten (rev xs) = rev (flatten xs)"
  by (simp add: flatten_def map_filter_def rev_filter [symmetric] rev_map)

lemma hits_rev: "hits P ss (rev is) = rev (hits P ss is)"
  by (simp add: hits_def rev_map [symmetric] flatten_rev rev_filter)

lemma add_sources_Some: "in_i32 (sources p + d) \<Longrightarrow> add_sources d p = Some (p\<lparr>sources := sources p + d\<rparr>)"
  by (simp add: add_sources_def i32_add_def)

lemma add_confirmed_Some:
  "in_i32 (confirmed_sources p + d) \<Longrightarrow> add_confirmed d p = Some (p\<lparr>confirmed_sources := confirmed_sources p + d\<rparr>)"
  by (simp add: add_confirmed_def i32_add_def)

text \<open>A pool charged for a list of removed records.\<close>

definition charge :: "(RemoteAddr \<Rightarrow> bool) \<Rightarrow> RemoteAddr list \<Rightarrow> SourcePool \<Rightarrow> SourcePool" where
  "charge is_tentative rs p =
     p\<lparr>sources := sources p - int (length rs),
       confirmed_sources := confirmed_sources p - int (length (filter (\<lambda>r. \<not> is_tentative r) rs))\<rparr>"

definition chargeable :: "(RemoteAddr \<Rightarrow> bool) \<Rightarrow> RemoteAddr list \<Rightarrow> SourcePool \<Rightarrow> bool" where
  "chargeable is_tentative rs p \<longleftrightarrow> in_i32 (sources p) \<and> in_i32 (confirmed_sources p) \<and>
     in_i32 (sources (charge is_tentative rs p)) \<and> in_i32 (confirmed_sources (charge is_tentative rs p))"

lemma charge_one:
  assumes "chargeable T (r # rs) p"
  obtains p1 p2 where "add_sources (- 1) p = Some p1"
    "(if \<not> T r then add_confirmed (- 1) p1 else Some p1) = Some p2"
    "chargeable T rs p2" "charge T rs p2 = charge T (r # rs) p"
proof (rule that)
  show "add_sources (- 1) p = Some (p\<lparr>sources := sources p + - 1\<rparr>)"
    using assms by (intro add_sources_Some) (auto simp: chargeable_def charge_def in_i32_def)
  show "(if \<not> T r then add_confirmed (- 1) (p\<lparr>sources := sources p + - 1\<rparr>)
         else Some (p\<lparr>sources := sources p + - 1\<rparr>)) = Some (charge T [r] p)"
    using assms by (cases "T r") (auto simp: chargeable_def charge_def in_i32_def add_confirmed_def i32_add_def)
  show "chargeable T rs (charge T [r] p)" "charge T rs (charge T [r] p) = charge T (r # rs) p"
    using assms by (auto simp: chargeable_def charge_def in_i32_def split: if_splits)
qed

lemma remove_pool_loop_spec:
  fixes T only
  defines "P Q \<equiv> \<lambda>r. Q r \<and> (\<not> only \<or> T r)"
  assumes "counted t" "distinct is" "\<forall>i \<in> set is. i < length (slots t)" "chargeable T (hits (P Q) (slots t) is) p"
  shows "\<exists>t'. remove_pool_loop Q T only is (t, p) = Some (t', charge T (hits (P Q) (slots t) is) p) \<and>
     cleared (P Q) is t t'"
  using assms(2-)
proof (induction "is" arbitrary: t p)
  case Nil
  then show ?case using cleared_Nil by (simp add: hits_def charge_def)
next
  case (Cons i "is")
  show ?case
  proof (cases "\<exists>r. slots t ! i = Some r \<and> P Q r")
    case True
    then obtain r where r: "slots t ! i = Some r" "P Q r" by blast
    obtain t1 t2 where t2: "set_slot t i None = Some t1" "dec_sources t1 = Some t2" "counted t2"
      "t2 = t\<lparr>slots := (slots t)[i := None], n_sources := n_sources t - 1\<rparr>" "0 < n_sources t"
      using clear_one [OF Cons.prems(1) _ r(1)] Cons.prems(3) by auto
    have h: "hits (P Q) (slots t) (i # is) = r # hits (P Q) (slots t) is" using r by (simp add: hits_Cons)
    obtain p1 p2 where p2: "add_sources (- 1) p = Some p1"
      "(if \<not> T r then add_confirmed (- 1) p1 else Some p1) = Some p2"
      "chargeable T (hits (P Q) (slots t) is) p2"
      "charge T (hits (P Q) (slots t) is) p2 = charge T (hits (P Q) (slots t) (i # is)) p"
      using charge_one Cons.prems(4) unfolding h by blast
    have h2: "hits (P Q) (slots t2) is = hits (P Q) (slots t) is" using Cons.prems(2) t2(4) by (simp add: hits_update)
    obtain t' where t': "remove_pool_loop Q T only is (t2, p2) = Some (t', charge T (hits (P Q) (slots t) is) p2)"
      "cleared (P Q) is t2 t'"
      using Cons.IH [OF t2(3)] Cons.prems t2(4) p2(3) by (auto simp: hits_update)
    moreover have "cleared (P Q) (i # is) t t'"
      using cleared_hit [of "P Q" "is" t i t' r] t'(2) r t2(4,5) Cons.prems by auto
    ultimately show ?thesis
      using r t2(1,2) p2 by (cases "T r") (auto simp: P_def)
  next
    case False
    then have "remove_pool_loop Q T only (i # is) (t, p) = remove_pool_loop Q T only is (t, p)"
      "hits (P Q) (slots t) (i # is) = hits (P Q) (slots t) is"
      by (auto simp: P_def hits_Cons split: option.splits)
    moreover have "cleared (P Q) (i # is) t t'" if "cleared (P Q) is t t'" for t'
      using cleared_skip [OF that] False by (cases "slots t ! i") auto
    moreover obtain t' where "remove_pool_loop Q T only is (t, p) = Some (t', charge T (hits (P Q) (slots t) is) p)"
      "cleared (P Q) is t t'"
      using Cons.IH [OF Cons.prems(1), of p] Cons.prems calculation(2) by auto
    ultimately show ?thesis by (simp only:) blast
  qed
qed

text \<open>
  C6. Removing the sources of a pool (all of them, or only the tentative ones) from a well-formed table
  never panics as long as the pool's counters stay in range: the table keeps exactly the other sources,
  stays well-formed, and the pool is charged one source per removed record and one confirmed source
  per removed record that was not tentative.
\<close>

theorem remove_pool_sources_exact:
  assumes "wf_sources t"
    and "chargeable T (filter (\<lambda>r. Q r \<and> (\<not> only \<or> T r)) (flatten (slots t))) p"
  shows "\<exists>t' p'. remove_pool_sources t p Q T only = Some (t', p') \<and> wf_sources t' \<and>
     port_of t' = drop_where (\<lambda>r. Q r \<and> (\<not> only \<or> T r)) (port_of t) \<and>
     p' = charge T (filter (\<lambda>r. Q r \<and> (\<not> only \<or> T r)) (flatten (slots t))) p"
proof -
  let ?P = "\<lambda>r. Q r \<and> (\<not> only \<or> T r)" and ?is = "rev [0..<length (slots t)]"
  let ?h = "hits ?P (slots t) ?is" and ?f = "filter ?P (flatten (slots t))"
  have h: "?h = rev ?f" by (simp add: hits_rev hits_all)
  then have ch: "charge T ?h p = charge T ?f p" by (simp add: charge_def rev_filter [symmetric])
  with assms(2) have "chargeable T ?h p" by (simp add: chargeable_def)
  then obtain t1 where t1: "remove_pool_loop Q T only ?is (t, p) = Some (t1, charge T ?h p)"
    "cleared ?P ?is t t1"
    using remove_pool_loop_spec [OF wf_counted [OF assms(1)], of ?is T Q only p] by auto
  obtain t' where t': "rehash t1 (n_sources t1) = Some t'" "wf_sources t'"
    "\<And>r. r \<in> records t' \<longleftrightarrow> r \<in> records t \<and> \<not> ?P r"
    using cleared_rehash [OF assms(1) t1(2)] by (auto simp: atLeast0LessThan)
  moreover have "port_of t' = drop_where ?P (port_of t)"
    by (rule port_of_drop_where [OF assms(1) t'(2,3)])
  ultimately show ?thesis using t1 ch by (auto simp: remove_pool_sources_def)
qed

lemma nsr_remove_sources_by_id_spec:
  assumes "wf_sources t"
  shows "\<exists>t'. nsr_remove_sources_by_id t Q = Some (t', filter Q (flatten (slots t))) \<and> wf_sources t' \<and>
     port_of t' = drop_where Q (port_of t)"
proof -
  obtain t1 where t1: "remove_by_id_loop Q [0..<length (slots t)] t =
      Some (t1, filter Q (flatten (slots t)))" "cleared Q [0..<length (slots t)] t t1"
    using remove_by_id_loop_spec [OF wf_counted [OF assms], of "[0..<length (slots t)]" Q]
    by (auto simp: hits_all)
  obtain t' where t': "rehash t1 (n_sources t1) = Some t'" "wf_sources t'"
    "\<And>r. r \<in> records t' \<longleftrightarrow> r \<in> records t \<and> \<not> Q r"
    using cleared_rehash [OF assms t1(2)] by (auto simp: atLeast0LessThan)
  then show ?thesis using t1 port_of_drop_where [OF assms t'(2,3)]
    by (auto simp: nsr_remove_sources_by_id_def)
qed

section \<open>Resolved names\<close>

text \<open>Each resolved address of a pool is one more \<open>add_source\<close>; refused addresses change nothing.\<close>

fun pool_adds :: "RemoteAddr list \<Rightarrow> (IpKey \<rightharpoonup> u16) \<Rightarrow> (IpKey \<rightharpoonup> u16) \<times> nat" where
  "pool_adds [] m = (m, 0)"
| "pool_adds (a # as) m =
     (if add_status m a True True = Success
      then apsnd Suc (pool_adds as (m(ip a \<mapsto> port a)))
      else pool_adds as m)"

lemma process_resolved_name_pool:
  assumes "wf_sources t" "pool_id \<noteq> INVALID_POOL"
    and "in_i32 (sources p)" "in_i32 (sources p + 1)" "in_i32 (confirmed_sources p)"
  obtains t' p' where "process_resolved_name t p slot a pool_id = Some (t', p')" "wf_sources t'"
    "add_status (port_of t) a True True = Success \<Longrightarrow> port_of t' = (port_of t)(ip a \<mapsto> port a) \<and>
       p' = p\<lparr>sources := sources p + 1\<rparr>"
    "add_status (port_of t) a True True \<noteq> Success \<Longrightarrow> t' = t \<and> p' = p"
proof (cases "add_status (port_of t) a True True = Success")
  case True
  then show ?thesis using add_source_Success [OF assms(1) True] assms that
    by (auto simp: process_resolved_name_def nsr_add_source_by_name_def add_sources_def add_confirmed_def
        i32_add_def)
next
  case False
  then show ?thesis using add_source_refused [OF assms(1) False] assms that
    by (auto simp: process_resolved_name_def nsr_add_source_by_name_def)
qed

lemma process_resolved_names_pool:
  assumes "wf_sources t" "pool_id \<noteq> INVALID_POOL"
    and "in_i32 (sources p)" "in_i32 (sources p + int (length as))" "in_i32 (confirmed_sources p)"
  shows "\<exists>t'. process_resolved_names slot pool_id as (t, p) =
       Some (t', p\<lparr>sources := sources p + int (snd (pool_adds as (port_of t)))\<rparr>) \<and>
     wf_sources t' \<and> port_of t' = fst (pool_adds as (port_of t))"
  using assms
proof (induction "as" arbitrary: t p)
  case (Cons a "as")
  have "in_i32 (sources p + 1)" using Cons.prems(3,4) by (simp add: in_i32_def)
  with Cons.prems obtain t1 p1 where t1: "process_resolved_name t p slot a pool_id = Some (t1, p1)"
    "wf_sources t1"
    "add_status (port_of t) a True True = Success \<Longrightarrow> port_of t1 = (port_of t)(ip a \<mapsto> port a) \<and>
       p1 = p\<lparr>sources := sources p + 1\<rparr>"
    "add_status (port_of t) a True True \<noteq> Success \<Longrightarrow> t1 = t \<and> p1 = p"
    using process_resolved_name_pool [of t pool_id p slot a] by metis
  show ?case
  proof (cases "add_status (port_of t) a True True = Success")
    case True
    then show ?thesis using t1(1) t1(3) [OF True] Cons.IH [OF t1(2), of p1] Cons.prems
      by (auto simp: in_i32_def algebra_simps simp del: fun_upd_apply)
  next
    case False
    then show ?thesis using t1(1) t1(4) [OF False] Cons.IH [OF Cons.prems(1), of p] Cons.prems
      by (auto simp: in_i32_def)
  qed
qed simp

text \<open>
  C7. When the name of a pool resolves to a list of addresses, the handler adds the addresses one by one:
  it never panics while the pool's counter has room, the table stays well-formed and holds exactly the
  additions the abstract map accepts, and \<open>sources\<close> grows by the number of accepted addresses, the
  other counters being untouched.
\<close>

theorem name_resolve_handler_pool:
  assumes "wf_sources t" "pool_id \<noteq> INVALID_POOL" "as \<noteq> []"
    and "in_i32 (sources p)" "in_i32 (sources p + int (length as))" "in_i32 (confirmed_sources p)"
  shows "\<exists>t'. name_resolve_handler t p slot as pool_id =
       Some (t', p\<lparr>sources := sources p + int (snd (pool_adds as (port_of t)))\<rparr>) \<and>
     wf_sources t' \<and> port_of t' = fst (pool_adds as (port_of t))"
  using process_resolved_names_pool [OF assms(1,2,4-6)] assms(3) by (simp add: name_resolve_handler_def)

text \<open>
  A name of a single source with several addresses: the first change rehashes the table and the
  handler's slot index may then name another source, whose address is overwritten by the second.
  Here the table holds 0.0.0.1 and 0.0.0.5, the name of the first resolves to 0.0.0.6 and 0.0.0.7,
  and the unrelated 0.0.0.5 is lost.
\<close>

definition two_sources :: SourceTable where
  "two_sources = \<lparr>seed = 0, slots = [Some \<lparr>ip = V4 5, port = 123\<rparr>, None, None, Some \<lparr>ip = V4 1, port = 123\<rparr>],
     n_sources = 2\<rparr>"

definition no_pool :: SourcePool where
  "no_pool = \<lparr>sources = 0, unresolved_sources = 0, confirmed_sources = 0, max_sources = 0\<rparr>"

lemma two_sources_built:
  "run_ops table_step [AddSource \<lparr>ip = V4 1, port = 123\<rparr> False True, AddSource \<lparr>ip = V4 5, port = 123\<rparr> False True]
     (new_sources 0) = Some (two_sources, [Success, Success])"
  by code_simp

lemma second_address_hits_other_source:
  "map_option (\<lambda>(t, p). slots t)
     (name_resolve_handler two_sources no_pool (snd (find_slot two_sources (V4 1)))
       [\<lparr>ip = V4 6, port = 123\<rparr>, \<lparr>ip = V4 7, port = 123\<rparr>] INVALID_POOL) =
   Some [None, Some \<lparr>ip = V4 7, port = 123\<rparr>, Some \<lparr>ip = V4 6, port = 123\<rparr>, None]"
  by code_simp

lemma two_sources_wf: "wf_sources two_sources"
proof -
  obtain t' where "run_ops table_step [AddSource \<lparr>ip = V4 1, port = 123\<rparr> False True,
      AddSource \<lparr>ip = V4 5, port = 123\<rparr> False True] (new_sources 0) = Some t'" "wf_sources (fst t')"
    using st.steps_refine [OF new_sources_wf(1), of "[AddSource \<lparr>ip = V4 1, port = 123\<rparr> False True,
      AddSource \<lparr>ip = V4 5, port = 123\<rparr> False True]" 0] by (auto simp del: run_ops.simps)
  then show ?thesis unfolding two_sources_built by auto
qed

theorem remove_pool_sources_exact_witness:
  "\<exists>t' p'. remove_pool_sources two_sources (no_pool\<lparr>sources := 2, confirmed_sources := 1\<rparr>)
       (\<lambda>r. True) (\<lambda>r. ip r = V4 5) True = Some (t', p') \<and> wf_sources t' \<and>
     port_of t' = drop_where (\<lambda>r. True \<and> (\<not> True \<or> ip r = V4 5)) (port_of two_sources) \<and>
     p' = charge (\<lambda>r. ip r = V4 5) (filter (\<lambda>r. True \<and> (\<not> True \<or> ip r = V4 5)) (flatten (slots two_sources)))
       (no_pool\<lparr>sources := 2, confirmed_sources := 1\<rparr>)"
  by (rule remove_pool_sources_exact [OF two_sources_wf]) code_simp

theorem name_resolve_handler_pool_witness:
  "\<exists>t'. name_resolve_handler two_sources no_pool 0 [\<lparr>ip = V4 6, port = 123\<rparr>, \<lparr>ip = V4 1, port = 123\<rparr>] 0 =
       Some (t', no_pool\<lparr>sources := sources no_pool + int (snd (pool_adds
         [\<lparr>ip = V4 6, port = 123\<rparr>, \<lparr>ip = V4 1, port = 123\<rparr>] (port_of two_sources)))\<rparr>) \<and>
     wf_sources t' \<and>
     port_of t' = fst (pool_adds [\<lparr>ip = V4 6, port = 123\<rparr>, \<lparr>ip = V4 1, port = 123\<rparr>] (port_of two_sources))"
  by (rule name_resolve_handler_pool [OF two_sources_wf]) code_simp+

end
