(* ===== verification/Ext.thy ===== *)
theory Ext
  imports Prelude
begin

text \<open>
  NTP extension fields and the packet validator: \<open>crates/chrony-rs-core/src/ntp/ext.rs\<close> and
  \<open>ntp/parse.rs\<close>. Lengths and offsets are \<open>i32\<close> in the code and \<open>int\<close> here, with the checked
  operations of the prelude where a sum can leave the range; sums of lengths that were checked
  against the packet length are plain. A packet buffer (\<open>NtpPacketBuf\<close>) is its byte vector.
\<close>

section \<open>Constants and data\<close>

definition EF_HEADER_LEN :: int where "EF_HEADER_LEN = 4"
definition NTP_HEADER_LENGTH :: int where "NTP_HEADER_LENGTH = 48"
definition NTP_MIN_EF_LENGTH :: int where "NTP_MIN_EF_LENGTH = 16"
definition NTP_MAX_V4_MAC_LENGTH :: int where "NTP_MAX_V4_MAC_LENGTH = 4 + 20"
definition MAX_HASH_LENGTH :: int where "MAX_HASH_LENGTH = 64"
definition NTP_MAX_MAC_LENGTH :: int where "NTP_MAX_MAC_LENGTH = 4 + MAX_HASH_LENGTH"
definition NTP_MAX_EXTENSIONS_LENGTH :: int where
  "NTP_MAX_EXTENSIONS_LENGTH = 1024 + NTP_MAX_MAC_LENGTH"
definition NTP_PACKET_SIZE :: int where
  "NTP_PACKET_SIZE = NTP_HEADER_LENGTH + NTP_MAX_EXTENSIONS_LENGTH"

lemmas ext_consts = EF_HEADER_LEN_def NTP_HEADER_LENGTH_def NTP_MIN_EF_LENGTH_def
  NTP_MAX_V4_MAC_LENGTH_def MAX_HASH_LENGTH_def NTP_MAX_MAC_LENGTH_def NTP_MAX_EXTENSIONS_LENGTH_def
  NTP_PACKET_SIZE_def

definition lvm_to_version :: "u8 \<Rightarrow> u8" where
  "lvm_to_version lvm = drop_bit 3 lvm AND 0x7"

record ParsedField =
  field_length :: int
  field_type :: int
  body_offset :: nat
  body_length :: int

type_synonym NtpPacketBuf = bytes

definition new_packet_buf :: NtpPacketBuf where
  "new_packet_buf = replicate (nat NTP_PACKET_SIZE) 0"

definition get_lvm :: "NtpPacketBuf \<Rightarrow> u8 run" where
  "get_lvm packet = index packet 0"

definition set_lvm :: "NtpPacketBuf \<Rightarrow> u8 \<Rightarrow> NtpPacketBuf run" where
  "set_lvm packet lvm = put packet 0 [lvm]"

record NtpPacketInfo =
  info_length :: int
  version :: int
  leap :: int
  mode :: int
  ext_fields :: int
  ext_field_flags :: int
  auth_mode :: int
  mac_start :: int
  mac_length :: int
  mac_key_id :: u32

definition default_info :: NtpPacketInfo where
  "default_info = \<lparr>info_length = 0, version = 0, leap = 0, mode = 0, ext_fields = 0, ext_field_flags = 0,
     auth_mode = 0, mac_start = 0, mac_length = 0, mac_key_id = 0\<rparr>"

section \<open>Writing fields\<close>

text \<open>A writer returns the buffer with its result; on a refusal the result is \<open>None\<close>.\<close>

definition format_field ::
  "bytes \<Rightarrow> int \<Rightarrow> int \<Rightarrow> int \<Rightarrow> int \<Rightarrow> (bytes \<times> (int \<times> nat) option) run" where
  "format_field buffer buffer_length start ftype blen =
     (if buffer_length < 0 \<or> start < 0 \<or> buffer_length \<le> start \<or>
         buffer_length - start < EF_HEADER_LEN \<or> start mod 4 \<noteq> 0
      then ret (buffer, None)
      else if blen < 0 then ret (buffer, None)
      else do {
        total \<leftarrow> i32_add EF_HEADER_LEN blen;
        if total > 0xffff then ret (buffer, None)
        else do {
          h \<leftarrow> i32_add start EF_HEADER_LEN;
          e \<leftarrow> i32_add h blen;
          if e > buffer_length \<or> blen mod 4 \<noteq> 0 then ret (buffer, None)
          else do {
            let s = nat start;
            buffer \<leftarrow> put buffer s (be_bytes 2 (word_of_int ftype :: u16));
            buffer \<leftarrow> put buffer (s + 2) (be_bytes 2 (word_of_int total :: u16));
            ret (buffer, Some (total, s + nat EF_HEADER_LEN))
          }
        }
      })"

definition set_field :: "bytes \<Rightarrow> int \<Rightarrow> int \<Rightarrow> int \<Rightarrow> bytes \<Rightarrow> (bytes \<times> int option) run" where
  "set_field buffer buffer_length start ftype body = do {
     (buffer, r) \<leftarrow> format_field buffer buffer_length start ftype (as_i32 (length body));
     case r of
       None \<Rightarrow> ret (buffer, None)
     | Some (len, body_off) \<Rightarrow> do {
         buffer \<leftarrow> put buffer body_off body;
         ret (buffer, Some len)
       }
   }"

definition add_blank_field ::
  "NtpPacketBuf \<Rightarrow> NtpPacketInfo \<Rightarrow> int \<Rightarrow> int \<Rightarrow> (NtpPacketBuf \<times> NtpPacketInfo \<times> nat option) run" where
  "add_blank_field packet info ftype blen =
     (let len = info_length info in
      if \<not> (NTP_HEADER_LENGTH \<le> len \<and> len < NTP_PACKET_SIZE) \<or> len mod 4 \<noteq> 0 then ret (packet, info, None)
      else if version info \<noteq> 4 then ret (packet, info, None)
      else do {
        (packet, r) \<leftarrow> format_field packet NTP_PACKET_SIZE len ftype blen;
        case r of
          None \<Rightarrow> ret (packet, info, None)
        | Some (ef_length, body_off) \<Rightarrow>
            if ef_length < NTP_MIN_EF_LENGTH then ret (packet, info, None)
            else do {
              n \<leftarrow> i32_add (info_length info) ef_length;
              c \<leftarrow> i32_add (ext_fields info) 1;
              ret (packet, info\<lparr>info_length := n, ext_fields := c\<rparr>, Some body_off)
            }
      })"

definition add_field ::
  "NtpPacketBuf \<Rightarrow> NtpPacketInfo \<Rightarrow> int \<Rightarrow> bytes \<Rightarrow> (NtpPacketBuf \<times> NtpPacketInfo \<times> bool) run" where
  "add_field packet info ftype body = do {
     (packet, info, r) \<leftarrow> add_blank_field packet info ftype (as_i32 (length body));
     case r of
       Some off \<Rightarrow> do {
         packet \<leftarrow> put packet off body;
         ret (packet, info, True)
       }
     | None \<Rightarrow> ret (packet, info, False)
   }"

section \<open>Reading fields\<close>

text \<open>The read \<open>u16::from_be_bytes([buf[o], buf[o + 1]]) as i32\<close>.\<close>

definition rd_u16 :: "bytes \<Rightarrow> nat \<Rightarrow> int run" where
  "rd_u16 buf off = do { a \<leftarrow> index buf off; b \<leftarrow> index buf (off + 1); ret (uint (be_word [a, b] :: u16)) }"

definition parse_single_field :: "bytes \<Rightarrow> int \<Rightarrow> int \<Rightarrow> ParsedField option run" where
  "parse_single_field buffer buffer_length start =
     (if buffer_length < 0 \<or> start < 0 \<or> buffer_length \<le> start \<or> buffer_length - start < EF_HEADER_LEN
      then ret None
      else do {
        let s = nat start;
        ef_length \<leftarrow> rd_u16 buffer (s + 2);
        if ef_length < EF_HEADER_LEN then ret None
        else do {
          e \<leftarrow> i32_add start ef_length;
          if e > buffer_length \<or> ef_length mod 4 \<noteq> 0 then ret None
          else do {
            t \<leftarrow> rd_u16 buffer s;
            ret (Some \<lparr>field_length = ef_length, field_type = t, body_offset = s + nat EF_HEADER_LEN,
                       body_length = ef_length - EF_HEADER_LEN\<rparr>)
          }
        }
      })"

definition parse_field :: "NtpPacketBuf \<Rightarrow> int \<Rightarrow> int \<Rightarrow> ParsedField option run" where
  "parse_field packet packet_length start =
     (if packet_length \<le> NTP_HEADER_LENGTH \<or> packet_length > NTP_PACKET_SIZE \<or> packet_length \<le> start \<or>
         packet_length mod 4 \<noteq> 0 \<or> start < NTP_HEADER_LENGTH \<or> start mod 4 \<noteq> 0
      then ret None
      else do {
        lvm \<leftarrow> get_lvm packet;
        if lvm_to_version lvm \<noteq> 4 then ret None
        else if packet_length - start \<le> NTP_MAX_V4_MAC_LENGTH then ret None
        else do {
          r \<leftarrow> parse_single_field packet packet_length start;
          case r of
            None \<Rightarrow> ret None
          | Some pf \<Rightarrow> ret (if field_length pf < NTP_MIN_EF_LENGTH then None else Some pf)
        }
      })"

definition EF_TYPE_NTS_AUTH :: int where "EF_TYPE_NTS_AUTH = 0x01"
definition EF_TYPE_NTS_COOKIE :: int where "EF_TYPE_NTS_COOKIE = 0x02"
definition EF_TYPE_NTS_NEG :: int where "EF_TYPE_NTS_NEG = 0x03"
definition EF_TYPE_NTS_PORT :: int where "EF_TYPE_NTS_PORT = 0x04"
definition EF_TYPE_EXP_MONO_ROOT :: int where "EF_TYPE_EXP_MONO_ROOT = 0xE001"
definition EF_TYPE_EXP_NET_CORR :: int where "EF_TYPE_EXP_NET_CORR = 0xE002"
definition EF_CRITICAL_BIT :: int where "EF_CRITICAL_BIT = 0x8000"

datatype EfAction = Handled | UnknownCritical | Skip

definition ef_dispatch :: "ParsedField \<Rightarrow> EfAction" where
  "ef_dispatch parsed =
     (if field_type parsed \<in> {EF_TYPE_NTS_AUTH, EF_TYPE_NTS_COOKIE, EF_TYPE_NTS_NEG, EF_TYPE_NTS_PORT}
      then Handled
      else if field_type parsed = EF_TYPE_EXP_MONO_ROOT then Handled
      else if field_type parsed = EF_TYPE_EXP_NET_CORR then Handled
      else if field_type parsed AND EF_CRITICAL_BIT \<noteq> 0 then UnknownCritical
      else Skip)"

text \<open>A parsed field has a length of at least four and ends inside the buffer.\<close>

lemma parse_single_field_bounds:
  assumes "parse_single_field buffer n start = Some (Some pf)"
  shows "0 \<le> start" "4 \<le> field_length pf" "start + field_length pf \<le> n" "field_length pf mod 4 = 0"
    "body_offset pf = nat start + 4" "body_length pf = field_length pf - 4"
  using assms
  by (auto simp: parse_single_field_def Let_def bind_eq_Some_conv ext_consts i32_add_def split: if_splits)

lemma parse_single_field_decreases:
  "parse_single_field buffer n start = Some (Some pf) \<Longrightarrow> nat (n - (start + field_length pf)) < nat (n - start)"
  using parse_single_field_bounds(2,3) [of buffer n start pf] by simp

function ef_loop :: "NtpPacketBuf \<Rightarrow> int \<Rightarrow> int \<Rightarrow> bool run" where
  "ef_loop packet packet_length start =
     (case parse_single_field packet packet_length start of
        None \<Rightarrow> panic
      | Some None \<Rightarrow> ret True
      | Some (Some parsed) \<Rightarrow>
          (case ef_dispatch parsed of
             UnknownCritical \<Rightarrow> ret False
           | _ \<Rightarrow> ef_loop packet packet_length (start + field_length parsed)))"
  by pat_completeness auto
termination
  by (relation "measure (\<lambda>(packet, n, start). nat (n - start))")
    (auto simp: parse_single_field_decreases simp del: zless_nat_conj)

declare ef_loop.simps [simp del]

definition ef_process_all :: "NtpPacketBuf \<Rightarrow> int \<Rightarrow> bool run" where
  "ef_process_all packet packet_length = ef_loop packet packet_length NTP_HEADER_LENGTH"

section \<open>The packet validator\<close>

definition NTP_AUTH_NONE :: int where "NTP_AUTH_NONE = 0"
definition NTP_AUTH_SYMMETRIC :: int where "NTP_AUTH_SYMMETRIC = 1"
definition NTP_AUTH_MSSNTP :: int where "NTP_AUTH_MSSNTP = 2"
definition NTP_AUTH_MSSNTP_EXT :: int where "NTP_AUTH_MSSNTP_EXT = 3"
definition NTP_AUTH_NTS :: int where "NTP_AUTH_NTS = 4"
definition NTP_MIN_COMPAT_VERSION :: int where "NTP_MIN_COMPAT_VERSION = 1"
definition NTP_MAX_COMPAT_VERSION :: int where "NTP_MAX_COMPAT_VERSION = 4"
definition NTP_MIN_MAC_LENGTH :: int where "NTP_MIN_MAC_LENGTH = 4 + 16"
definition NTP_EF_NTS_UNIQUE_IDENTIFIER :: int where "NTP_EF_NTS_UNIQUE_IDENTIFIER = 0x0104"
definition NTP_EF_NTS_COOKIE :: int where "NTP_EF_NTS_COOKIE = 0x0204"
definition NTP_EF_NTS_COOKIE_PLACEHOLDER :: int where "NTP_EF_NTS_COOKIE_PLACEHOLDER = 0x0304"
definition NTP_EF_NTS_AUTH_AND_EEF :: int where "NTP_EF_NTS_AUTH_AND_EEF = 0x0404"
definition NTP_EF_EXP_MONO_ROOT :: int where "NTP_EF_EXP_MONO_ROOT = 0xE001"
definition NTP_EF_EXP_NET_CORRECTION :: int where "NTP_EF_EXP_NET_CORRECTION = 0xE002"
definition NTP_EF_FLAG_EXP_MONO_ROOT :: int where "NTP_EF_FLAG_EXP_MONO_ROOT = 0x1"
definition NTP_EF_FLAG_EXP_NET_CORRECTION :: int where "NTP_EF_FLAG_EXP_NET_CORRECTION = 0x2"
definition NTP_EF_EXP_MONO_ROOT_MAGIC :: u32 where "NTP_EF_EXP_MONO_ROOT_MAGIC = 0xF5BEDD9A"
definition NTP_EF_EXP_NET_CORRECTION_MAGIC :: u32 where "NTP_EF_EXP_NET_CORRECTION_MAGIC = 0x07AC2CEB"
definition EXP_EF_BODY_LENGTH :: int where "EXP_EF_BODY_LENGTH = 24"

lemmas parse_consts = ext_consts NTP_AUTH_NONE_def NTP_AUTH_SYMMETRIC_def NTP_AUTH_MSSNTP_def
  NTP_AUTH_MSSNTP_EXT_def NTP_AUTH_NTS_def NTP_MIN_COMPAT_VERSION_def NTP_MAX_COMPAT_VERSION_def
  NTP_MIN_MAC_LENGTH_def

definition is_zero_data :: "bytes \<Rightarrow> bool" where
  "is_zero_data bs = list_all (\<lambda>b. b = 0) bs"

definition is_exp_ef :: "bytes \<Rightarrow> int \<Rightarrow> u32 \<Rightarrow> bool" where
  "is_exp_ef body expected_body_length magic \<longleftrightarrow>
     as_i32 (length body) = expected_body_length \<and> length body \<ge> 4 \<and> be_word (take 4 body) = magic"

definition rd_u32 :: "bytes \<Rightarrow> int \<Rightarrow> u32 run" where
  "rd_u32 data off = do { b \<leftarrow> slice data (nat off) (nat off + 4); ret (be_word b) }"

text \<open>The classification of one field; \<open>Some None\<close> is the \<open>return None\<close> on an unknown critical field.\<close>

definition classify_field :: "NtpPacketBuf \<Rightarrow> ParsedField \<Rightarrow> NtpPacketInfo \<Rightarrow> NtpPacketInfo option run" where
  "classify_field data ef info =
     (if field_type ef \<in> {NTP_EF_NTS_UNIQUE_IDENTIFIER, NTP_EF_NTS_COOKIE, NTP_EF_NTS_COOKIE_PLACEHOLDER,
           NTP_EF_NTS_AUTH_AND_EEF}
      then ret (Some (info\<lparr>auth_mode := NTP_AUTH_NTS\<rparr>))
      else if field_type ef = NTP_EF_EXP_MONO_ROOT then do {
        body \<leftarrow> slice data (body_offset ef) (body_offset ef + nat (body_length ef));
        ret (Some (if is_exp_ef body EXP_EF_BODY_LENGTH NTP_EF_EXP_MONO_ROOT_MAGIC
                   then info\<lparr>ext_field_flags := ext_field_flags info OR NTP_EF_FLAG_EXP_MONO_ROOT\<rparr> else info))
      }
      else if field_type ef = NTP_EF_EXP_NET_CORRECTION then do {
        body \<leftarrow> slice data (body_offset ef) (body_offset ef + nat (body_length ef));
        ret (Some (if is_exp_ef body EXP_EF_BODY_LENGTH NTP_EF_EXP_NET_CORRECTION_MAGIC
                   then info\<lparr>ext_field_flags := ext_field_flags info OR NTP_EF_FLAG_EXP_NET_CORRECTION\<rparr> else info))
      }
      else case ef_dispatch ef of
        UnknownCritical \<Rightarrow> ret None
      | Handled \<Rightarrow> ret (Some info)
      | Skip \<Rightarrow> ret (Some info))"

lemma parse_field_bounds:
  assumes "parse_field packet n start = Some (Some pf)"
  shows "parse_single_field packet n start = Some (Some pf)" "16 \<le> field_length pf" "48 \<le> start"
    "start mod 4 = 0" "n \<le> NTP_PACKET_SIZE" "24 < n - start"
  using assms by (auto simp: parse_field_def bind_eq_Some_conv ext_consts split: if_splits option.splits)

text \<open>The loop over the fields of an NTPv4 packet: the information so far, the offset, the remainder.\<close>

function parse_loop ::
  "NtpPacketBuf \<Rightarrow> NtpPacketInfo \<Rightarrow> int \<Rightarrow> int \<Rightarrow> (NtpPacketInfo \<times> int \<times> int) option run" where
  "parse_loop packet info parsed remainder =
     (if \<not> remainder > 0 then ret (Some (info, parsed, remainder))
      else if NTP_MIN_MAC_LENGTH \<le> remainder \<and> remainder \<le> NTP_MAX_V4_MAC_LENGTH
      then ret (Some (info, parsed, remainder))
      else case parse_field packet (info_length info) parsed of
          None \<Rightarrow> panic
        | Some None \<Rightarrow> ret None
        | Some (Some ef) \<Rightarrow>
            (case classify_field packet ef info of
               None \<Rightarrow> panic
             | Some None \<Rightarrow> ret None
             | Some (Some info') \<Rightarrow>
                 parse_loop packet (info'\<lparr>ext_fields := ext_fields info' + 1\<rparr>) (parsed + field_length ef)
                   (info_length info' - (parsed + field_length ef))))"
  by pat_completeness auto

lemma classify_field_keeps:
  "classify_field data ef info = Some (Some info') \<Longrightarrow>
     info_length info' = info_length info \<and> version info' = version info \<and> ext_fields info' = ext_fields info \<and>
     mode info' = mode info \<and> leap info' = leap info \<and> mac_start info' = mac_start info \<and>
     mac_length info' = mac_length info \<and> mac_key_id info' = mac_key_id info"
  by (auto simp: classify_field_def bind_eq_Some_conv split: if_splits EfAction.splits)

termination parse_loop
  by (relation "measure (\<lambda>(packet, info, parsed, remainder). nat (info_length info - parsed))")
    (auto dest!: parse_field_bounds(1) classify_field_keeps simp: parse_single_field_decreases
      simp del: zless_nat_conj)

declare parse_loop.simps [simp del]

text \<open>NTPv3 and older: everything after the header is a MAC, possibly an MS-SNTP authenticator.\<close>

definition parse_v3_mac :: "NtpPacketBuf \<Rightarrow> NtpPacketInfo \<Rightarrow> int \<Rightarrow> int \<Rightarrow> NtpPacketInfo option run" where
  "parse_v3_mac packet info parsed remainder = do {
     key \<leftarrow> rd_u32 packet parsed;
     let info = info\<lparr>auth_mode := NTP_AUTH_SYMMETRIC, mac_start := parsed, mac_length := remainder,
           mac_key_id := key\<rparr>;
     if version info = 3 \<and> mac_key_id info \<noteq> 0 then do {
       let start = nat parsed;
       ms \<leftarrow> (if remainder = 20 then do {
                b \<leftarrow> slice packet (start + 4) (start + nat remainder); ret (is_zero_data b) }
              else ret False);
       if ms then ret (Some (info\<lparr>auth_mode := NTP_AUTH_MSSNTP\<rparr>))
       else do {
         mse \<leftarrow> (if remainder = 72 then do {
                   b \<leftarrow> slice packet (start + 8) (start + nat remainder); ret (is_zero_data b) }
                 else ret False);
         ret (Some (if mse then info\<lparr>auth_mode := NTP_AUTH_MSSNTP_EXT\<rparr> else info))
       }
     }
     else ret (Some info)
   }"

text \<open>The fields of an NTPv4 packet and what is left after them.\<close>

definition parse_v4_tail :: "NtpPacketBuf \<Rightarrow> NtpPacketInfo \<Rightarrow> int \<Rightarrow> int \<Rightarrow> NtpPacketInfo option run" where
  "parse_v4_tail packet info parsed remainder = do {
     r \<leftarrow> parse_loop packet info parsed remainder;
     case r of
       None \<Rightarrow> ret None
     | Some (info, parsed, remainder) \<Rightarrow>
         if remainder = 0 then ret (Some info)
         else if remainder \<ge> NTP_MIN_MAC_LENGTH then do {
           key \<leftarrow> rd_u32 packet parsed;
           ret (Some (info\<lparr>auth_mode := NTP_AUTH_SYMMETRIC, mac_start := parsed,
             mac_length := remainder, mac_key_id := key\<rparr>))
         }
         else ret None
   }"

text \<open>The information read off the first byte.\<close>

definition header_info :: "u8 \<Rightarrow> int \<Rightarrow> NtpPacketInfo" where
  "header_info lvm len = default_info\<lparr>info_length := len, version := uint (drop_bit 3 lvm AND 0x7),
     leap := uint (drop_bit 6 lvm AND 0x3), mode := uint (lvm AND 0x7), ext_fields := 0,
     ext_field_flags := 0, auth_mode := NTP_AUTH_NONE\<rparr>"

definition parse_packet :: "NtpPacketBuf \<Rightarrow> int \<Rightarrow> NtpPacketInfo option run" where
  "parse_packet packet len =
     (if len < NTP_HEADER_LENGTH \<or> len mod 4 \<noteq> 0 then ret None
      else do {
        lvm \<leftarrow> index packet 0;
        let info = header_info lvm len;
        if leap info = 3 then ret None
        else if version info < NTP_MIN_COMPAT_VERSION \<or> version info > NTP_MAX_COMPAT_VERSION then ret None
        else do {
          let parsed = NTP_HEADER_LENGTH;
          let remainder = info_length info - parsed;
          if remainder \<le> 0 then ret (Some info)
          else if version info \<le> 3 then parse_v3_mac packet info parsed remainder
          else do {
            nak \<leftarrow> (if remainder = 4 then do { k \<leftarrow> rd_u32 packet parsed; ret (k = 0) } else ret False);
            if nak
            then ret (Some (info\<lparr>auth_mode := NTP_AUTH_SYMMETRIC, mac_start := parsed, mac_length := remainder,
                    mac_key_id := 0\<rparr>))
            else parse_v4_tail packet info parsed remainder
          }
        }
      })"

section \<open>The readers never panic\<close>

lemma rd_u16_Some: "off + 1 < length buf \<Longrightarrow> \<exists>v. rd_u16 buf off = Some v \<and> 0 \<le> v \<and> v < 65536"
  using unsigned_less [of "be_word [buf ! off, buf ! Suc off] :: u16", where 'a = int]
  by (auto simp: rd_u16_def index_def)

lemma rd_u16_range: "rd_u16 buf off = Some v \<Longrightarrow> 0 \<le> v \<and> v < 65536"
  using unsigned_less [of "be_word [buf ! off, buf ! Suc off] :: u16", where 'a = int]
  by (auto simp: rd_u16_def index_def split: if_splits)

lemma parse_single_field_total:
  assumes "n \<le> int (length buffer)" "n < 2 ^ 30"
  shows "\<exists>r. parse_single_field buffer n start = Some r"
proof (cases "n < 0 \<or> start < 0 \<or> n \<le> start \<or> n - start < 4")
  case False
  then have "nat start + 2 + 1 < length buffer" "nat start + 1 < length buffer" using assms(1) by auto
  with rd_u16_Some obtain v t where "rd_u16 buffer (nat start + 2) = Some v" "0 \<le> v" "v < 65536"
    "rd_u16 buffer (nat start) = Some t" by metis
  then show ?thesis using False assms(2)
    by (auto simp: parse_single_field_def ext_consts i32_add_def in_i32_def Let_def)
qed (auto simp: parse_single_field_def ext_consts)

lemma parse_field_total:
  assumes "int (length packet) = NTP_PACKET_SIZE"
  shows "\<exists>r. parse_field packet n start = Some r"
proof (cases "n \<le> NTP_PACKET_SIZE")
  case True
  then have "n \<le> int (length packet)" "n < 2 ^ 30" using assms by (auto simp: ext_consts)
  then obtain r where "parse_single_field packet n start = Some r"
    using parse_single_field_total by blast
  moreover have "0 < length packet" using assms by (auto simp: ext_consts)
  ultimately show ?thesis
    by (cases r) (auto simp: parse_field_def get_lvm_def index_def)
qed (auto simp: parse_field_def)

lemma classify_field_total:
  assumes "body_offset ef + nat (body_length ef) \<le> length data"
  shows "\<exists>r. classify_field data ef info = Some r"
  using assms by (auto simp: classify_field_def slice_def split: EfAction.splits)

lemma body_in_packet:
  assumes "parse_field packet n start = Some (Some ef)" "int (length packet) = NTP_PACKET_SIZE"
  shows "body_offset ef + nat (body_length ef) \<le> length packet"
  using parse_single_field_bounds [OF parse_field_bounds(1) [OF assms(1)]] parse_field_bounds(5) [OF assms(1)]
    assms(2) by (simp add: ext_consts)

text \<open>
  The fields of a packet from an offset on: each is accepted by the field parser where the previous
  one ended, and none is unknown and critical.
\<close>

inductive tiles :: "NtpPacketBuf \<Rightarrow> int \<Rightarrow> int \<Rightarrow> ParsedField list \<Rightarrow> int \<Rightarrow> bool" for packet n where
  tiles_Nil: "tiles packet n start [] start"
| tiles_Cons: "parse_field packet n start = Some (Some f) \<Longrightarrow>
    (\<exists>i i'. classify_field packet f i = Some (Some i')) \<Longrightarrow>
    tiles packet n (start + field_length f) fs e \<Longrightarrow> tiles packet n start (f # fs) e"

inductive_cases tiles_NilE: "tiles packet n start [] e"
inductive_cases tiles_ConsE: "tiles packet n start (f # fs) e"

text \<open>The lengths of the fields add up, and every field is at least sixteen bytes long.\<close>

lemma tiles_sum: "tiles packet n start fs e \<Longrightarrow>
    e = start + sum_list (map field_length fs) \<and> (\<forall>f \<in> set fs. 16 \<le> field_length f) \<and> (fs \<noteq> [] \<longrightarrow> e \<le> n)"
proof (induction rule: tiles.induct)
  case (tiles_Cons start f fs e)
  have "16 \<le> field_length f" "start + field_length f \<le> n"
    using parse_field_bounds(1,2) [OF tiles_Cons.hyps(1)] parse_single_field_bounds(3) by auto
  then show ?case using tiles_Cons.IH tiles_Cons.hyps(3)
    by (cases fs) (auto elim: tiles_NilE)
qed simp

lemma parse_loop_spec:
  assumes "int (length packet) = NTP_PACKET_SIZE" "remainder = info_length info - parsed"
  shows "(\<exists>r. parse_loop packet info parsed remainder = Some r) \<and>
     (\<forall>info' e rem. parse_loop packet info parsed remainder = Some (Some (info', e, rem)) \<longrightarrow>
        (\<exists>fs. tiles packet (info_length info) parsed fs e \<and> ext_fields info' = ext_fields info + int (length fs)) \<and>
        rem = info_length info - e \<and> (rem \<le> 0 \<or> 20 \<le> rem \<and> rem \<le> 24) \<and>
        info_length info' = info_length info \<and> version info' = version info \<and>
        mac_start info' = mac_start info \<and> mac_length info' = mac_length info)"
  using assms
proof (induction packet info parsed remainder rule: parse_loop.induct)
  case (1 packet info parsed remainder)
  show ?case
  proof (cases "remainder > 0 \<and> \<not> (20 \<le> remainder \<and> remainder \<le> 24)")
    case False
    then have "parse_loop packet info parsed remainder = Some (Some (info, parsed, remainder))"
      by (subst parse_loop.simps) (simp add: parse_consts)
    then show ?thesis using 1(3) False by (auto intro!: exI [of _ "[]"] tiles_Nil)
  next
    case True
    then have run: "remainder > 0" "\<not> (NTP_MIN_MAC_LENGTH \<le> remainder \<and> remainder \<le> NTP_MAX_V4_MAC_LENGTH)"
      by (simp_all add: parse_consts)
    obtain r where r: "parse_field packet (info_length info) parsed = Some r"
      using parse_field_total [OF 1(2)] by blast
    show ?thesis
    proof (cases r)
      case None
      then have "parse_loop packet info parsed remainder = Some None"
        using r run(1) by (subst parse_loop.simps) (simp add: if_not_P [OF run(2)])
      then show ?thesis by simp
    next
      case (Some ef)
      obtain c where c: "classify_field packet ef info = Some c"
        using classify_field_total [OF body_in_packet [OF _ 1(2)]] r Some by blast
      show ?thesis
      proof (cases c)
        case None
        then have "parse_loop packet info parsed remainder = Some None"
          using r c Some run(1) by (subst parse_loop.simps) (simp add: if_not_P [OF run(2)])
        then show ?thesis by simp
      next
        case c': (Some info')
        let ?i = "info'\<lparr>ext_fields := ext_fields info' + 1\<rparr>" and ?p = "parsed + field_length ef"
        have step: "parse_loop packet info parsed remainder = parse_loop packet ?i ?p (info_length info' - ?p)"
          using r c Some c' run(1) by (subst parse_loop.simps) (simp add: if_not_P [OF run(2)])
        have keeps: "info_length info' = info_length info" "version info' = version info"
          "ext_fields info' = ext_fields info" "mac_start info' = mac_start info" "mac_length info' = mac_length info"
          using classify_field_keeps c c' by blast+
        have IH: "(\<exists>r. parse_loop packet ?i ?p (info_length info' - ?p) = Some r) \<and>
          (\<forall>info'' e rem. parse_loop packet ?i ?p (info_length info' - ?p) = Some (Some (info'', e, rem)) \<longrightarrow>
            (\<exists>fs. tiles packet (info_length ?i) ?p fs e \<and> ext_fields info'' = ext_fields ?i + int (length fs)) \<and>
            rem = info_length ?i - e \<and> (rem \<le> 0 \<or> 20 \<le> rem \<and> rem \<le> 24) \<and>
            info_length info'' = info_length ?i \<and> version info'' = version ?i \<and>
            mac_start info'' = mac_start ?i \<and> mac_length info'' = mac_length ?i)"
          by (rule 1(1) [OF _ run(2) r Some c c' 1(2)]) (use run in simp_all)
        have tile: "tiles packet (info_length info) parsed (ef # fs) e"
          if "tiles packet (info_length info) ?p fs e" for fs e
          using r Some c c' that by (intro tiles_Cons) auto
        show ?thesis
        proof (intro conjI allI impI)
          show "\<exists>r. parse_loop packet info parsed remainder = Some r" unfolding step using IH by blast
        next
          fix info'' e rem
          assume "parse_loop packet info parsed remainder = Some (Some (info'', e, rem))"
          then have res: "(\<exists>fs. tiles packet (info_length ?i) ?p fs e \<and> ext_fields info'' = ext_fields ?i + int (length fs)) \<and>
            rem = info_length ?i - e \<and> (rem \<le> 0 \<or> 20 \<le> rem \<and> rem \<le> 24) \<and>
            info_length info'' = info_length ?i \<and> version info'' = version ?i \<and>
            mac_start info'' = mac_start ?i \<and> mac_length info'' = mac_length ?i"
            unfolding step using IH by blast
          then obtain fs where fs: "tiles packet (info_length ?i) ?p fs e"
            "ext_fields info'' = ext_fields ?i + int (length fs)" by blast
          then show "\<exists>fs. tiles packet (info_length info) parsed fs e \<and> ext_fields info'' = ext_fields info + int (length fs)"
            using keeps tile [of fs e] by (intro exI [of _ "ef # fs"]) simp
          show "rem \<le> 0 \<or> 20 \<le> rem \<and> rem \<le> 24" using res by blast
          show "rem = info_length info - e"
            "info_length info'' = info_length info" "version info'' = version info"
            "mac_start info'' = mac_start info" "mac_length info'' = mac_length info"
            using res keeps by simp_all
        qed
      qed
    qed
  qed
qed

lemma rd_u32_total: "0 \<le> off \<Longrightarrow> off + 4 \<le> int (length data) \<Longrightarrow> \<exists>v. rd_u32 data off = Some v"
  by (auto simp: rd_u32_def slice_def)

lemma parse_v3_mac_spec:
  assumes "int (length packet) = NTP_PACKET_SIZE"
  shows "\<exists>info'. parse_v3_mac packet info 48 remainder = Some (Some info') \<and> info_length info' = info_length info \<and>
     version info' = version info \<and> leap info' = leap info \<and> ext_fields info' = ext_fields info \<and>
     mac_start info' = 48 \<and> mac_length info' = remainder"
proof -
  obtain k where "rd_u32 packet 48 = Some k"
    using rd_u32_total [of 48 packet] assms by (auto simp: ext_consts)
  moreover have "slice packet 52 68 = Some (take 16 (drop 52 packet))"
    "slice packet 56 120 = Some (take 64 (drop 56 packet))"
    using assms by (auto simp: slice_def ext_consts)
  ultimately show ?thesis by (auto simp: parse_v3_mac_def Let_def)
qed

text \<open>What the validator may say of the tail of an NTPv4 packet.\<close>

definition v4_layout :: "NtpPacketBuf \<Rightarrow> int \<Rightarrow> NtpPacketInfo \<Rightarrow> bool" where
  "v4_layout packet len info \<longleftrightarrow> (\<exists>fs e. tiles packet len 48 fs e \<and> ext_fields info = int (length fs) \<and>
     (e = len \<and> mac_start info = 0 \<and> mac_length info = 0 \<or>
      mac_start info = e \<and> mac_length info = len - e \<and> auth_mode info = NTP_AUTH_SYMMETRIC \<and>
        (20 \<le> mac_length info \<and> mac_length info \<le> 24 \<or>
         fs = [] \<and> mac_length info = 4 \<and> mac_key_id info = 0)))"

lemma parse_v4_tail_spec:
  assumes "int (length packet) = NTP_PACKET_SIZE" "48 < info_length info" "ext_fields info = 0"
    "mac_start info = 0" "mac_length info = 0"
  shows "\<exists>r. parse_v4_tail packet info 48 (info_length info - 48) = Some r \<and>
     (\<forall>info'. r = Some info' \<longrightarrow> v4_layout packet (info_length info) info' \<and>
        info_length info' = info_length info \<and> version info' = version info)"
proof -
  note spec = parse_loop_spec [OF assms(1), of "info_length info - 48" info 48]
  obtain r where r: "parse_loop packet info 48 (info_length info - 48) = Some r" using spec by blast
  show ?thesis
  proof (cases r)
    case (Some x)
    obtain info' e rem where x: "x = (info', e, rem)" by (cases x)
    have "(\<exists>fs. tiles packet (info_length info) 48 fs e \<and> ext_fields info' = ext_fields info + int (length fs)) \<and>
        rem = info_length info - e \<and> (rem \<le> 0 \<or> 20 \<le> rem \<and> rem \<le> 24) \<and>
        info_length info' = info_length info \<and> version info' = version info \<and>
        mac_start info' = mac_start info \<and> mac_length info' = mac_length info"
      using spec r Some x by blast
    then obtain fs where fs: "tiles packet (info_length info) 48 fs e" "rem = info_length info - e"
      "rem \<le> 0 \<or> 20 \<le> rem \<and> rem \<le> 24" "ext_fields info' = int (length fs)"
      "info_length info' = info_length info" "version info' = version info"
      "mac_start info' = 0" "mac_length info' = 0"
      unfolding assms(3-5) by force
    have "info_length info \<le> NTP_PACKET_SIZE" if "fs \<noteq> []"
      using fs(1) that by (cases fs) (auto elim!: tiles_ConsE dest!: parse_field_bounds(5))
    moreover have "0 \<le> sum_list (map field_length fs)"
      using tiles_sum [OF fs(1)] by (intro sum_list_nonneg) fastforce
    moreover have "e = 48 + sum_list (map field_length fs)" using tiles_sum [OF fs(1)] by blast
    ultimately have e: "20 \<le> rem \<Longrightarrow> 0 \<le> e \<and> e + 4 \<le> int (length packet)"
      using fs(2) assms(1) by (cases "fs = []") (auto simp: parse_consts)
    show ?thesis
    proof (cases "20 \<le> rem")
      case True
      then obtain v where "rd_u32 packet e = Some v" using rd_u32_total e by blast
      then have "parse_v4_tail packet info 48 (info_length info - 48) = Some (Some (info'\<lparr>auth_mode := NTP_AUTH_SYMMETRIC,
          mac_start := e, mac_length := rem, mac_key_id := v\<rparr>))"
        using r Some x True by (simp add: parse_v4_tail_def NTP_MIN_MAC_LENGTH_def)
      then show ?thesis using fs True by (auto simp: v4_layout_def)
    next
      case False
      then have "parse_v4_tail packet info 48 (info_length info - 48) = Some (if rem = 0 then Some info' else None)"
        using r Some x by (simp add: parse_v4_tail_def NTP_MIN_MAC_LENGTH_def)
      then show ?thesis using fs by (auto simp: v4_layout_def)
    qed
  qed (use r in \<open>auto simp: parse_v4_tail_def\<close>)
qed

lemma header_info_simps [simp]:
  "info_length (header_info lvm len) = len" "ext_fields (header_info lvm len) = 0"
  "mac_start (header_info lvm len) = 0" "mac_length (header_info lvm len) = 0"
  by (simp_all add: header_info_def default_info_def)

lemma parse_packet_cases:
  assumes "int (length packet) = NTP_PACKET_SIZE"
  shows "\<exists>r. parse_packet packet len = Some r \<and>
     (\<forall>info. r = Some info \<longrightarrow> 48 \<le> len \<and> len mod 4 = 0 \<and> info_length info = len \<and>
        1 \<le> version info \<and> version info \<le> 4 \<and>
        (version info \<le> 3 \<longrightarrow> ext_fields info = 0 \<and> (48 < len \<longrightarrow> mac_start info = 48 \<and> mac_length info = len - 48)) \<and>
        (version info = 4 \<longrightarrow> v4_layout packet len info))"
proof -
  let ?h = "header_info (packet ! 0) len"
  have i0: "index packet 0 = Some (packet ! 0)" using assms by (auto simp: index_def ext_consts)
  obtain k where k: "rd_u32 packet 48 = Some k"
    using rd_u32_total [of 48 packet] assms by (auto simp: ext_consts)
  consider (bad) "len < 48 \<or> len mod 4 \<noteq> 0 \<or> leap ?h = 3 \<or> version ?h < 1 \<or> version ?h > 4"
    | (plain) "len = 48" "1 \<le> version ?h" "version ?h \<le> 4" "leap ?h \<noteq> 3"
    | (old) "48 < len" "len mod 4 = 0" "1 \<le> version ?h" "version ?h \<le> 3" "leap ?h \<noteq> 3"
    | (v4) "48 < len" "len mod 4 = 0" "version ?h = 4" "leap ?h \<noteq> 3"
    by linarith
  then show ?thesis
  proof cases
    case bad
    then have "parse_packet packet len = Some None" using i0 by (auto simp: parse_packet_def parse_consts Let_def)
    then show ?thesis by simp
  next
    case plain
    then have "parse_packet packet len = Some (Some ?h)" using i0 by (auto simp: parse_packet_def parse_consts Let_def)
    then show ?thesis using plain by (auto simp: v4_layout_def intro!: exI [of _ "[]"] tiles_Nil)
  next
    case old
    then have "parse_packet packet len = parse_v3_mac packet ?h 48 (len - 48)"
      using i0 by (auto simp: parse_packet_def parse_consts Let_def)
    then show ?thesis using old parse_v3_mac_spec [OF assms, of ?h "len - 48"] by auto
  next
    case v4
    show ?thesis
    proof (cases "len = 52 \<and> k = 0")
      case True
      let ?nak = "?h\<lparr>auth_mode := NTP_AUTH_SYMMETRIC, mac_start := 48, mac_length := 4, mac_key_id := 0\<rparr>"
      have "parse_packet packet len = Some (Some ?nak)"
        using i0 k v4 True by (auto simp: parse_packet_def parse_consts Let_def)
      then show ?thesis using v4 True by (auto simp: v4_layout_def intro!: exI [of _ "[]"] tiles_Nil)
    next
      case False
      then have "parse_packet packet len = parse_v4_tail packet ?h 48 (len - 48)"
        using i0 k v4 by (auto simp: parse_packet_def parse_consts Let_def)
      then show ?thesis using v4 parse_v4_tail_spec [OF assms, of ?h] by auto
    qed
  qed
qed

text \<open>
  C8. The packet validator is total: on a full-size packet buffer, whatever its bytes and whatever length
  the caller claims, \<open>parse_packet\<close> returns (a description or a rejection) and never panics.
\<close>

theorem parse_packet_total:
  assumes "int (length packet) = NTP_PACKET_SIZE"
  shows "\<exists>r. parse_packet packet len = Some r"
  using parse_packet_cases [OF assms] by blast

text \<open>
  C9. What the validator accepts is well laid out: the length is a multiple of four and at least the
  header, the version is 1 to 4; up to version 3 everything after the header is the MAC; in version 4 the
  rest is tiled by extension fields, each accepted where the previous one ended and none unknown and
  critical, counted by \<open>ext_fields\<close>, and followed by nothing, by a MAC of 20 to 24 bytes that runs to
  the end of the packet, or (with no field at all) by a crypto-NAK.
\<close>

theorem parse_packet_layout:
  assumes "int (length packet) = NTP_PACKET_SIZE" "parse_packet packet len = Some (Some info)"
  shows "48 \<le> len \<and> len mod 4 = 0 \<and> info_length info = len \<and> 1 \<le> version info \<and> version info \<le> 4 \<and>
     (version info \<le> 3 \<longrightarrow> ext_fields info = 0 \<and> (48 < len \<longrightarrow> mac_start info = 48 \<and> mac_length info = len - 48)) \<and>
     (version info = 4 \<longrightarrow> v4_layout packet len info)"
  using parse_packet_cases [OF assms(1), of len] assms(2) by auto

section \<open>Round trips\<close>

text \<open>A field of \<open>blen\<close> body bytes may be written at \<open>start\<close> in a buffer of \<open>n\<close> bytes.\<close>

definition field_fits :: "bytes \<Rightarrow> int \<Rightarrow> int \<Rightarrow> int \<Rightarrow> bool" where
  "field_fits buffer n start blen \<longleftrightarrow> 0 \<le> start \<and> start mod 4 = 0 \<and> 0 \<le> blen \<and> blen mod 4 = 0 \<and>
     4 + blen \<le> 0xffff \<and> start + 4 + blen \<le> n \<and> n \<le> int (length buffer) \<and> n < 2 ^ 31"

definition field_header :: "int \<Rightarrow> int \<Rightarrow> bytes" where
  "field_header ftype tot = be_bytes 2 (word_of_int ftype :: u16) @ be_bytes 2 (word_of_int tot :: u16)"

lemma format_field_ok:
  assumes "field_fits buffer n start blen"
  shows "format_field buffer n start ftype blen =
     Some (take (nat start) buffer @ field_header ftype (4 + blen) @ drop (nat start + 4) buffer,
       Some (4 + blen, nat start + 4))"
proof -
  let ?s = "nat start"
  have len: "?s + 4 \<le> length buffer" using assms by (auto simp: field_fits_def)
  then have "put buffer ?s (be_bytes 2 (word_of_int ftype :: u16)) =
      Some (take ?s buffer @ be_bytes 2 (word_of_int ftype :: u16) @ drop (?s + 2) buffer)"
    by (simp add: put_def)
  moreover have "put (take ?s buffer @ be_bytes 2 (word_of_int ftype :: u16) @ drop (?s + 2) buffer) (?s + 2)
      (be_bytes 2 (word_of_int (4 + blen) :: u16)) =
      Some (take ?s buffer @ field_header ftype (4 + blen) @ drop (?s + 4) buffer)"
    using len by (auto simp: put_def field_header_def numeral_eq_Suc simp del: be_bytes.simps)
  moreover have "i32_add 4 blen = Some (4 + blen)" "i32_add start 4 = Some (start + 4)"
    "i32_add (start + 4) blen = Some (start + 4 + blen)"
    using assms by (auto simp: field_fits_def i32_add_def in_i32_def)
  ultimately show ?thesis
    using assms by (simp add: format_field_def field_fits_def ext_consts Let_def)
qed

lemma rd_u16_at:
  assumes "take 2 (drop off buf) = be_bytes 2 (w :: u16)"
  shows "rd_u16 buf off = Some (uint w)"
proof -
  have len: "off + 2 \<le> length buf" using arg_cong [OF assms, of length] by simp
  have "[buf ! off, buf ! Suc off] = take 2 (drop off buf)"
    using len by (intro nth_equalityI) (auto simp: less_Suc_eq)
  then have "be_word [buf ! off, buf ! Suc off] = w" unfolding assms by simp
  then show ?thesis using len by (simp add: rd_u16_def index_def)
qed

text \<open>A header in place is read back.\<close>

lemma parse_single_field_at:
  assumes "field_fits buffer n start blen" "0 \<le> ftype" "ftype < 65536"
    and "take 4 (drop (nat start) buffer) = field_header ftype (4 + blen)"
  shows "parse_single_field buffer n start =
     Some (Some \<lparr>field_length = 4 + blen, field_type = ftype, body_offset = nat start + 4, body_length = blen\<rparr>)"
proof -
  have "take 2 (drop (nat start) buffer) = be_bytes 2 (word_of_int ftype :: u16)"
    using arg_cong [OF assms(4), of "take 2"] by (simp add: field_header_def min_def del: be_bytes.simps)
  moreover have "take 2 (drop (nat start + 2) buffer) = be_bytes 2 (word_of_int (4 + blen) :: u16)"
    using arg_cong [OF assms(4), of "drop 2"] by (simp add: field_header_def drop_take add.commute del: be_bytes.simps)
  moreover have "uint (word_of_int ftype :: u16) = ftype" "uint (word_of_int (4 + blen) :: u16) = 4 + blen"
    unfolding uint_word_of_int using assms(1-3) by (auto simp: field_fits_def)
  ultimately have "rd_u16 buffer (nat start) = Some ftype" "rd_u16 buffer (nat start + 2) = Some (4 + blen)"
    using rd_u16_at by metis+
  moreover have "i32_add start (4 + blen) = Some (start + (4 + blen))"
    using assms(1) by (auto simp: field_fits_def i32_add_def in_i32_def)
  ultimately show ?thesis
    using assms(1) by (simp add: parse_single_field_def field_fits_def ext_consts Let_def)
qed

text \<open>
  C10. A field that fits is written and read back: \<open>set_field\<close> succeeds, \<open>parse_single_field\<close> at the same
  place returns its type, its length and the place of its body, the body bytes are there, and no byte
  outside the field has changed.
\<close>

theorem set_field_roundtrip:
  assumes "field_fits buffer n start (int (length body))" "0 \<le> ftype" "ftype < 65536"
  shows "\<exists>buffer'. set_field buffer n start ftype body = Some (buffer', Some (4 + int (length body))) \<and>
     parse_single_field buffer' n start =
       Some (Some \<lparr>field_length = 4 + int (length body), field_type = ftype, body_offset = nat start + 4,
                   body_length = int (length body)\<rparr>) \<and>
     slice buffer' (nat start + 4) (nat start + 4 + length body) = Some body \<and>
     take (nat start) buffer' = take (nat start) buffer \<and>
     drop (nat start + 4 + length body) buffer' = drop (nat start + 4 + length body) buffer"
proof -
  let ?s = "nat start" and ?h = "field_header ftype (4 + int (length body))"
  let ?b = "take ?s buffer @ ?h @ body @ drop (?s + 4 + length body) buffer"
  have len: "?s + 4 + length body \<le> length buffer" "as_i32 (length body) = int (length body)" "length ?h = 4"
    using assms(1) by (auto simp: field_fits_def field_header_def)
  have "put (take ?s buffer @ ?h @ drop (?s + 4) buffer) (?s + 4) body = Some ?b"
    using len by (simp add: put_def ac_simps)
  then have "set_field buffer n start ftype body = Some (?b, Some (4 + int (length body)))"
    using len by (simp add: set_field_def format_field_ok [OF assms(1)])
  moreover have "field_fits ?b n start (int (length body))" "take 4 (drop ?s ?b) = ?h"
    using assms(1) len by (auto simp: field_fits_def)
  then have "parse_single_field ?b n start = Some (Some \<lparr>field_length = 4 + int (length body),
      field_type = ftype, body_offset = ?s + 4, body_length = int (length body)\<rparr>)"
    by (rule parse_single_field_at [OF _ assms(2,3)])
  ultimately show ?thesis using len by (auto simp: slice_def)
qed


section \<open>The dispatch over all fields\<close>

text \<open>The offsets the dispatch loop visits.\<close>

inductive ef_reach :: "NtpPacketBuf \<Rightarrow> int \<Rightarrow> int \<Rightarrow> int \<Rightarrow> bool" for packet n where
  ef_reach_refl: "ef_reach packet n s s"
| ef_reach_step: "parse_single_field packet n s = Some (Some pf) \<Longrightarrow> ef_dispatch pf \<noteq> UnknownCritical \<Longrightarrow>
    ef_reach packet n (s + field_length pf) e \<Longrightarrow> ef_reach packet n s e"

definition critical_at :: "NtpPacketBuf \<Rightarrow> int \<Rightarrow> int \<Rightarrow> bool" where
  "critical_at packet n s \<longleftrightarrow>
     (\<exists>pf. parse_single_field packet n s = Some (Some pf) \<and> ef_dispatch pf = UnknownCritical)"

lemma ef_reach_critical_iff:
  "(\<exists>e. ef_reach packet n s e \<and> critical_at packet n e) \<longleftrightarrow>
     critical_at packet n s \<or>
     (\<exists>pf e. parse_single_field packet n s = Some (Some pf) \<and> ef_dispatch pf \<noteq> UnknownCritical \<and>
        ef_reach packet n (s + field_length pf) e \<and> critical_at packet n e)"
  by (subst ef_reach.simps) blast

lemma ef_loop_spec:
  assumes "n \<le> int (length packet)" "n < 2 ^ 30"
  shows "ef_loop packet n s = Some (\<not> (\<exists>e. ef_reach packet n s e \<and> critical_at packet n e))"
  using assms
proof (induction packet n s rule: ef_loop.induct)
  case (1 packet n s)
  obtain r where r: "parse_single_field packet n s = Some r"
    using parse_single_field_total [OF 1(3,4)] by blast
  show ?case
  proof (cases "\<exists>pf. r = Some pf \<and> ef_dispatch pf \<noteq> UnknownCritical")
    case False
    then have "ef_loop packet n s = Some (\<not> critical_at packet n s)"
      using r by (subst ef_loop.simps) (auto simp: critical_at_def split: option.splits)
    then show ?thesis using r False unfolding ef_reach_critical_iff [of packet n s] by auto
  next
    case True
    then obtain pf where pf: "r = Some pf" "ef_dispatch pf \<noteq> UnknownCritical" by blast
    have "ef_loop packet n (s + field_length pf) =
        Some (\<not> (\<exists>e. ef_reach packet n (s + field_length pf) e \<and> critical_at packet n e))"
      using 1(1,2) [OF r pf(1)] 1(3,4) pf(2) by (cases "ef_dispatch pf") auto
    moreover have "ef_loop packet n s = ef_loop packet n (s + field_length pf)"
      using r pf by (subst ef_loop.simps) (cases "ef_dispatch pf", auto)
    ultimately show ?thesis
      using r pf unfolding ef_reach_critical_iff [of packet n s] by (simp add: critical_at_def)
  qed
qed


section \<open>Witnesses\<close>

text \<open>A client request with one NTS cookie field, in a full-size buffer.\<close>

definition sample_packet :: NtpPacketBuf where
  "sample_packet = [0x23] @ replicate 47 0 @ field_header 0x0204 32 @ replicate 28 7 @ replicate 1060 0"

lemma length_sample_packet: "int (length sample_packet) = NTP_PACKET_SIZE"
  by (simp add: sample_packet_def field_header_def ext_consts)

definition sample_info :: NtpPacketInfo where
  "sample_info = (header_info 0x23 80)\<lparr>ext_fields := 1, auth_mode := NTP_AUTH_NTS\<rparr>"

definition sample_field :: ParsedField where
  "sample_field = \<lparr>field_length = 32, field_type = 0x0204, body_offset = 52, body_length = 28\<rparr>"

lemma sample_packet_0: "sample_packet ! 0 = 0x23" "0 < length sample_packet"
  by (simp_all add: sample_packet_def)

lemma parse_sample_field: "parse_field sample_packet 80 48 = Some (Some sample_field)"
proof -
  have "field_fits sample_packet 80 48 28"
    using length_sample_packet by (simp add: field_fits_def ext_consts)
  moreover have "take 4 (drop 48 sample_packet) = field_header 0x0204 32"
    by (simp add: sample_packet_def field_header_def del: be_bytes.simps)
  ultimately have "parse_single_field sample_packet 80 48 = Some (Some sample_field)"
    using parse_single_field_at [of sample_packet 80 48 28 "0x0204"] by (simp add: sample_field_def)
  moreover have "lvm_to_version 0x23 = 4" by code_simp
  ultimately show ?thesis using sample_packet_0
    by (simp add: parse_field_def get_lvm_def index_def ext_consts sample_field_def)
qed

lemma parse_sample_packet: "parse_packet sample_packet 80 = Some (Some sample_info)"
proof -
  let ?h = "header_info 0x23 80"
  have h: "leap ?h = 0" "version ?h = 4" by code_simp+
  have "classify_field sample_packet sample_field ?h = Some (Some (?h\<lparr>auth_mode := NTP_AUTH_NTS\<rparr>))"
    by (simp add: classify_field_def sample_field_def NTP_EF_NTS_UNIQUE_IDENTIFIER_def NTP_EF_NTS_COOKIE_def)
  moreover have "parse_loop sample_packet i 80 0 = Some (Some (i, 80, 0))" for i
    by (subst parse_loop.simps) simp
  ultimately have "parse_loop sample_packet ?h 48 32 = Some (Some (sample_info, 80, 0))"
    using parse_sample_field by (subst parse_loop.simps)
      (simp add: parse_consts sample_info_def sample_field_def)
  then show ?thesis using sample_packet_0 h
    by (simp add: parse_packet_def parse_v4_tail_def index_def parse_consts Let_def)
qed

theorem parse_packet_total_witness: "\<exists>r. parse_packet sample_packet (- 4) = Some r"
  by (rule parse_packet_total [OF length_sample_packet])

theorem parse_packet_layout_witness: "info_length sample_info = 80 \<and> v4_layout sample_packet 80 sample_info"
  using parse_packet_layout [OF length_sample_packet parse_sample_packet]
  by (simp add: sample_info_def header_info_def)

theorem set_field_roundtrip_witness:
  "\<exists>buffer'. set_field (replicate 64 0) 64 8 0x0104 [1, 2, 3, 4] = Some (buffer', Some (4 + int (length [1, 2, 3, 4 :: u8]))) \<and>
     slice buffer' 12 16 = Some [1, 2, 3, 4]"
proof -
  have "field_fits (replicate 64 0) 64 8 (int (length [1, 2, 3, 4 :: u8]))" by (simp add: field_fits_def)
  from set_field_roundtrip [OF this, where ftype = "0x0104"] show ?thesis by auto
qed



end
