(* ===== verification/Packet.thy ===== *)
theory Packet
  imports Prelude
begin

text \<open>
  The 48-byte NTP header: \<open>crates/chrony-rs-core/src/ntp/packet.rs\<close> and the bit-exact part of
  \<open>ntp/timestamp.rs\<close>. Timestamps and short values are their raw bits, as in the code; an \<open>i8\<close> is an
  \<open>int\<close> with the two's-complement casts written out. The conversions to \<open>f64\<close> are not modelled.
\<close>

section \<open>Fixed-point timestamps\<close>

datatype NtpTimestamp = NtpTimestamp u64

fun ts_to_bits :: "NtpTimestamp \<Rightarrow> u64" where
  "ts_to_bits (NtpTimestamp b) = b"

definition ts_from_bits :: "u64 \<Rightarrow> NtpTimestamp" where
  "ts_from_bits bits = NtpTimestamp bits"

definition seconds :: "NtpTimestamp \<Rightarrow> u32" where
  "seconds t = ucast (drop_bit 32 (ts_to_bits t))"

definition fraction :: "NtpTimestamp \<Rightarrow> u32" where
  "fraction t = ucast (ts_to_bits t)"

definition ts_from_be_bytes :: "bytes \<Rightarrow> NtpTimestamp" where
  "ts_from_be_bytes b = NtpTimestamp (be_word b)"

definition ts_to_be_bytes :: "NtpTimestamp \<Rightarrow> bytes" where
  "ts_to_be_bytes t = be_bytes 8 (ts_to_bits t)"

datatype NtpShort = NtpShort u32

fun short_to_bits :: "NtpShort \<Rightarrow> u32" where
  "short_to_bits (NtpShort b) = b"

definition short_from_bits :: "u32 \<Rightarrow> NtpShort" where
  "short_from_bits bits = NtpShort bits"

definition short_from_be_bytes :: "bytes \<Rightarrow> NtpShort" where
  "short_from_be_bytes b = NtpShort (be_word b)"

definition short_to_be_bytes :: "NtpShort \<Rightarrow> bytes" where
  "short_to_be_bytes t = be_bytes 4 (short_to_bits t)"

section \<open>The packet\<close>

definition NTP_PACKET_MIN_LEN :: nat where
  "NTP_PACKET_MIN_LEN = 48"

datatype LeapIndicator = NoWarning | InsertSecond | DeleteSecond | Unsynchronized

definition leap_from_bits :: "u8 \<Rightarrow> LeapIndicator" where
  "leap_from_bits bits =
     (let b = bits AND 0b11 in
      if b = 0 then NoWarning else if b = 1 then InsertSecond else if b = 2 then DeleteSecond
      else Unsynchronized)"

definition leap_to_bits :: "LeapIndicator \<Rightarrow> u8" where
  "leap_to_bits l = (case l of NoWarning \<Rightarrow> 0 | InsertSecond \<Rightarrow> 1 | DeleteSecond \<Rightarrow> 2 | Unsynchronized \<Rightarrow> 3)"

datatype Mode = Mode u8

fun mode_bits :: "Mode \<Rightarrow> u8" where
  "mode_bits (Mode m) = m"

definition SERVER :: Mode where
  "SERVER = Mode 4"

record NtpPacket =
  leap :: LeapIndicator
  version :: u8
  mode :: Mode
  stratum :: u8
  poll :: int
  precision :: int
  root_delay :: NtpShort
  root_dispersion :: NtpShort
  reference_id :: bytes
  reference_timestamp :: NtpTimestamp
  origin_timestamp :: NtpTimestamp
  receive_timestamp :: NtpTimestamp
  transmit_timestamp :: NtpTimestamp
  tail :: bytes

datatype PacketError = TooShort nat

definition decode :: "bytes \<Rightarrow> (PacketError + NtpPacket) run" where
  "decode buf =
     (if length buf < NTP_PACKET_MIN_LEN then ret (Inl (TooShort (length buf)))
      else do {
        b0 \<leftarrow> index buf 0;
        b1 \<leftarrow> index buf 1;
        b2 \<leftarrow> index buf 2;
        b3 \<leftarrow> index buf 3;
        delay \<leftarrow> slice buf 4 8;
        disp \<leftarrow> slice buf 8 12;
        refid \<leftarrow> slice buf 12 16;
        ref \<leftarrow> slice buf 16 24;
        org \<leftarrow> slice buf 24 32;
        rec \<leftarrow> slice buf 32 40;
        xmt \<leftarrow> slice buf 40 48;
        rest \<leftarrow> slice buf NTP_PACKET_MIN_LEN (length buf);
        ret (Inr \<lparr>leap = leap_from_bits (drop_bit 6 b0), version = drop_bit 3 b0 AND 0b111,
               mode = Mode (b0 AND 0b111), stratum = b1, poll = sint b2, precision = sint b3,
               root_delay = short_from_be_bytes delay, root_dispersion = short_from_be_bytes disp,
               reference_id = refid, reference_timestamp = ts_from_be_bytes ref,
               origin_timestamp = ts_from_be_bytes org, receive_timestamp = ts_from_be_bytes rec,
               transmit_timestamp = ts_from_be_bytes xmt, tail = rest\<rparr>)
      })"

definition encode :: "NtpPacket \<Rightarrow> bytes" where
  "encode p =
     (let b0 = (push_bit 6 (leap_to_bits (leap p)) OR push_bit 3 (version p AND 0b111)) OR (mode_bits (mode p) AND 0b111) in
      [b0, stratum p, word_of_int (poll p), word_of_int (precision p)] @
      short_to_be_bytes (root_delay p) @ short_to_be_bytes (root_dispersion p) @ reference_id p @
      ts_to_be_bytes (reference_timestamp p) @ ts_to_be_bytes (origin_timestamp p) @
      ts_to_be_bytes (receive_timestamp p) @ ts_to_be_bytes (transmit_timestamp p) @ tail p)"

text \<open>\<open>is_ascii_graphic\<close> of the standard library: \<open>'!'\<close> to \<open>'~'\<close>.\<close>

definition is_ascii_graphic :: "u8 \<Rightarrow> bool" where
  "is_ascii_graphic b \<longleftrightarrow> 0x21 \<le> b \<and> b \<le> 0x7e"

definition reference_id_ascii :: "NtpPacket \<Rightarrow> bytes option" where
  "reference_id_ascii p =
     (let trimmed = takeWhile (\<lambda>b. b \<noteq> 0) (reference_id p) in
      if list_all (\<lambda>b. is_ascii_graphic b \<or> b = 0x20) trimmed then Some trimmed else None)"

definition is_kiss_of_death :: "NtpPacket \<Rightarrow> bool" where
  "is_kiss_of_death p \<longleftrightarrow> stratum p = 0 \<and> mode p = SERVER"

section \<open>Round trips\<close>

text \<open>Packets whose fields have the widths of the wire format.\<close>

definition wf_packet :: "NtpPacket \<Rightarrow> bool" where
  "wf_packet p \<longleftrightarrow> version p AND 0b111 = version p \<and> mode_bits (mode p) AND 0b111 = mode_bits (mode p) \<and>
     - 128 \<le> poll p \<and> poll p < 128 \<and> - 128 \<le> precision p \<and> precision p < 128 \<and> length (reference_id p) = 4"

lemma leap_bits_roundtrip: "leap_from_bits (leap_to_bits l) = l"
  by (cases l) (simp_all add: leap_from_bits_def leap_to_bits_def)

lemma and_masks: "(b :: u8) AND 7 = take_bit 3 b" "b AND 3 = take_bit 2 b"
  by (simp_all add: take_bit_eq_mask mask_eq_exp_minus_1)

lemma leap_to_bits_from: "leap_to_bits (leap_from_bits b) = b AND 3"
proof -
  have "unat (b AND 3) < 2 ^ 2" unfolding and_masks unsigned_take_bit_eq by (rule take_bit_nat_less_exp)
  then have "unat (b AND 3) \<in> {0, 1, 2, 3}" by auto
  then have "b AND 3 \<in> {0, 1, 2, 3}" by (simp add: word_unat_eq_iff del: unsigned_and_eq unat_eq_zero)
  then show ?thesis by (auto simp: leap_from_bits_def leap_to_bits_def Let_def)
qed

text \<open>The first byte is split into its three fields and put together again.\<close>

definition lvm_byte :: "u8 \<Rightarrow> u8 \<Rightarrow> u8 \<Rightarrow> u8" where
  "lvm_byte l v m = (push_bit 6 l OR push_bit 3 (v AND 0b111)) OR (m AND 0b111)"

lemma lvm_byte_split: "lvm_byte (drop_bit 6 b AND 3) (drop_bit 3 b AND 7) (b AND 7) = b"
  unfolding lvm_byte_def and_masks
proof (rule bit_word_eqI)
  fix n assume "n < LENGTH(8)"
  then show "bit ((push_bit 6 (take_bit 2 (drop_bit 6 b)) OR push_bit 3 (take_bit 3 (take_bit 3 (drop_bit 3 b)))) OR
      take_bit 3 (take_bit 3 b)) n = bit b n"
    by (cases "n < 6") (auto simp: bit_simps not_le)
qed

lemma lvm_byte_fields:
  "drop_bit 6 (lvm_byte l v m) AND 3 = l AND 3"
  "drop_bit 3 (lvm_byte l v m) AND 7 = v AND 7"
  "lvm_byte l v m AND 7 = m AND 7"
  unfolding lvm_byte_def and_masks by (rule bit_word_eqI; auto simp: bit_simps)+

lemma leap_from_bits_and: "leap_from_bits (b AND 3) = leap_from_bits b"
  by (simp add: leap_from_bits_def and.assoc)

lemma leap_lvm: "leap_from_bits (drop_bit 6 (lvm_byte (leap_to_bits l) v m)) = l"
  using leap_from_bits_and [of "drop_bit 6 (lvm_byte (leap_to_bits l) v m)"]
    leap_from_bits_and [of "leap_to_bits l"] by (simp add: lvm_byte_fields leap_bits_roundtrip)

lemma i8_roundtrip: "- 128 \<le> x \<Longrightarrow> x < 128 \<Longrightarrow> sint (word_of_int x :: u8) = x"
  by (subst signed_of_int) (simp add: signed_take_bit_int_eq_self)

lemma i8_range: "- 128 \<le> sint (b :: u8)" "sint (b :: u8) < 128"
  using sint_greater_eq [of b] sint_less [of b] by simp_all

text \<open>A byte string of at least 48 bytes, cut where the decoder cuts it.\<close>

lemma header_cut:
  assumes "48 \<le> length buf"
  shows "buf = [buf ! 0, buf ! 1, buf ! 2, buf ! 3] @ take 4 (drop 4 buf) @ take 4 (drop 8 buf) @
     take 4 (drop 12 buf) @ take 8 (drop 16 buf) @ take 8 (drop 24 buf) @ take 8 (drop 32 buf) @
     take 8 (drop 40 buf) @ drop 48 buf"
proof -
  have cut: "take n (drop k buf) @ drop (k + n) buf = drop k buf" for n k
    by (metis append_take_drop_id drop_drop add.commute)
  have "[buf ! 0, buf ! 1, buf ! 2, buf ! 3] = take 4 buf"
    using assms by (intro nth_equalityI) (auto simp: less_Suc_eq numeral_eq_Suc)
  then show ?thesis
    using cut [where k = 4 and n = 4] cut [where k = 8 and n = 4] cut [where k = 12 and n = 4]
      cut [where k = 16 and n = 8] cut [where k = 24 and n = 8] cut [where k = 32 and n = 8] cut [where k = 40 and n = 8]
    by simp
qed

lemma decode_eq:
  assumes "48 \<le> length buf"
  shows "decode buf = Some (Inr \<lparr>leap = leap_from_bits (drop_bit 6 (buf ! 0)), version = drop_bit 3 (buf ! 0) AND 0b111,
     mode = Mode (buf ! 0 AND 0b111), stratum = buf ! 1, poll = sint (buf ! 2), precision = sint (buf ! 3),
     root_delay = short_from_be_bytes (take 4 (drop 4 buf)),
     root_dispersion = short_from_be_bytes (take 4 (drop 8 buf)), reference_id = take 4 (drop 12 buf),
     reference_timestamp = ts_from_be_bytes (take 8 (drop 16 buf)),
     origin_timestamp = ts_from_be_bytes (take 8 (drop 24 buf)),
     receive_timestamp = ts_from_be_bytes (take 8 (drop 32 buf)),
     transmit_timestamp = ts_from_be_bytes (take 8 (drop 40 buf)), tail = drop 48 buf\<rparr>)"
proof -
  have "buf \<noteq> []" using assms by auto
  then show ?thesis using assms by (simp add: decode_def NTP_PACKET_MIN_LEN_def index_def slice_def)
qed

lemma wire_lengths [simp]: "length (short_to_be_bytes x) = 4" "length (ts_to_be_bytes y) = 8"
  by (simp_all add: short_to_be_bytes_def ts_to_be_bytes_def del: be_bytes.simps)

lemma wire_from_to [simp]: "short_from_be_bytes (short_to_be_bytes x) = x" "ts_from_be_bytes (ts_to_be_bytes y) = y"
  by (cases x, simp add: short_to_be_bytes_def short_from_be_bytes_def del: be_bytes.simps)
    (cases y, simp add: ts_to_be_bytes_def ts_from_be_bytes_def del: be_bytes.simps)

lemma wire_to_from [simp]:
  "length b = 4 \<Longrightarrow> short_to_be_bytes (short_from_be_bytes b) = b"
  "length b = 8 \<Longrightarrow> ts_to_be_bytes (ts_from_be_bytes b) = b"
  by (simp_all add: short_to_be_bytes_def short_from_be_bytes_def ts_to_be_bytes_def ts_from_be_bytes_def
      be_bytes_be_word_eq del: be_bytes.simps)

lemma encode_eq:
  "encode p = [lvm_byte (leap_to_bits (leap p)) (version p) (mode_bits (mode p)), stratum p,
      word_of_int (poll p), word_of_int (precision p)] @
     short_to_be_bytes (root_delay p) @ short_to_be_bytes (root_dispersion p) @ reference_id p @
     ts_to_be_bytes (reference_timestamp p) @ ts_to_be_bytes (origin_timestamp p) @
     ts_to_be_bytes (receive_timestamp p) @ ts_to_be_bytes (transmit_timestamp p) @ tail p"
  by (simp add: encode_def lvm_byte_def Let_def)

text \<open>
  C13. Decoding never panics and fails exactly on fewer than 48 bytes. Decoding and encoding are inverse:
  every longer byte string decodes to a packet of the wire's field widths that encodes to the same bytes,
  and every packet of those widths is the decoding of its own encoding.
\<close>

theorem packet_roundtrip:
  "(length buf < 48 \<longrightarrow> decode buf = Some (Inl (TooShort (length buf)))) \<and>
   (48 \<le> length buf \<longrightarrow> (\<exists>p. decode buf = Some (Inr p) \<and> wf_packet p \<and> encode p = buf)) \<and>
   (wf_packet q \<longrightarrow> decode (encode q) = Some (Inr q))"
proof (intro conjI impI)
  assume "length buf < 48"
  then show "decode buf = Some (Inl (TooShort (length buf)))" by (simp add: decode_def NTP_PACKET_MIN_LEN_def)
next
  assume len: "48 \<le> length buf"
  show "\<exists>p. decode buf = Some (Inr p) \<and> wf_packet p \<and> encode p = buf"
  proof (intro exI conjI)
    show "decode buf = Some (Inr (projr (the (decode buf))))" by (simp add: decode_eq [OF len])
    show "wf_packet (projr (the (decode buf)))"
      using len i8_range by (simp add: decode_eq [OF len] wf_packet_def and.assoc)
    have "encode (projr (the (decode buf))) = [buf ! 0, buf ! 1, buf ! 2, buf ! 3] @ take 4 (drop 4 buf) @
        take 4 (drop 8 buf) @ take 4 (drop 12 buf) @ take 8 (drop 16 buf) @ take 8 (drop 24 buf) @
        take 8 (drop 32 buf) @ take 8 (drop 40 buf) @ drop 48 buf"
      using len by (simp add: decode_eq [OF len] encode_eq leap_to_bits_from lvm_byte_split)
    also have "\<dots> = buf" using header_cut [OF len] by simp
    finally show "encode (projr (the (decode buf))) = buf" .
  qed
next
  assume wf: "wf_packet q"
  then have len: "48 \<le> length (encode q)" by (simp add: wf_packet_def encode_eq)
  have "mode q = Mode (mode_bits (mode q))" by (cases "mode q") simp
  then show "decode (encode q) = Some (Inr q)"
    using wf unfolding decode_eq [OF len]
    by (simp add: encode_eq wf_packet_def leap_lvm lvm_byte_fields i8_roundtrip)
qed

theorem packet_roundtrip_witness:
  "\<exists>p. decode (replicate 48 0x24) = Some (Inr p) \<and> encode p = replicate 48 0x24"
  using packet_roundtrip [of "replicate 48 0x24"] by auto

end
