(* ===== verification/NtsKeRecord.thy ===== *)
theory NtsKeRecord
  imports Prelude
begin

text \<open>
  NTS key establishment records: the codec, the message format check and the two sides of the
  negotiation in \<open>crates/chrony-rs-core/src/nts_ke_record.rs\<close>. The wrappers of that file that only call
  an injected TLS closure are not modelled. Record types and body lengths are \<open>i32\<close> in the code and \<open>int\<close>
  here; buffer sizes and cursors are \<open>usize\<close> and \<open>nat\<close>.
\<close>

section \<open>Constants and data\<close>

definition NKE_MAX_MESSAGE_LENGTH :: nat where "NKE_MAX_MESSAGE_LENGTH = 16384"
definition NKE_RECORD_CRITICAL_BIT :: u16 where "NKE_RECORD_CRITICAL_BIT = push_bit 15 1"
definition NKE_RECORD_END_OF_MESSAGE :: int where "NKE_RECORD_END_OF_MESSAGE = 0"
definition NKE_RECORD_NEXT_PROTOCOL :: int where "NKE_RECORD_NEXT_PROTOCOL = 1"
definition NKE_RECORD_ERROR :: int where "NKE_RECORD_ERROR = 2"
definition NKE_RECORD_WARNING :: int where "NKE_RECORD_WARNING = 3"
definition NKE_RECORD_AEAD_ALGORITHM :: int where "NKE_RECORD_AEAD_ALGORITHM = 4"
definition NKE_RECORD_COOKIE :: int where "NKE_RECORD_COOKIE = 5"
definition NKE_RECORD_NTPV4_SERVER_NEGOTIATION :: int where "NKE_RECORD_NTPV4_SERVER_NEGOTIATION = 6"
definition NKE_RECORD_NTPV4_PORT_NEGOTIATION :: int where "NKE_RECORD_NTPV4_PORT_NEGOTIATION = 7"
definition RECORD_HEADER_LEN :: nat where "RECORD_HEADER_LEN = 4"
definition NKE_NEXT_PROTOCOL_NTPV4 :: int where "NKE_NEXT_PROTOCOL_NTPV4 = 0"
definition NKE_ERROR_UNRECOGNIZED_CRITICAL_RECORD :: int where "NKE_ERROR_UNRECOGNIZED_CRITICAL_RECORD = 0"
definition NKE_ERROR_BAD_REQUEST :: int where "NKE_ERROR_BAD_REQUEST = 1"
definition NKE_ERROR_INTERNAL_SERVER_ERROR :: int where "NKE_ERROR_INTERNAL_SERVER_ERROR = 2"
definition AEAD_AES_SIV_CMAC_256 :: u16 where "AEAD_AES_SIV_CMAC_256 = 15"
definition AEAD_AES_128_GCM_SIV :: u16 where "AEAD_AES_128_GCM_SIV = 30"
definition NKE_MAX_RECORD_BODY_LENGTH :: int where "NKE_MAX_RECORD_BODY_LENGTH = 256"
definition NKE_MAX_COOKIE_LENGTH :: nat where "NKE_MAX_COOKIE_LENGTH = 256"
definition NKE_MAX_COOKIES :: nat where "NKE_MAX_COOKIES = 8"
definition SERVER_NAME_BUF :: int where "SERVER_NAME_BUF = NKE_MAX_RECORD_BODY_LENGTH + 2"

lemmas nke_types = NKE_RECORD_END_OF_MESSAGE_def NKE_RECORD_NEXT_PROTOCOL_def NKE_RECORD_ERROR_def
  NKE_RECORD_WARNING_def NKE_RECORD_AEAD_ALGORITHM_def NKE_RECORD_COOKIE_def
  NKE_RECORD_NTPV4_SERVER_NEGOTIATION_def NKE_RECORD_NTPV4_PORT_NEGOTIATION_def

record KeRecord =
  critical :: bool
  record_type :: int
  body_length :: int
  body :: bytes

record Message =
  data :: bytes
  msg_length :: nat
  sent :: nat
  parsed :: nat
  complete :: bool
  new_message :: bool

definition new_msg :: Message where
  "new_msg = \<lparr>data = [], msg_length = 0, sent = 0, parsed = 0, complete = False, new_message = False\<rparr>"

definition from_received :: "bytes \<Rightarrow> Message" where
  "from_received bs = \<lparr>data = bs, msg_length = length bs, sent = 0, parsed = 0, complete = False,
     new_message = False\<rparr>"

definition message_data :: "Message \<Rightarrow> bytes run" where
  "message_data m = slice (data m) 0 (msg_length m)"

definition reset_message :: "Message \<Rightarrow> Message" where
  "reset_message m = m\<lparr>data := [], msg_length := 0, sent := 0, parsed := 0, complete := False\<rparr>"

section \<open>The codec\<close>

definition add_record :: "Message \<Rightarrow> bool \<Rightarrow> int \<Rightarrow> bytes \<Rightarrow> (Message \<times> bool) run" where
  "add_record m crit rtype bdy =
     (if \<not> msg_length m \<le> NKE_MAX_MESSAGE_LENGTH then panic
      else if \<not> (0 \<le> rtype \<and> rtype \<le> 0x7fff) \<or> length bdy > 0xffff \<or>
        msg_length m + RECORD_HEADER_LEN + length bdy > NKE_MAX_MESSAGE_LENGTH
      then ret (m, False)
      else ret (m\<lparr>data := data m @ be_bytes 2 ((if crit then NKE_RECORD_CRITICAL_BIT else 0) OR word_of_int rtype :: u16)
                    @ be_bytes 2 (of_nat (length bdy) :: u16) @ bdy,
                  msg_length := msg_length m + (RECORD_HEADER_LEN + length bdy)\<rparr>, True))"

definition begin_message :: "Message \<Rightarrow> Message" where
  "begin_message m = (reset_message m)\<lparr>new_message := True\<rparr>"

definition add_message_record :: "Message \<Rightarrow> bool \<Rightarrow> int \<Rightarrow> bytes \<Rightarrow> (Message \<times> bool) run" where
  "add_message_record m crit rtype bdy =
     (if \<not> (new_message m \<and> \<not> complete m) then panic
      else if \<not> rtype \<noteq> NKE_RECORD_END_OF_MESSAGE then panic
      else add_record m crit rtype bdy)"

definition end_message :: "Message \<Rightarrow> (Message \<times> bool) run" where
  "end_message m =
     (if complete m then panic
      else do {
        (m, ok) \<leftarrow> add_record m True NKE_RECORD_END_OF_MESSAGE [];
        if \<not> ok then ret (m, False) else ret (m\<lparr>complete := True\<rparr>, True)
      })"

definition reset_parsing :: "Message \<Rightarrow> Message" where
  "reset_parsing m = m\<lparr>parsed := 0\<rparr>"

definition get_record_ke :: "Message \<Rightarrow> int \<Rightarrow> (Message \<times> KeRecord option) run" where
  "get_record_ke m buffer_length =
     (if msg_length m < parsed m + RECORD_HEADER_LEN \<or> buffer_length < 0 then ret (m, None)
      else do {
        h \<leftarrow> slice (data m) (parsed m) (parsed m + RECORD_HEADER_LEN);
        let type_raw = (be_word (take 2 h) :: u16);
        let blen = unat (be_word (drop 2 h) :: u16);
        let rlen = RECORD_HEADER_LEN + blen;
        if msg_length m < parsed m + rlen then ret (m, None)
        else do {
          let copy = min (nat buffer_length) blen;
          let body_off = parsed m + RECORD_HEADER_LEN;
          b \<leftarrow> slice (data m) body_off (body_off + copy);
          ret (m\<lparr>parsed := parsed m + rlen\<rparr>,
               Some \<lparr>critical = (type_raw AND NKE_RECORD_CRITICAL_BIT \<noteq> 0),
                     record_type = uint (type_raw AND NOT NKE_RECORD_CRITICAL_BIT),
                     body_length = int blen, body = b\<rparr>)
        }
      })"

definition next_record :: "Message \<Rightarrow> int \<Rightarrow> (Message \<times> KeRecord option) run" where
  "next_record m buffer_length = do {
     (m, r) \<leftarrow> get_record_ke m buffer_length;
     case r of
       Some rec \<Rightarrow> ret (m, if record_type rec \<noteq> NKE_RECORD_END_OF_MESSAGE then Some rec else None)
     | None \<Rightarrow> ret (m, None)
   }"

text \<open>
  The loops over the records of a message have one shape: while the state does not ask to stop, take
  the next record and handle it. \<open>hide\<close> selects \<open>next_record\<close>, which hides the terminator.
\<close>

definition fetch :: "bool \<Rightarrow> int \<Rightarrow> Message \<Rightarrow> (Message \<times> KeRecord option) run" where
  "fetch hide bl m = (if hide then next_record m bl else get_record_ke m bl)"

lemma get_record_advances:
  assumes "get_record_ke m bl = Some (m', Some r)"
  shows "msg_length m' = msg_length m" "data m' = data m" "parsed m < parsed m'" "parsed m' \<le> msg_length m'"
  using assms by (auto simp: get_record_ke_def RECORD_HEADER_LEN_def Let_def bind_eq_Some_conv split: if_splits)

lemma fetch_advances:
  assumes "fetch hide bl m = Some (m', Some r)"
  shows "msg_length m' = msg_length m" "parsed m < parsed m'" "parsed m' \<le> msg_length m'"
proof -
  have "\<exists>r'. get_record_ke m bl = Some (m', Some r')"
    using assms by (auto simp: fetch_def next_record_def bind_eq_Some_conv split: if_splits option.splits)
  then show "msg_length m' = msg_length m" "parsed m < parsed m'" "parsed m' \<le> msg_length m'"
    using get_record_advances by blast+
qed

lemma fetch_decreases:
  "fetch hide bl m = Some (m', Some r) \<Longrightarrow> msg_length m' - parsed m' < msg_length m - parsed m"
  using fetch_advances [of hide bl m m' r] by (simp add: diff_less_mono2)

function record_loop ::
  "bool \<Rightarrow> int \<Rightarrow> ('s \<Rightarrow> bool) \<Rightarrow> (KeRecord \<Rightarrow> 's \<Rightarrow> 's run) \<Rightarrow> Message \<Rightarrow> 's \<Rightarrow> (Message \<times> 's) run" where
  "record_loop hide bl stop step m s =
     (if stop s then ret (m, s)
      else case fetch hide bl m of
          None \<Rightarrow> panic
        | Some (m', None) \<Rightarrow> ret (m', s)
        | Some (m', Some rec) \<Rightarrow>
            (case step rec s of None \<Rightarrow> panic | Some s' \<Rightarrow> record_loop hide bl stop step m' s'))"
  by pat_completeness auto
termination
  by (relation "measure (\<lambda>(hide, bl, stop, step, m, s). msg_length m - parsed m)")
    (auto simp: fetch_decreases)

declare record_loop.simps [simp del]

text \<open>The state of \<open>check_message_format\<close>: terminators seen, last type, and whether it returned false.\<close>

record CheckState =
  ends :: nat
  last_type :: int
  malformed :: bool

definition check_step :: "KeRecord \<Rightarrow> CheckState \<Rightarrow> CheckState run" where
  "check_step rec s =
     (let s = s\<lparr>last_type := record_type rec\<rparr> in
      if record_type rec = NKE_RECORD_END_OF_MESSAGE then
        if \<not> critical rec \<or> body_length rec \<noteq> 0 \<or> ends s > 0 then ret (s\<lparr>malformed := True\<rparr>)
        else ret (s\<lparr>ends := ends s + 1\<rparr>)
      else ret s)"

definition check_message_format :: "Message \<Rightarrow> bool \<Rightarrow> (Message \<times> bool) run" where
  "check_message_format m eof = do {
     let m = (reset_parsing m)\<lparr>complete := False\<rparr>;
     (m, s) \<leftarrow> record_loop False 0 malformed check_step m \<lparr>ends = 0, last_type = - 1, malformed = False\<rparr>;
     if malformed s then ret (m, False)
     else if msg_length m = 0 \<or> parsed m < msg_length m then ret (m, \<not> eof)
     else if last_type s \<noteq> NKE_RECORD_END_OF_MESSAGE then ret (m, \<not> eof)
     else ret (m\<lparr>complete := True\<rparr>, True)
   }"

section \<open>Negotiation\<close>

definition read_be16 :: "bytes \<Rightarrow> nat \<Rightarrow> u16 run" where
  "read_be16 b i = do { x \<leftarrow> index b (2 * i); y \<leftarrow> index b (2 * i + 1); ret (be_word [x, y]) }"

text \<open>A sequence of \<open>if !m.add_record(..) { return None; }\<close>; \<open>Some None\<close> is the early return.\<close>

fun add_records :: "(bool \<times> int \<times> bytes) list \<Rightarrow> Message \<Rightarrow> Message option run" where
  "add_records [] m = ret (Some m)"
| "add_records ((crit, rtype, bdy) # rs) m = do {
     (m, ok) \<leftarrow> add_record m crit rtype bdy;
     if \<not> ok then ret None else add_records rs m
   }"

definition prepare_request :: "(u16 \<Rightarrow> bool) \<Rightarrow> Message option run" where
  "prepare_request aead_supported = do {
     r \<leftarrow> add_records
       [(True, NKE_RECORD_NEXT_PROTOCOL, be_bytes 2 (word_of_int NKE_NEXT_PROTOCOL_NTPV4 :: u16)),
        (True, NKE_RECORD_AEAD_ALGORITHM,
           (if aead_supported AEAD_AES_128_GCM_SIV then be_bytes 2 AEAD_AES_128_GCM_SIV else []) @
           (if aead_supported AEAD_AES_SIV_CMAC_256 then be_bytes 2 AEAD_AES_SIV_CMAC_256 else [])),
        (True, NKE_RECORD_END_OF_MESSAGE, [])] new_msg;
     ret (map_option (\<lambda>m. m\<lparr>complete := True\<rparr>) r)
   }"

record KeResponse =
  ok :: bool
  next_protocol :: int
  aead_algorithm :: int
  cookies :: "bytes list"
  server_name :: bytes
  ntp_port :: u16

text \<open>\<open>u8::is_ascii_graphic\<close> of the standard library.\<close>

definition is_graphic :: "u8 \<Rightarrow> bool" where
  "is_graphic b \<longleftrightarrow> 0x21 \<le> b \<and> b \<le> 0x7e"

text \<open>The body of the loop of \<open>process_response\<close>; the flag is \<open>error\<close>.\<close>

definition response_step ::
  "(u16 \<Rightarrow> bool) \<Rightarrow> KeRecord \<Rightarrow> KeResponse \<times> bool \<Rightarrow> (KeResponse \<times> bool) run" where
  "response_step aead_supported rec s =
     (case s of (r, error) \<Rightarrow>
      let crit = critical rec; len = body_length rec; t = record_type rec in
      if len > NKE_MAX_RECORD_BODY_LENGTH then ret (r, if crit then True else error)
      else if t = NKE_RECORD_NEXT_PROTOCOL then
        (if \<not> crit \<or> len \<noteq> 2 then ret (r, True)
         else do {
           v \<leftarrow> read_be16 (body rec) 0;
           if uint v \<noteq> NKE_NEXT_PROTOCOL_NTPV4 then ret (r, True)
           else ret (r\<lparr>next_protocol := NKE_NEXT_PROTOCOL_NTPV4\<rparr>, error)
         })
      else if t = NKE_RECORD_AEAD_ALGORITHM then do {
        alg \<leftarrow> (if len = 2 then read_be16 (body rec) 0 else ret 0);
        if len \<noteq> 2 \<or> (alg \<noteq> AEAD_AES_SIV_CMAC_256 \<and> alg \<noteq> AEAD_AES_128_GCM_SIV) \<or> \<not> aead_supported alg
        then ret (r, True)
        else ret (r\<lparr>aead_algorithm := uint alg\<rparr>, error)
      }
      else if t = NKE_RECORD_ERROR \<or> t = NKE_RECORD_WARNING then ret (r, True)
      else if t = NKE_RECORD_COOKIE then
        (if len \<ge> 1 \<and> nat len \<le> NKE_MAX_COOKIE_LENGTH \<and> len mod 4 = 0 \<and> length (cookies r) < NKE_MAX_COOKIES
         then ret (r\<lparr>cookies := cookies r @ [body rec]\<rparr>, error) else ret (r, error))
      else if t = NKE_RECORD_NTPV4_SERVER_NEGOTIATION then
        (if \<not> (1 \<le> len \<and> len < SERVER_NAME_BUF) then ret (r, True)
         else ret (r\<lparr>server_name := body rec\<rparr>, if \<not> list_all is_graphic (body rec) then True else error))
      else if t = NKE_RECORD_NTPV4_PORT_NEGOTIATION then
        (if len \<noteq> 2 then ret (r, True)
         else do { v \<leftarrow> read_be16 (body rec) 0; ret (r\<lparr>ntp_port := v\<rparr>, error) })
      else ret (r, if crit then True else error))"

definition process_response :: "Message \<Rightarrow> (u16 \<Rightarrow> bool) \<Rightarrow> (Message \<times> KeResponse) run" where
  "process_response msg aead_supported = do {
     (msg, r, error) \<leftarrow> record_loop True NKE_MAX_RECORD_BODY_LENGTH snd (response_step aead_supported)
       (reset_parsing msg)
       (\<lparr>ok = False, next_protocol = - 1, aead_algorithm = - 1, cookies = [], server_name = [], ntp_port = 0\<rparr>, False);
     ret (msg, r\<lparr>ok := \<not> error \<and> cookies r \<noteq> [] \<and> next_protocol r = NKE_NEXT_PROTOCOL_NTPV4 \<and>
            aead_algorithm r \<ge> 0\<rparr>)
   }"

record KeRequest =
  req_error :: int
  req_next_protocol :: int
  req_aead_algorithm :: int

record RequestState =
  next_protocol_records :: nat
  aead_algorithm_records :: nat
  next_protocol_values :: nat
  aead_algorithm_values :: nat
  rs_next_protocol :: int
  rs_aead_algorithm :: int
  rs_error :: int

text \<open>The inner loops over the values of a record.\<close>

fun protocol_values :: "bytes \<Rightarrow> nat list \<Rightarrow> RequestState \<Rightarrow> RequestState run" where
  "protocol_values b [] s = ret s"
| "protocol_values b (i # is) s = do {
     let s = s\<lparr>next_protocol_values := next_protocol_values s + 1\<rparr>;
     v \<leftarrow> read_be16 b i;
     protocol_values b is (if uint v = NKE_NEXT_PROTOCOL_NTPV4 then s\<lparr>rs_next_protocol := NKE_NEXT_PROTOCOL_NTPV4\<rparr> else s)
   }"

fun aead_values :: "(u16 \<Rightarrow> bool) \<Rightarrow> bytes \<Rightarrow> nat list \<Rightarrow> RequestState \<Rightarrow> RequestState run" where
  "aead_values aead_supported b [] s = ret s"
| "aead_values aead_supported b (i # is) s = do {
     let s = s\<lparr>aead_algorithm_values := aead_algorithm_values s + 1\<rparr>;
     a \<leftarrow> read_be16 b i;
     aead_values aead_supported b is
       (if rs_aead_algorithm s < 0 \<and> aead_supported a then s\<lparr>rs_aead_algorithm := uint a\<rparr> else s)
   }"

definition request_step :: "(u16 \<Rightarrow> bool) \<Rightarrow> KeRecord \<Rightarrow> RequestState \<Rightarrow> RequestState run" where
  "request_step aead_supported rec s =
     (let crit = critical rec; len = body_length rec; t = record_type rec;
          idx = [0..<nat (min len NKE_MAX_RECORD_BODY_LENGTH) div 2] in
      if t = NKE_RECORD_NEXT_PROTOCOL then
        (if \<not> crit \<or> len < 2 \<or> len mod 2 \<noteq> 0 then ret (s\<lparr>rs_error := NKE_ERROR_BAD_REQUEST\<rparr>)
         else protocol_values (body rec) idx (s\<lparr>next_protocol_records := next_protocol_records s + 1\<rparr>))
      else if t = NKE_RECORD_AEAD_ALGORITHM then
        (if len < 2 \<or> len mod 2 \<noteq> 0 then ret (s\<lparr>rs_error := NKE_ERROR_BAD_REQUEST\<rparr>)
         else aead_values aead_supported (body rec) idx (s\<lparr>aead_algorithm_records := aead_algorithm_records s + 1\<rparr>))
      else if t = NKE_RECORD_ERROR \<or> t = NKE_RECORD_WARNING \<or> t = NKE_RECORD_COOKIE
      then ret (s\<lparr>rs_error := NKE_ERROR_BAD_REQUEST\<rparr>)
      else ret (if crit then s\<lparr>rs_error := NKE_ERROR_UNRECOGNIZED_CRITICAL_RECORD\<rparr> else s))"

definition process_request :: "Message \<Rightarrow> (u16 \<Rightarrow> bool) \<Rightarrow> (Message \<times> KeRequest) run" where
  "process_request msg aead_supported = do {
     (msg, s) \<leftarrow> record_loop True NKE_MAX_RECORD_BODY_LENGTH (\<lambda>s. \<not> rs_error s < 0) (request_step aead_supported)
       (reset_parsing msg)
       \<lparr>next_protocol_records = 0, aead_algorithm_records = 0, next_protocol_values = 0,
        aead_algorithm_values = 0, rs_next_protocol = - 1, rs_aead_algorithm = - 1, rs_error = - 1\<rparr>;
     let error =
       (if rs_error s < 0 \<and>
           (next_protocol_records s \<noteq> 1 \<or> next_protocol_values s < 1 \<or>
            (rs_next_protocol s = NKE_NEXT_PROTOCOL_NTPV4 \<and>
             (aead_algorithm_records s \<noteq> 1 \<or> aead_algorithm_values s < 1)))
        then NKE_ERROR_BAD_REQUEST else rs_error s);
     ret (msg, \<lparr>req_error = error, req_next_protocol = rs_next_protocol s, req_aead_algorithm = rs_aead_algorithm s\<rparr>)
   }"

text \<open>The records of the server's answer, branch by branch.\<close>

definition response_records ::
  "int \<Rightarrow> int \<Rightarrow> int \<Rightarrow> u16 option \<Rightarrow> bytes option \<Rightarrow> bytes list \<Rightarrow> (bool \<times> int \<times> bytes) list" where
  "response_records error next_proto aead port server cks =
     (if error \<ge> 0 then [(True, NKE_RECORD_ERROR, be_bytes 2 (word_of_int error :: u16))]
      else if next_proto < 0 then [(True, NKE_RECORD_NEXT_PROTOCOL, [])]
      else if aead < 0 then
        [(True, NKE_RECORD_NEXT_PROTOCOL, be_bytes 2 (word_of_int next_proto :: u16)),
         (True, NKE_RECORD_AEAD_ALGORITHM, [])]
      else
        [(True, NKE_RECORD_NEXT_PROTOCOL, be_bytes 2 (word_of_int next_proto :: u16)),
         (True, NKE_RECORD_AEAD_ALGORITHM, be_bytes 2 (word_of_int aead :: u16))] @
        (case port of Some p \<Rightarrow> [(True, NKE_RECORD_NTPV4_PORT_NEGOTIATION, be_bytes 2 p)] | None \<Rightarrow> []) @
        (case server of Some s \<Rightarrow> [(True, NKE_RECORD_NTPV4_SERVER_NEGOTIATION, s)] | None \<Rightarrow> []) @
        map (\<lambda>c. (False, NKE_RECORD_COOKIE, c)) cks)"

definition prepare_response ::
  "int \<Rightarrow> int \<Rightarrow> int \<Rightarrow> u16 option \<Rightarrow> bytes option \<Rightarrow> bytes list \<Rightarrow> Message option run" where
  "prepare_response error next_proto aead port server cks = do {
     r \<leftarrow> add_records (response_records error next_proto aead port server cks @
            [(True, NKE_RECORD_END_OF_MESSAGE, [])]) new_msg;
     ret (map_option (\<lambda>m. m\<lparr>complete := True\<rparr>) r)
   }"

definition check_alpn :: "string \<Rightarrow> bool" where
  "check_alpn protocol \<longleftrightarrow> protocol = ''ntske/1''"

definition change_state :: "int \<Rightarrow> int \<Rightarrow> int" where
  "change_state current next = next"

section \<open>Frames\<close>

text \<open>
  The byte format on its own: a record as a byte string, the record at the front of a byte string, and
  the longest run of records a byte string starts with.
\<close>

definition encode_rec :: "KeRecord \<Rightarrow> bytes" where
  "encode_rec r = be_bytes 2 ((if critical r then NKE_RECORD_CRITICAL_BIT else 0) OR word_of_int (record_type r) :: u16) @
     be_bytes 2 (of_nat (length (body r)) :: u16) @ body r"

definition valid_rec :: "KeRecord \<Rightarrow> bool" where
  "valid_rec r \<longleftrightarrow> 0 \<le> record_type r \<and> record_type r \<le> 0x7fff \<and> length (body r) \<le> 0xffff \<and>
     body_length r = int (length (body r))"

definition next_frame :: "bytes \<Rightarrow> (KeRecord \<times> bytes) option" where
  "next_frame bs =
     (if length bs < 4 then None
      else let t = (be_word (take 2 bs) :: u16); n = unat (be_word (take 2 (drop 2 bs)) :: u16) in
        if length bs < 4 + n then None
        else Some (\<lparr>critical = (t AND NKE_RECORD_CRITICAL_BIT \<noteq> 0),
            record_type = uint (t AND NOT NKE_RECORD_CRITICAL_BIT), body_length = int n,
            body = take n (drop 4 bs)\<rparr>, drop (4 + n) bs))"

lemma next_frame_shorter: "next_frame bs = Some (r, rest) \<Longrightarrow> length rest < length bs"
  by (auto simp: next_frame_def Let_def split: if_splits)

function frames :: "bytes \<Rightarrow> KeRecord list \<times> bytes" where
  "frames bs = (case next_frame bs of None \<Rightarrow> ([], bs) | Some (r, rest) \<Rightarrow> apfst (Cons r) (frames rest))"
  by pat_completeness auto
termination
  by (relation "measure length") (auto simp: next_frame_shorter)

declare frames.simps [simp del]

text \<open>The type word: the critical flag is bit 15, the type the bits below it.\<close>

lemma bit_critical [simp]: "bit NKE_RECORD_CRITICAL_BIT n \<longleftrightarrow> n = 15"
  unfolding NKE_RECORD_CRITICAL_BIT_def bit_push_bit_iff by (auto simp: bit_1_iff)

lemma critical_bit_nonzero [simp]: "NKE_RECORD_CRITICAL_BIT \<noteq> 0"
  by (simp add: NKE_RECORD_CRITICAL_BIT_def)

definition type_word :: "bool \<Rightarrow> int \<Rightarrow> u16" where
  "type_word c t = (if c then NKE_RECORD_CRITICAL_BIT else 0) OR word_of_int t"

lemma type_word_low:
  assumes "0 \<le> t" "t \<le> 0x7fff" "15 \<le> n"
  shows "\<not> bit (word_of_int t :: u16) n"
proof -
  have "take_bit 15 t = t" using assms by (intro take_bit_int_eq_self) auto
  then have "bit t n \<longleftrightarrow> n < 15 \<and> bit t n" by (metis bit_take_bit_iff)
  then show ?thesis using assms(3) by (auto simp: bit_simps)
qed

lemma type_word_critical:
  assumes "0 \<le> t" "t \<le> 0x7fff"
  shows "type_word c t AND NKE_RECORD_CRITICAL_BIT \<noteq> 0 \<longleftrightarrow> c"
proof -
  have "type_word c t AND NKE_RECORD_CRITICAL_BIT = (if c then NKE_RECORD_CRITICAL_BIT else 0)"
    using type_word_low [OF assms] by (intro bit_word_eqI) (auto simp: type_word_def bit_simps)
  then show ?thesis by simp
qed

lemma type_word_type:
  assumes "0 \<le> t" "t \<le> 0x7fff"
  shows "uint (type_word c t AND NOT NKE_RECORD_CRITICAL_BIT) = t"
proof -
  have "type_word c t AND NOT NKE_RECORD_CRITICAL_BIT = word_of_int t"
    using type_word_low [OF assms] by (intro bit_word_eqI) (auto simp: type_word_def bit_simps)
  then show ?thesis unfolding uint_word_of_int using assms
    by (simp only: uint_word_of_int) simp
qed

lemma type_word_inverse:
  "type_word (w AND NKE_RECORD_CRITICAL_BIT \<noteq> 0) (uint (w AND NOT NKE_RECORD_CRITICAL_BIT)) = w"
proof -
  have "w AND NKE_RECORD_CRITICAL_BIT = (if bit w 15 then NKE_RECORD_CRITICAL_BIT else 0)"
    by (intro bit_word_eqI) (auto simp: bit_simps)
  then have "w AND NKE_RECORD_CRITICAL_BIT \<noteq> 0 \<longleftrightarrow> bit w 15" by simp
  then show ?thesis unfolding type_word_def
    by (intro bit_word_eqI) (auto simp: bit_simps)
qed

lemma uint_below_critical: "uint ((w :: u16) AND NOT NKE_RECORD_CRITICAL_BIT) \<le> 0x7fff"
proof -
  have "w AND NOT NKE_RECORD_CRITICAL_BIT = take_bit 15 w"
    by (intro bit_word_eqI) (auto simp: bit_simps)
  then have "uint (w AND NOT NKE_RECORD_CRITICAL_BIT) = take_bit 15 (uint w)"
    by (simp add: unsigned_take_bit_eq)
  also have "\<dots> < 2 ^ 15" by (rule take_bit_int_less_exp)
  finally show ?thesis by simp
qed

text \<open>\<open>next_frame\<close> and \<open>encode_rec\<close> are inverse.\<close>

lemma next_frame_encode:
  assumes "valid_rec r"
  shows "next_frame (encode_rec r @ rest) = Some (r, rest)"
proof -
  have n: "unat (of_nat (length (body r)) :: u16) = length (body r)"
    using assms by (simp add: valid_rec_def unsigned_of_nat take_bit_nat_eq_self)
  have e: "encode_rec r @ rest = be_bytes 2 (type_word (critical r) (record_type r)) @
      be_bytes 2 (of_nat (length (body r)) :: u16) @ body r @ rest"
    by (simp add: encode_rec_def type_word_def)
  show ?thesis
    using assms n unfolding next_frame_def e
    by (simp add: Let_def type_word_critical type_word_type valid_rec_def del: be_bytes.simps)
qed

lemma next_frame_Some:
  assumes "next_frame bs = Some (r, rest)"
  shows "bs = encode_rec r @ rest \<and> valid_rec r"
proof -
  define t where "t = (be_word (take 2 bs) :: u16)"
  define l where "l = (be_word (take 2 (drop 2 bs)) :: u16)"
  have len: "4 \<le> length bs" "4 + unat l \<le> length bs"
    and r: "r = \<lparr>critical = (t AND NKE_RECORD_CRITICAL_BIT \<noteq> 0),
      record_type = uint (t AND NOT NKE_RECORD_CRITICAL_BIT), body_length = int (unat l),
      body = take (unat l) (drop 4 bs)\<rparr>" and rest: "rest = drop (4 + unat l) bs"
    using assms by (auto simp: next_frame_def Let_def t_def l_def split: if_splits)
  have t: "be_bytes 2 t = take 2 bs" and l: "be_bytes 2 l = take 2 (drop 2 bs)"
    unfolding t_def l_def using len(1) by (intro be_bytes_be_word_eq; simp)+
  have "unat l < 2 ^ 16" using unsigned_less [of l] by simp
  then have "valid_rec r" using len uint_below_critical [of t] by (simp add: valid_rec_def r)
  moreover have "encode_rec r @ rest = take 2 bs @ take 2 (drop 2 bs) @ take (unat l) (drop 4 bs) @ drop (4 + unat l) bs"
    using len type_word_inverse [of t]
    by (simp add: encode_rec_def r rest type_word_def t l del: be_bytes.simps)
  moreover have "take (unat l) (drop 4 bs) @ drop (4 + unat l) bs = drop 4 bs"
    by (metis append_take_drop_id drop_drop add.commute)
  moreover have "take 2 (drop 2 bs) @ drop 4 bs = drop 2 bs"
    using append_take_drop_id [of 2 "drop 2 bs"] by simp
  ultimately show ?thesis by (simp only: append_take_drop_id)
qed

definition frame :: "KeRecord list \<Rightarrow> bytes" where
  "frame rs = concat (map encode_rec rs)"

lemma frame_simps [simp]:
  "frame [] = []" "frame (r # rs) = encode_rec r @ frame rs" "frame (rs @ qs) = frame rs @ frame qs"
  by (simp_all add: frame_def)

lemma frames_spec: "frames bs = (rs, rest) \<Longrightarrow> bs = frame rs @ rest \<and> list_all valid_rec rs \<and> next_frame rest = None"
proof (induction bs arbitrary: rs rule: frames.induct)
  case (1 bs)
  show ?case
  proof (cases "next_frame bs")
    case None
    then show ?thesis using 1(2) by (subst (asm) frames.simps) auto
  next
    case (Some x)
    obtain r bs' where x: "x = (r, bs')" by (cases x)
    then obtain rs' where rs': "frames bs' = (rs', rest)" "rs = r # rs'"
      using 1(2) Some by (subst (asm) frames.simps) (cases "frames bs'", auto)
    show ?thesis using 1(1) [OF Some x [symmetric] rs'(1)] next_frame_Some [of bs r bs'] Some x rs'(2) by simp
  qed
qed

lemma frames_frame:
  assumes "list_all valid_rec rs" "next_frame rest = None"
  shows "frames (frame rs @ rest) = (rs, rest)"
  using assms
proof (induction rs)
  case Nil
  then show ?case by (subst frames.simps) simp
next
  case (Cons r rs)
  then show ?case by (subst frames.simps) (simp add: next_frame_encode)
qed

lemma next_frame_Nil [simp]: "next_frame [] = None"
  by (simp add: next_frame_def)

section \<open>The loops read frames\<close>

definition wf_msg :: "Message \<Rightarrow> bool" where
  "wf_msg m \<longleftrightarrow> msg_length m = length (data m) \<and> parsed m \<le> length (data m)"

definition trunc :: "int \<Rightarrow> KeRecord \<Rightarrow> KeRecord" where
  "trunc bl r = r\<lparr>body := take (nat bl) (body r)\<rparr>"

lemma trunc_simps [simp]:
  "critical (trunc bl r) = critical r" "record_type (trunc bl r) = record_type r"
  "body_length (trunc bl r) = body_length r" "body (trunc bl r) = take (nat bl) (body r)"
  by (simp_all add: trunc_def)

text \<open>\<open>get_record_ke\<close> takes the frame at the cursor, with its body cut to the buffer.\<close>

lemma get_record_eq:
  assumes "wf_msg m" "0 \<le> bl"
  shows "get_record_ke m bl = Some (case next_frame (drop (parsed m) (data m)) of
       None \<Rightarrow> (m, None)
     | Some (r, rest) \<Rightarrow> (m\<lparr>parsed := length (data m) - length rest\<rparr>, Some (trunc bl r)))"
proof (cases "length (data m) < parsed m + 4")
  case True
  then have "length (drop (parsed m) (data m)) < 4" by auto
  then show ?thesis using True assms by (simp add: get_record_ke_def next_frame_def RECORD_HEADER_LEN_def wf_msg_def)
next
  case False
  define bs where "bs = drop (parsed m) (data m)"
  define n where "n = unat (be_word (take 2 (drop 2 bs)) :: u16)"
  have len: "length bs = length (data m) - parsed m" "4 \<le> length bs" "parsed m \<le> length (data m)"
    using False by (auto simp: bs_def)
  have hdr: "slice (data m) (parsed m) (parsed m + 4) = Some (take 4 bs)"
    using False by (simp add: slice_def bs_def)
  have cut: "take 2 (take 4 bs) = take 2 bs" "drop 2 (take 4 bs) = take 2 (drop 2 bs)"
    by (simp_all add: min_def drop_take)
  show ?thesis
  proof (cases "length bs < 4 + n")
    case True
    then have "length (data m) < parsed m + (4 + n)" using len by auto
    then show ?thesis
      using True len assms hdr cut False
      by (simp add: get_record_ke_def next_frame_def RECORD_HEADER_LEN_def wf_msg_def bs_def [symmetric]
          Let_def n_def)
  next
    case le: False
    have "slice (data m) (parsed m + 4) (parsed m + 4 + min (nat bl) n) = Some (take (nat bl) (take n (drop 4 bs)))"
      using le len by (auto simp: slice_def bs_def min_def add.commute)
    moreover have "parsed m + (4 + n) = length (data m) - length (drop (4 + n) bs)" using le len by simp
    moreover have "\<not> length (data m) < parsed m + (4 + n)" using le len by auto
    ultimately show ?thesis
      using le len assms hdr cut False
      by (simp add: get_record_ke_def next_frame_def RECORD_HEADER_LEN_def wf_msg_def bs_def [symmetric]
          Let_def n_def [symmetric] trunc_def)
  qed
qed

fun handle_all ::
  "bool \<Rightarrow> int \<Rightarrow> ('s \<Rightarrow> bool) \<Rightarrow> (KeRecord \<Rightarrow> 's \<Rightarrow> 's run) \<Rightarrow> KeRecord list \<Rightarrow> 's \<Rightarrow> 's run" where
  "handle_all hide bl stop step [] s = ret s"
| "handle_all hide bl stop step (r # rs) s =
     (if stop s \<or> hide \<and> record_type r = NKE_RECORD_END_OF_MESSAGE then ret s
      else do { s' \<leftarrow> step (trunc bl r) s; handle_all hide bl stop step rs s' })"

lemma handle_all_stop [simp]: "stop s \<Longrightarrow> handle_all hide bl stop step rs s = ret s"
  by (cases rs) auto

lemma record_loop_frames:
  assumes "wf_msg m" "0 \<le> bl" "frames (drop (parsed m) (data m)) = (rs, rest)"
  shows "map_option snd (record_loop hide bl stop step m s) = handle_all hide bl stop step rs s \<and>
    (\<forall>m' s'. record_loop hide bl stop step m s = Some (m', s') \<longrightarrow>
      data m' = data m \<and> msg_length m' = msg_length m \<and> complete m' = complete m \<and>
      (\<not> hide \<longrightarrow> \<not> stop s' \<longrightarrow> parsed m' = length (data m) - length rest))"
  using assms
proof (induction "length (data m) - parsed m" arbitrary: m s rs rule: less_induct)
  case less
  let ?bs = "drop (parsed m) (data m)"
  show ?case
  proof (cases "stop s")
    case True
    then have "record_loop hide bl stop step m s = Some (m, s)" by (subst record_loop.simps) simp
    then show ?thesis using True by simp
  next
    case run: False
    note get = get_record_eq [OF less.prems(1,2)]
    show ?thesis
    proof (cases "next_frame ?bs")
      case None
      then have f: "rs = []" "rest = ?bs" using less.prems(3) by (subst (asm) frames.simps, simp)+
      have "fetch hide bl m = Some (m, None)" using None get by (simp add: fetch_def next_record_def)
      then have "record_loop hide bl stop step m s = Some (m, s)"
        using run by (subst record_loop.simps) simp
      then show ?thesis using f less.prems(1) by (simp add: wf_msg_def)
    next
      case (Some x)
      obtain r bs' where x: "next_frame ?bs = Some (r, bs')" using Some by (cases x) auto
      obtain rs' where rs: "rs = r # rs'" "frames bs' = (rs', rest)"
        using less.prems(3) x by (subst (asm) frames.simps) (cases "frames bs'", auto)
      let ?m = "m\<lparr>parsed := length (data m) - length bs'\<rparr>"
      have short: "length bs' < length ?bs" using next_frame_shorter [OF x] .
      have suffix: "drop (length (data m) - length bs') (data m) = bs'"
      proof -
        have "\<exists>p. data m = p @ bs'"
          using next_frame_Some [OF x] append_take_drop_id [of "parsed m" "data m"] by (metis append_assoc)
        then show ?thesis by auto
      qed
      show ?thesis
      proof (cases "hide \<and> record_type r = NKE_RECORD_END_OF_MESSAGE")
        case True
        then have "fetch hide bl m = Some (?m, None)"
          using x get by (simp add: fetch_def next_record_def)
        then have "record_loop hide bl stop step m s = Some (?m, s)"
          using run by (subst record_loop.simps) simp
        then show ?thesis using True rs by simp
      next
        case visible: False
        then have fe: "fetch hide bl m = Some (?m, Some (trunc bl r))"
          using x get by (auto simp: fetch_def next_record_def)
        show ?thesis
        proof (cases "step (trunc bl r) s")
          case None
          then have "record_loop hide bl stop step m s = None" using run fe by (subst record_loop.simps) simp
          then show ?thesis using None visible run rs by simp
        next
          case st: (Some s')
          then have eq: "record_loop hide bl stop step m s = record_loop hide bl stop step ?m s'"
            using run fe by (subst record_loop.simps) simp
          have IH: "map_option snd (record_loop hide bl stop step ?m s') = handle_all hide bl stop step rs' s' \<and>
            (\<forall>m' s''. record_loop hide bl stop step ?m s' = Some (m', s'') \<longrightarrow>
              data m' = data ?m \<and> msg_length m' = msg_length ?m \<and> complete m' = complete ?m \<and>
              (\<not> hide \<longrightarrow> \<not> stop s'' \<longrightarrow> parsed m' = length (data ?m) - length rest))"
          proof (rule less.hyps)
            show "length (data ?m) - parsed ?m < length (data m) - parsed m" using short by simp
            show "wf_msg ?m" using less.prems(1) by (simp add: wf_msg_def)
            show "frames (drop (parsed ?m) (data ?m)) = (rs', rest)" using rs(2) suffix by simp
          qed (rule less.prems(2))
          have "handle_all hide bl stop step rs s = handle_all hide bl stop step rs' s'"
            unfolding rs(1) handle_all.simps using run visible st by (simp only: if_False bind.bind_lunit simp_thms)
          moreover have "data ?m = data m" "msg_length ?m = msg_length m" "complete ?m = complete m" by simp_all
          ultimately show ?thesis using IH unfolding eq by (simp only:) blast
        qed
      qed
    qed
  qed
qed

lemma handle_all_inv:
  assumes "\<And>r s. r \<in> set rs \<Longrightarrow> I s \<Longrightarrow> \<exists>s'. step (trunc bl r) s = Some s' \<and> I s'" "I s"
  shows "\<exists>s'. handle_all hide bl stop step rs s = Some s' \<and> I s'"
  using assms
proof (induction rs arbitrary: s)
  case (Cons r rs)
  then obtain s' where s': "step (trunc bl r) s = Some s'" "I s'" by (meson list.set_intros(1))
  have "\<exists>s''. handle_all hide bl stop step rs s' = Some s'' \<and> I s''"
    using Cons.prems(1) s'(2) by (intro Cons.IH) auto
  then show ?case using s' Cons.prems(2) by auto
qed auto

lemma record_loop_result:
  assumes "wf_msg m" "parsed m = 0" "0 \<le> bl" "frames (data m) = (rs, rest)"
    and "handle_all hide bl stop step rs s = Some s'"
  shows "\<exists>m'. record_loop hide bl stop step m s = Some (m', s') \<and> data m' = data m \<and>
    msg_length m' = msg_length m \<and> complete m' = complete m \<and>
    (\<not> hide \<longrightarrow> \<not> stop s' \<longrightarrow> parsed m' = length (data m) - length rest)"
proof -
  have fr: "frames (drop (parsed m) (data m)) = (rs, rest)" using assms(2,4) by simp
  note loop = record_loop_frames [OF assms(1,3) fr, of hide stop step s]
  obtain m' where "record_loop hide bl stop step m s = Some (m', s')"
    using conjunct1 [OF loop] unfolding assms(5) by auto
  then show ?thesis using conjunct2 [OF loop] by blast
qed

section \<open>The message format check\<close>

definition eom_rec :: KeRecord where
  "eom_rec = \<lparr>critical = True, record_type = 0, body_length = 0, body = []\<rparr>"

text \<open>A complete message: records other than End of Message, and one critical, empty End of Message.\<close>

definition terminated :: "bytes \<Rightarrow> bool" where
  "terminated bs \<longleftrightarrow> (\<exists>rs. list_all (\<lambda>r. valid_rec r \<and> record_type r \<noteq> 0) rs \<and> bs = frame (rs @ [eom_rec]))"

text \<open>An End of Message record that is not critical, not empty or not the first one.\<close>

fun bad_end :: "bool \<Rightarrow> KeRecord list \<Rightarrow> bool" where
  "bad_end seen [] = False"
| "bad_end seen (r # rs) =
     (if record_type r = 0 then \<not> critical r \<or> body_length r \<noteq> 0 \<or> seen \<or> bad_end True rs else bad_end seen rs)"

lemma check_steps:
  assumes "\<not> malformed s"
  shows "\<exists>s'. handle_all False 0 malformed check_step rs s = Some s' \<and> malformed s' = bad_end (ends s > 0) rs \<and>
     (\<not> malformed s' \<longrightarrow> last_type s' = (if rs = [] then last_type s else record_type (last rs)))"
  using assms
proof (induction rs arbitrary: s)
  case (Cons r rs)
  let ?s = "s\<lparr>last_type := record_type r\<rparr>"
  consider (other) "record_type r \<noteq> 0" | (bad) "record_type r = 0" "\<not> critical r \<or> body_length r \<noteq> 0 \<or> ends s > 0"
    | (good) "record_type r = 0" "critical r" "body_length r = 0" "ends s = 0" by auto
  then show ?case
  proof cases
    case other
    then have "check_step (trunc 0 r) s = Some ?s" by (simp add: check_step_def nke_types)
    then show ?thesis using Cons.IH [of ?s] Cons.prems other by auto
  next
    case bad
    then have "check_step (trunc 0 r) s = Some (?s\<lparr>malformed := True\<rparr>)" by (simp add: check_step_def nke_types)
    then show ?thesis using Cons.prems bad by auto
  next
    case good
    then have "check_step (trunc 0 r) s = Some (?s\<lparr>ends := 1\<rparr>)" by (simp add: check_step_def nke_types)
    then show ?thesis using Cons.IH [of "?s\<lparr>ends := 1\<rparr>"] Cons.prems good by auto
  qed
qed auto

lemma bad_end_append:
  "bad_end seen (rs @ [r]) \<longleftrightarrow> bad_end seen rs \<or>
     record_type r = 0 \<and> (\<not> critical r \<or> body_length r \<noteq> 0 \<or> seen \<or> (\<exists>q \<in> set rs. record_type q = 0))"
  by (induction rs arbitrary: seen) auto

lemma bad_end_none: "(\<forall>r \<in> set rs. record_type r \<noteq> 0) \<Longrightarrow> \<not> bad_end seen rs"
  by (induction rs arbitrary: seen) auto

lemma eom_rec_valid [simp]: "valid_rec eom_rec" "record_type eom_rec = 0"
  by (simp_all add: eom_rec_def valid_rec_def)

text \<open>The three tests at the end of the check single out the complete messages.\<close>

lemma terminated_iff:
  assumes "frames bs = (rs, rest)"
  shows "terminated bs \<longleftrightarrow> \<not> bad_end False rs \<and> rest = [] \<and> rs \<noteq> [] \<and> record_type (last rs) = 0"
proof
  assume "terminated bs"
  then obtain qs where qs: "list_all (\<lambda>r. valid_rec r \<and> record_type r \<noteq> 0) qs" "bs = frame (qs @ [eom_rec])"
    by (auto simp: terminated_def)
  then have "frames (frame (qs @ [eom_rec]) @ []) = (qs @ [eom_rec], [])"
    by (intro frames_frame) (auto simp: list_all_iff)
  then have "rs = qs @ [eom_rec]" "rest = []" using assms qs(2) by auto
  then show "\<not> bad_end False rs \<and> rest = [] \<and> rs \<noteq> [] \<and> record_type (last rs) = 0"
    using qs(1) bad_end_none [of qs False] by (auto simp: bad_end_append list_all_iff eom_rec_def)
next
  assume *: "\<not> bad_end False rs \<and> rest = [] \<and> rs \<noteq> [] \<and> record_type (last rs) = 0"
  then obtain qs e where rs: "rs = qs @ [e]" "record_type e = 0" by (metis append_butlast_last_id)
  then have e: "critical e" "body_length e = 0" "\<forall>q \<in> set qs. record_type q \<noteq> 0"
    using * by (auto simp: bad_end_append)
  have f: "bs = frame rs" "list_all valid_rec rs" using frames_spec [OF assms] * by auto
  then have "e = eom_rec" using e rs by (cases e) (auto simp: valid_rec_def eom_rec_def)
  then show "terminated bs" using f e(3) rs by (auto simp: terminated_def list_all_iff intro!: exI [of _ qs])
qed

text \<open>
  C14. The format check ends on every received byte string without a panic. It marks the message complete
  exactly when the bytes are a run of records closed by one critical, empty End of Message record and
  nothing after it, and it answers yes on those, and on any other input only if more data may come and no
  End of Message record seen so far was malformed or repeated.
\<close>

theorem check_message_format_correct:
  "\<exists>m'. check_message_format (from_received bs) eof =
      Some (m', terminated bs \<or> \<not> eof \<and> \<not> bad_end False (fst (frames bs))) \<and>
    (complete m' \<longleftrightarrow> terminated bs) \<and> data m' = bs"
proof -
  obtain rs rest where fr: "frames bs = (rs, rest)" by fastforce
  let ?m = "(reset_parsing (from_received bs))\<lparr>complete := False\<rparr>"
  let ?s = "\<lparr>ends = 0, last_type = - 1, malformed = False\<rparr>"
  have m: "wf_msg ?m" "parsed ?m = 0" "data ?m = bs" "msg_length ?m = length bs" "\<not> complete ?m"
    by (simp_all add: wf_msg_def reset_parsing_def from_received_def)
  obtain s' where s': "handle_all False 0 malformed check_step rs ?s = Some s'" "malformed s' = bad_end False rs"
    "\<not> malformed s' \<Longrightarrow> last_type s' = (if rs = [] then - 1 else record_type (last rs))"
    using check_steps [of ?s rs] by auto
  obtain m' where m': "record_loop False 0 malformed check_step ?m ?s = Some (m', s')" "data m' = bs"
    "msg_length m' = length bs" "\<not> complete m'" "\<not> malformed s' \<Longrightarrow> parsed m' = length bs - length rest"
    using record_loop_result [OF m(1,2) _ _ s'(1)] fr m(3-5) by auto
  have bs: "bs = frame rs @ rest" using frames_spec [OF fr] by simp
  then have "length bs = 0 \<or> length bs - length rest < length bs \<longleftrightarrow> rs = [] \<and> rest = [] \<or> rest \<noteq> []"
    by (cases rs) (auto simp: encode_rec_def)
  then show ?thesis
    using m' s' terminated_iff [OF fr] fr
    by (auto simp: check_message_format_def nke_types)
qed

section \<open>Composed messages\<close>

definition mk_rec :: "bool \<times> int \<times> bytes \<Rightarrow> KeRecord" where
  "mk_rec t = (case t of (crit, rtype, bdy) \<Rightarrow>
     \<lparr>critical = crit, record_type = rtype, body_length = int (length bdy), body = bdy\<rparr>)"

definition wire_size :: "(bool \<times> int \<times> bytes) list \<Rightarrow> nat" where
  "wire_size ts = sum_list (map (\<lambda>(crit, rtype, bdy). 4 + length bdy) ts)"

definition sendable :: "bool \<times> int \<times> bytes \<Rightarrow> bool" where
  "sendable t \<longleftrightarrow> (case t of (crit, rtype, bdy) \<Rightarrow> 0 \<le> rtype \<and> rtype \<le> 0x7fff \<and> length bdy \<le> 0xffff)"

lemma mk_rec_valid: "valid_rec (mk_rec t) \<longleftrightarrow> sendable t"
  by (cases t) (simp add: mk_rec_def valid_rec_def sendable_def)

lemma encode_mk_rec:
  "encode_rec (mk_rec (crit, rtype, bdy)) =
     be_bytes 2 ((if crit then NKE_RECORD_CRITICAL_BIT else 0) OR word_of_int rtype :: u16) @
     be_bytes 2 (of_nat (length bdy) :: u16) @ bdy"
  by (simp add: mk_rec_def encode_rec_def)

lemma add_records_ok:
  assumes "list_all sendable ts" "msg_length m + wire_size ts \<le> NKE_MAX_MESSAGE_LENGTH"
  shows "add_records ts m = Some (Some (m\<lparr>data := data m @ frame (map mk_rec ts), msg_length := msg_length m + wire_size ts\<rparr>))"
  using assms
proof (induction ts arbitrary: m)
  case (Cons t ts)
  obtain crit rtype bdy where t: "t = (crit, rtype, bdy)" by (cases t)
  let ?m = "m\<lparr>data := data m @ encode_rec (mk_rec t), msg_length := msg_length m + (4 + length bdy)\<rparr>"
  have "add_record m crit rtype bdy = Some (?m, True)"
    using Cons.prems by (simp add: t add_record_def encode_mk_rec sendable_def wire_size_def RECORD_HEADER_LEN_def
        del: be_bytes.simps)
  moreover have "add_records ts ?m = Some (Some (?m\<lparr>data := data ?m @ frame (map mk_rec ts),
      msg_length := msg_length ?m + wire_size ts\<rparr>))"
    using Cons.prems by (intro Cons.IH) (auto simp: t wire_size_def)
  ultimately show ?case by (simp add: t wire_size_def)
qed (simp add: wire_size_def)

lemma wire_size_simps [simp]:
  "wire_size [] = 0" "wire_size ((c, t, b) # ts) = 4 + length b + wire_size ts"
  "wire_size (ts @ us) = wire_size ts + wire_size us"
  by (simp_all add: wire_size_def)

lemma length_frame: "length (frame (map mk_rec ts)) = wire_size ts"
  by (induction ts) (auto simp: encode_mk_rec simp del: be_bytes.simps)

text \<open>The message composed from records, ready to be read back.\<close>

lemma composed:
  assumes "list_all sendable ts" "wire_size ts \<le> NKE_MAX_MESSAGE_LENGTH"
  obtains m where "add_records ts new_msg = Some (Some m)" "wf_msg m" "parsed m = 0"
    "frames (data m) = (map mk_rec ts, [])"
proof -
  have "list_all valid_rec (map mk_rec ts)" using assms(1) by (simp add: list_all_iff mk_rec_valid)
  then have "frames (frame (map mk_rec ts)) = (map mk_rec ts, [])" using frames_frame [of _ "[]"] by simp
  then show ?thesis
    using add_records_ok [OF assms(1), of new_msg] assms(2) length_frame [of ts]
    by (intro that) (auto simp: new_msg_def wf_msg_def)
qed

text \<open>
  C15. Records survive the wire: a list of records that fits the message buffer is accepted by
  \<open>add_record\<close> one by one, and reading the message back with a large enough buffer returns the same
  records, bodies included, in the same order.
\<close>

theorem records_roundtrip:
  assumes "list_all sendable ts" "wire_size ts \<le> NKE_MAX_MESSAGE_LENGTH"
  shows "\<exists>m m'. add_records ts new_msg = Some (Some m) \<and>
     record_loop False 0xffff (\<lambda>_. False) (\<lambda>r acc. Some (acc @ [r])) m [] = Some (m', map mk_rec ts)"
proof -
  obtain m where m: "add_records ts new_msg = Some (Some m)" "wf_msg m" "parsed m = 0"
    "frames (data m) = (map mk_rec ts, [])" using composed [OF assms] .
  have "handle_all False 0xffff (\<lambda>_. False) (\<lambda>r acc. Some (acc @ [r])) (map mk_rec ts) acc = Some (acc @ map mk_rec ts)"
    for acc
    using assms(1)
  proof (induction ts arbitrary: acc)
    case (Cons t ts)
    then have "trunc 0xffff (mk_rec t) = mk_rec t" by (cases t) (simp add: trunc_def mk_rec_def sendable_def)
    then show ?case using Cons by simp
  qed simp
  from record_loop_result [OF m(2,3) _ m(4) this [of "[]"]] m(1) show ?thesis by auto
qed

section \<open>The negotiation\<close>

lemma be16_0: "be_bytes 2 (0 :: u16) = [0, 0]"
  by code_simp

lemma be16_aead: "be_bytes 2 AEAD_AES_128_GCM_SIV = [0, 30]" "be_bytes 2 AEAD_AES_SIV_CMAC_256 = [0, 15]"
  by code_simp+

lemma be16_words: "be_word [0, 0] = (0 :: u16)" "be_word [0, 30] = AEAD_AES_128_GCM_SIV"
  "be_word [0, 15] = AEAD_AES_SIV_CMAC_256"
  by code_simp+

text \<open>What the server selects from a client's offer.\<close>

definition negotiated :: "(u16 \<Rightarrow> bool) \<Rightarrow> (u16 \<Rightarrow> bool) \<Rightarrow> int" where
  "negotiated client server =
     (if client AEAD_AES_128_GCM_SIV \<and> server AEAD_AES_128_GCM_SIV then uint AEAD_AES_128_GCM_SIV
      else if client AEAD_AES_SIV_CMAC_256 \<and> server AEAD_AES_SIV_CMAC_256 then uint AEAD_AES_SIV_CMAC_256
      else - 1)"

lemma read_be16_simps:
  "read_be16 (a # b # r) 0 = Some (be_word [a, b])"
  "read_be16 (a # b # c # d # r) (Suc 0) = Some (be_word [c, d])"
  by (simp_all add: read_be16_def index_def)

lemma wf_reset: "wf_msg m \<Longrightarrow> wf_msg (reset_parsing m)" "parsed (reset_parsing m) = 0"
  "data (reset_parsing m) = data m" "wf_msg (m\<lparr>complete := b\<rparr>) = wf_msg m"
  by (simp_all add: wf_msg_def reset_parsing_def)

text \<open>Reading a composed, completed message with one of the negotiation loops.\<close>

lemma run_negotiation:
  assumes "wf_msg m" "frames (data m) = (rs, rest)" "handle_all True NKE_MAX_RECORD_BODY_LENGTH stop step rs s = Some s'"
  shows "\<exists>m'. record_loop True NKE_MAX_RECORD_BODY_LENGTH stop step (reset_parsing m) s = Some (m', s')"
  using record_loop_result [OF wf_reset(1) [OF assms(1)] wf_reset(2) _ _ assms(3)] assms(2)
  by (auto simp: wf_reset NKE_MAX_RECORD_BODY_LENGTH_def)

lemma request_handled:
  assumes "client AEAD_AES_128_GCM_SIV \<or> client AEAD_AES_SIV_CMAC_256"
  defines "offer \<equiv> (if client AEAD_AES_128_GCM_SIV then be_bytes 2 AEAD_AES_128_GCM_SIV else []) @
     (if client AEAD_AES_SIV_CMAC_256 then be_bytes 2 AEAD_AES_SIV_CMAC_256 else [])"
  shows "\<exists>s. handle_all True NKE_MAX_RECORD_BODY_LENGTH (\<lambda>s. \<not> rs_error s < 0) (request_step server)
     (map mk_rec [(True, NKE_RECORD_NEXT_PROTOCOL, be_bytes 2 (0 :: u16)), (True, NKE_RECORD_AEAD_ALGORITHM, offer),
        (True, NKE_RECORD_END_OF_MESSAGE, [])])
     \<lparr>next_protocol_records = 0, aead_algorithm_records = 0, next_protocol_values = 0,
        aead_algorithm_values = 0, rs_next_protocol = - 1, rs_aead_algorithm = - 1, rs_error = - 1\<rparr> = Some s \<and>
     rs_error s = - 1 \<and> next_protocol_records s = 1 \<and> next_protocol_values s = 1 \<and> rs_next_protocol s = 0 \<and>
     aead_algorithm_records s = 1 \<and> 1 \<le> aead_algorithm_values s \<and> rs_aead_algorithm s = negotiated client server"
  using assms(1) unfolding offer_def be16_0 be16_aead
  by (cases "client AEAD_AES_128_GCM_SIV"; cases "client AEAD_AES_SIV_CMAC_256";
      cases "server AEAD_AES_128_GCM_SIV"; cases "server AEAD_AES_SIV_CMAC_256")
    (simp_all add: mk_rec_def nke_types request_step_def NKE_MAX_RECORD_BODY_LENGTH_def read_be16_simps
      be16_words NKE_NEXT_PROTOCOL_NTPV4_def negotiated_def upt_rec AEAD_AES_128_GCM_SIV_def
      AEAD_AES_SIV_CMAC_256_def)

text \<open>
  C16. Client and server agree: the request built by a client that supports at least one of the two
  algorithms is accepted by the server without error, for NTPv4, and the server selects the first
  algorithm in the client's order (AES-128-GCM-SIV, then AES-SIV-CMAC-256) that both sides support,
  or none.
\<close>

theorem request_negotiation:
  assumes "client AEAD_AES_128_GCM_SIV \<or> client AEAD_AES_SIV_CMAC_256"
  shows "\<exists>m m'. prepare_request client = Some (Some m) \<and>
     process_request m server = Some (m', \<lparr>req_error = - 1, req_next_protocol = NKE_NEXT_PROTOCOL_NTPV4,
       req_aead_algorithm = negotiated client server\<rparr>)"
proof -
  let ?offer = "(if client AEAD_AES_128_GCM_SIV then be_bytes 2 AEAD_AES_128_GCM_SIV else []) @
     (if client AEAD_AES_SIV_CMAC_256 then be_bytes 2 AEAD_AES_SIV_CMAC_256 else [])"
  let ?ts = "[(True, NKE_RECORD_NEXT_PROTOCOL, be_bytes 2 (0 :: u16)), (True, NKE_RECORD_AEAD_ALGORITHM, ?offer),
     (True, NKE_RECORD_END_OF_MESSAGE, [])]"
  have "list_all sendable ?ts" "wire_size ?ts \<le> NKE_MAX_MESSAGE_LENGTH"
    by (auto simp: sendable_def nke_types NKE_MAX_MESSAGE_LENGTH_def simp del: be_bytes.simps)
  then obtain m where m: "add_records ?ts new_msg = Some (Some m)" "wf_msg m" "frames (data m) = (map mk_rec ?ts, [])"
    by (rule composed)
  let ?m = "m\<lparr>complete := True\<rparr>"
  obtain s where s: "handle_all True NKE_MAX_RECORD_BODY_LENGTH (\<lambda>s. \<not> rs_error s < 0) (request_step server)
      (map mk_rec ?ts) \<lparr>next_protocol_records = 0, aead_algorithm_records = 0, next_protocol_values = 0,
        aead_algorithm_values = 0, rs_next_protocol = - 1, rs_aead_algorithm = - 1, rs_error = - 1\<rparr> = Some s"
    "rs_error s = - 1" "next_protocol_records s = 1" "next_protocol_values s = 1" "rs_next_protocol s = 0"
    "aead_algorithm_records s = 1" "1 \<le> aead_algorithm_values s" "rs_aead_algorithm s = negotiated client server"
    using request_handled [OF assms, of server] by blast
  have "prepare_request client = Some (Some ?m)"
    using m(1) by (simp add: prepare_request_def NKE_NEXT_PROTOCOL_NTPV4_def)
  moreover obtain m' where "record_loop True NKE_MAX_RECORD_BODY_LENGTH (\<lambda>s. \<not> rs_error s < 0) (request_step server)
      (reset_parsing ?m) \<lparr>next_protocol_records = 0, aead_algorithm_records = 0, next_protocol_values = 0,
        aead_algorithm_values = 0, rs_next_protocol = - 1, rs_aead_algorithm = - 1, rs_error = - 1\<rparr> = Some (m', s)"
    using run_negotiation [of ?m, OF _ _ s(1)] m by (auto simp: wf_reset)
  ultimately show ?thesis
    using s(2-) by (auto simp: process_request_def Let_def NKE_NEXT_PROTOCOL_NTPV4_def)
qed

definition good_cookie :: "bytes \<Rightarrow> bool" where
  "good_cookie c \<longleftrightarrow> 1 \<le> length c \<and> length c \<le> NKE_MAX_COOKIE_LENGTH \<and> length c mod 4 = 0"

lemma int_mod_4: "int n mod 4 = 0 \<longleftrightarrow> n mod 4 = 0"
  by presburger

lemma cookie_step:
  assumes "good_cookie c" "length (cookies r) < NKE_MAX_COOKIES"
  shows "response_step supp (trunc NKE_MAX_RECORD_BODY_LENGTH (mk_rec (False, NKE_RECORD_COOKIE, c))) (r, e) =
     Some (r\<lparr>cookies := cookies r @ [c]\<rparr>, e)"
  using assms by (simp add: response_step_def mk_rec_def nke_types good_cookie_def NKE_MAX_COOKIE_LENGTH_def
      NKE_MAX_RECORD_BODY_LENGTH_def int_mod_4)

lemma cookies_handled:
  assumes "list_all good_cookie cks" "length (cookies r) + length cks \<le> NKE_MAX_COOKIES"
  shows "handle_all True NKE_MAX_RECORD_BODY_LENGTH snd (response_step supp)
     (map mk_rec (map (\<lambda>c. (False, NKE_RECORD_COOKIE, c)) cks @ [(True, NKE_RECORD_END_OF_MESSAGE, [])])) (r, False) =
     Some (r\<lparr>cookies := cookies r @ cks\<rparr>, False)"
  using assms
proof (induction cks arbitrary: r)
  case Nil
  then show ?case by (simp add: mk_rec_def)
next
  case (Cons c cks)
  have "record_type (mk_rec (False, NKE_RECORD_COOKIE, c)) \<noteq> NKE_RECORD_END_OF_MESSAGE"
    by (simp add: mk_rec_def nke_types)
  then show ?case using Cons.prems Cons.IH [of "r\<lparr>cookies := cookies r @ [c]\<rparr>"]
    by (simp add: cookie_step)
qed

lemma read_be16_be_bytes: "read_be16 (be_bytes 2 (w :: u16)) 0 = Some w"
proof -
  obtain a b where ab: "be_bytes 2 w = [a, b]" by (simp add: numeral_2_eq_2)
  then have "be_word [a, b] = w" using be_word_be_bytes [of 2 w] by simp
  then show ?thesis unfolding ab by (simp add: read_be16_simps)
qed

text \<open>A server name the client accepts.\<close>

definition good_server :: "bytes \<Rightarrow> bool" where
  "good_server n \<longleftrightarrow> 1 \<le> length n \<and> length n \<le> 256 \<and> list_all is_graphic n"

lemma response_steps:
  fixes supp r
  defines "step \<equiv> \<lambda>t. response_step supp (trunc NKE_MAX_RECORD_BODY_LENGTH (mk_rec t)) (r, False)"
  shows "step (True, NKE_RECORD_NEXT_PROTOCOL, be_bytes 2 (0 :: u16)) = Some (r\<lparr>next_protocol := 0\<rparr>, False)"
    "alg = AEAD_AES_128_GCM_SIV \<or> alg = AEAD_AES_SIV_CMAC_256 \<Longrightarrow> supp alg \<Longrightarrow>
       step (True, NKE_RECORD_AEAD_ALGORITHM, be_bytes 2 alg) = Some (r\<lparr>aead_algorithm := uint alg\<rparr>, False)"
    "step (True, NKE_RECORD_NTPV4_PORT_NEGOTIATION, be_bytes 2 p) = Some (r\<lparr>ntp_port := p\<rparr>, False)"
    "good_server n \<Longrightarrow> step (True, NKE_RECORD_NTPV4_SERVER_NEGOTIATION, n) = Some (r\<lparr>server_name := n\<rparr>, False)"
  unfolding step_def
  by (auto simp: response_step_def mk_rec_def nke_types NKE_MAX_RECORD_BODY_LENGTH_def read_be16_be_bytes
      NKE_NEXT_PROTOCOL_NTPV4_def SERVER_NAME_BUF_def good_server_def simp del: be_bytes.simps)

lemma mk_rec_type [simp]: "record_type (mk_rec (c, t, b)) = t"
  by (simp add: mk_rec_def)

lemma response_handled:
  assumes "alg = AEAD_AES_128_GCM_SIV \<or> alg = AEAD_AES_SIV_CMAC_256" "supp alg"
    and "list_all good_cookie cks" "length cks \<le> NKE_MAX_COOKIES" "pred_option good_server server"
  shows "handle_all True NKE_MAX_RECORD_BODY_LENGTH snd (response_step supp)
     (map mk_rec (response_records (- 1) 0 (uint alg) port server cks @ [(True, NKE_RECORD_END_OF_MESSAGE, [])]))
     (\<lparr>ok = False, next_protocol = - 1, aead_algorithm = - 1, cookies = [], server_name = [], ntp_port = 0\<rparr>, False) =
     Some (\<lparr>ok = False, next_protocol = 0, aead_algorithm = uint alg, cookies = cks,
       server_name = (case server of Some n \<Rightarrow> n | None \<Rightarrow> []), ntp_port = (case port of Some p \<Rightarrow> p | None \<Rightarrow> 0)\<rparr>, False)"
proof -
  have types: "NKE_RECORD_NEXT_PROTOCOL \<noteq> NKE_RECORD_END_OF_MESSAGE"
    "NKE_RECORD_AEAD_ALGORITHM \<noteq> NKE_RECORD_END_OF_MESSAGE"
    "NKE_RECORD_NTPV4_PORT_NEGOTIATION \<noteq> NKE_RECORD_END_OF_MESSAGE"
    "NKE_RECORD_NTPV4_SERVER_NEGOTIATION \<noteq> NKE_RECORD_END_OF_MESSAGE" by (simp_all add: nke_types)
  show ?thesis
    using assms(3-5) unfolding response_records_def
    by (cases port; cases server)
      (simp_all add: types response_steps(1,3,4) response_steps(2) [where supp = supp, OF assms(1,2)] cookies_handled [simplified]
        del: be_bytes.simps)
qed

text \<open>
  C17. The server's answer reaches the client: with an algorithm the client supports, up to eight cookies
  of valid length (at least one) and, optionally, a port and a printable server name, the composed answer
  fits the message buffer and the client reads back exactly the protocol, the algorithm, the cookies,
  the port and the name, and finds the answer usable.
\<close>

theorem response_negotiation:
  assumes "alg = AEAD_AES_128_GCM_SIV \<or> alg = AEAD_AES_SIV_CMAC_256" "supp alg"
    and "list_all good_cookie cks" "cks \<noteq> []" "length cks \<le> NKE_MAX_COOKIES" "pred_option good_server server"
  shows "\<exists>m m'. prepare_response (- 1) 0 (uint alg) port server cks = Some (Some m) \<and>
     process_response m supp = Some (m', \<lparr>ok = True, next_protocol = 0, aead_algorithm = uint alg, cookies = cks,
       server_name = (case server of Some n \<Rightarrow> n | None \<Rightarrow> []), ntp_port = (case port of Some p \<Rightarrow> p | None \<Rightarrow> 0)\<rparr>)"
proof -
  let ?ts = "response_records (- 1) 0 (uint alg) port server cks @ [(True, NKE_RECORD_END_OF_MESSAGE, [])]"
  have "wire_size (map (\<lambda>c. (False, NKE_RECORD_COOKIE, c)) cks) \<le> 260 * length cks"
    using assms(3) by (induction cks) (auto simp: good_cookie_def NKE_MAX_COOKIE_LENGTH_def)
  then have "wire_size (map (\<lambda>c. (False, NKE_RECORD_COOKIE, c)) cks) \<le> 2080"
    using assms(5) by (simp add: NKE_MAX_COOKIES_def)
  then have "wire_size ?ts \<le> NKE_MAX_MESSAGE_LENGTH"
    using assms(6) by (auto simp: response_records_def good_server_def NKE_MAX_MESSAGE_LENGTH_def
        split: option.splits simp del: be_bytes.simps)
  moreover have "list_all sendable ?ts"
    using assms(3,6) by (auto simp: response_records_def good_server_def sendable_def nke_types list_all_iff
        good_cookie_def NKE_MAX_COOKIE_LENGTH_def split: option.splits simp del: be_bytes.simps)
  ultimately obtain m where m: "add_records ?ts new_msg = Some (Some m)" "wf_msg m"
    "frames (data m) = (map mk_rec ?ts, [])"
    using composed [of ?ts] by blast
  let ?m = "m\<lparr>complete := True\<rparr>"
  have "prepare_response (- 1) 0 (uint alg) port server cks = Some (Some ?m)"
    using m(1) by (simp add: prepare_response_def)
  moreover have "frames (data ?m) = (map mk_rec ?ts, [])" "wf_msg ?m" using m by (simp_all add: wf_reset)
  then obtain m' where "record_loop True NKE_MAX_RECORD_BODY_LENGTH snd (response_step supp) (reset_parsing ?m)
      (\<lparr>ok = False, next_protocol = - 1, aead_algorithm = - 1, cookies = [], server_name = [], ntp_port = 0\<rparr>, False) =
      Some (m', \<lparr>ok = False, next_protocol = 0, aead_algorithm = uint alg, cookies = cks,
       server_name = (case server of Some n \<Rightarrow> n | None \<Rightarrow> []), ntp_port = (case port of Some p \<Rightarrow> p | None \<Rightarrow> 0)\<rparr>, False)"
    using run_negotiation [OF _ _ response_handled [where supp = supp, OF assms(1-3,5,6), where port = port]] by blast
  ultimately show ?thesis
    using assms(4) by (auto simp: process_response_def NKE_NEXT_PROTOCOL_NTPV4_def)
qed

text \<open>What every client state satisfies, whatever was received.\<close>

definition client_inv :: "(u16 \<Rightarrow> bool) \<Rightarrow> KeResponse \<times> bool \<Rightarrow> bool" where
  "client_inv supp s \<longleftrightarrow> list_all good_cookie (cookies (fst s)) \<and> length (cookies (fst s)) \<le> NKE_MAX_COOKIES \<and>
     (aead_algorithm (fst s) = - 1 \<or>
      (\<exists>alg \<in> {AEAD_AES_SIV_CMAC_256, AEAD_AES_128_GCM_SIV}. aead_algorithm (fst s) = uint alg \<and> supp alg))"

lemma read_be16_total: "2 * i + 1 < length b \<Longrightarrow> \<exists>v. read_be16 b i = Some v"
  by (simp add: read_be16_def index_def)

lemma client_inv_updates:
  "client_inv supp (k, e) \<Longrightarrow> client_inv supp (k, e')"
  "client_inv supp (k, e) \<Longrightarrow> client_inv supp (k\<lparr>next_protocol := n\<rparr>, e')"
  "client_inv supp (k, e) \<Longrightarrow> client_inv supp (k\<lparr>server_name := b\<rparr>, e')"
  "client_inv supp (k, e) \<Longrightarrow> client_inv supp (k\<lparr>ntp_port := p\<rparr>, e')"
  "client_inv supp (k, e) \<Longrightarrow> good_cookie c \<Longrightarrow> length (cookies k) < NKE_MAX_COOKIES \<Longrightarrow>
     client_inv supp (k\<lparr>cookies := cookies k @ [c]\<rparr>, e')"
  "client_inv supp (k, e) \<Longrightarrow> alg = AEAD_AES_SIV_CMAC_256 \<or> alg = AEAD_AES_128_GCM_SIV \<Longrightarrow> supp alg \<Longrightarrow>
     client_inv supp (k\<lparr>aead_algorithm := uint alg\<rparr>, e')"
  by (auto simp: client_inv_def)

lemma returns_read_be16: "2 * i + 1 < length b \<Longrightarrow> (\<And>v. P v) \<Longrightarrow> returns (read_be16 b i) P"
  using read_be16_total [of i b] by (auto simp: returns_def)

lemma response_step_inv:
  assumes "valid_rec r" "client_inv supp s"
  shows "returns (response_step supp (trunc NKE_MAX_RECORD_BODY_LENGTH r) s) (client_inv supp)"
proof -
  obtain k e where s: "s = (k, e)" by (cases s)
  have b: "body_length r = int (length (body r))" "nat NKE_MAX_RECORD_BODY_LENGTH = 256"
    using assms(1) by (simp_all add: valid_rec_def NKE_MAX_RECORD_BODY_LENGTH_def)
  have inv: "client_inv supp (k, e)" using assms(2) s by simp
  note upd = client_inv_updates(1-4) [OF inv]
  show ?thesis
    unfolding response_step_def s prod.case Let_def trunc_simps b
  proof (intro returns_rules returns_read_be16 upd)
    fix alg :: u16
    assume "\<not> (int (length (body r)) \<noteq> 2 \<or>
      (alg \<noteq> AEAD_AES_SIV_CMAC_256 \<and> alg \<noteq> AEAD_AES_128_GCM_SIV) \<or> \<not> supp alg)"
    then show "client_inv supp (k\<lparr>aead_algorithm := uint alg\<rparr>, e)"
      by (intro client_inv_updates(6) [OF inv]) auto
  next
    assume "1 \<le> int (length (body r)) \<and> nat (int (length (body r))) \<le> NKE_MAX_COOKIE_LENGTH \<and>
      int (length (body r)) mod 4 = 0 \<and> length (cookies k) < NKE_MAX_COOKIES"
    then show "client_inv supp (k\<lparr>cookies := cookies k @ [take 256 (body r)]\<rparr>, e)"
      by (intro client_inv_updates(5) [OF inv]) (auto simp: good_cookie_def int_mod_4 NKE_MAX_COOKIE_LENGTH_def)
  qed auto
qed

lemma protocol_values_total:
  "\<forall>i \<in> set is. 2 * i + 1 < length b \<Longrightarrow> \<exists>s'. protocol_values b is s = Some s'"
proof (induction "is" arbitrary: s)
  case (Cons i "is")
  then obtain v where "read_be16 b i = Some v" using read_be16_total [of i b] by auto
  then show ?case using Cons by (auto simp: Let_def)
qed simp

lemma aead_values_total:
  "\<forall>i \<in> set is. 2 * i + 1 < length b \<Longrightarrow> \<exists>s'. aead_values supp b is s = Some s'"
proof (induction "is" arbitrary: s)
  case (Cons i "is")
  then obtain v where "read_be16 b i = Some v" using read_be16_total [of i b] by auto
  then show ?case using Cons by (auto simp: Let_def)
qed simp

lemma request_step_total:
  assumes "valid_rec r"
  shows "\<exists>s'. request_step supp (trunc NKE_MAX_RECORD_BODY_LENGTH r) s = Some s'"
proof -
  let ?is = "[0..<nat (min (body_length r) NKE_MAX_RECORD_BODY_LENGTH) div 2]"
  have "\<forall>i \<in> set ?is. 2 * i + 1 < length (take (nat NKE_MAX_RECORD_BODY_LENGTH) (body r))"
    using assms by (auto simp: valid_rec_def NKE_MAX_RECORD_BODY_LENGTH_def)
  then show ?thesis
    using protocol_values_total [of ?is] aead_values_total [of ?is]
    by (simp add: request_step_def Let_def)
qed

text \<open>
  C18. Neither side panics on hostile input: whatever bytes the peer sends, \<open>process_request\<close> and
  \<open>process_response\<close> return, and a response that the client finds usable carries one to eight cookies of
  valid length, the NTPv4 protocol and one of the two algorithms, one that the client supports.
\<close>

theorem negotiation_total:
  "(\<exists>r. process_request (from_received bs) supp = Some r) \<and>
   (\<exists>m' r. process_response (from_received bs) supp = Some (m', r) \<and>
      ok r = (ok r \<and> list_all good_cookie (cookies r) \<and> 1 \<le> length (cookies r) \<and> length (cookies r) \<le> 8 \<and>
        next_protocol r = NKE_NEXT_PROTOCOL_NTPV4 \<and>
        (\<exists>alg \<in> {AEAD_AES_SIV_CMAC_256, AEAD_AES_128_GCM_SIV}. aead_algorithm r = uint alg \<and> supp alg)))"
proof -
  obtain rs rest where fr: "frames bs = (rs, rest)" by fastforce
  have m: "wf_msg (from_received bs)" "frames (data (from_received bs)) = (rs, rest)"
    using fr by (simp_all add: wf_msg_def from_received_def)
  have valid: "\<And>r. r \<in> set rs \<Longrightarrow> valid_rec r" using frames_spec [OF fr] by (auto simp: list_all_iff)
  let ?q = "\<lparr>next_protocol_records = 0, aead_algorithm_records = 0, next_protocol_values = 0,
        aead_algorithm_values = 0, rs_next_protocol = - 1, rs_aead_algorithm = - 1, rs_error = - 1\<rparr>"
  let ?p = "(\<lparr>ok = False, next_protocol = - 1, aead_algorithm = - 1, cookies = [], server_name = [], ntp_port = 0\<rparr>, False)"
  have "\<exists>s. handle_all True NKE_MAX_RECORD_BODY_LENGTH (\<lambda>s. \<not> rs_error s < 0) (request_step supp) rs ?q = Some s \<and> True"
    using request_step_total valid by (intro handle_all_inv) auto
  then obtain s where "handle_all True NKE_MAX_RECORD_BODY_LENGTH (\<lambda>s. \<not> rs_error s < 0) (request_step supp) rs ?q = Some s"
    by blast
  then obtain m1 where "record_loop True NKE_MAX_RECORD_BODY_LENGTH (\<lambda>s. \<not> rs_error s < 0) (request_step supp)
      (reset_parsing (from_received bs)) ?q = Some (m1, s)"
    using run_negotiation [OF m] by fastforce
  then have req: "\<exists>r. process_request (from_received bs) supp = Some r" by (simp add: process_request_def Let_def)
  have "\<exists>s. handle_all True NKE_MAX_RECORD_BODY_LENGTH snd (response_step supp) rs ?p = Some s \<and> client_inv supp s"
    using response_step_inv [unfolded returns_def] valid by (intro handle_all_inv) (auto simp: client_inv_def)
  then obtain r e where re: "handle_all True NKE_MAX_RECORD_BODY_LENGTH snd (response_step supp) rs ?p = Some (r, e)"
    "client_inv supp (r, e)" by fast
  then obtain m2 where "record_loop True NKE_MAX_RECORD_BODY_LENGTH snd (response_step supp)
      (reset_parsing (from_received bs)) ?p = Some (m2, r, e)"
    using run_negotiation [OF m re(1)] by blast
  with re(2) have resp: "\<exists>m' r. process_response (from_received bs) supp = Some (m', r) \<and>
      ok r = (ok r \<and> list_all good_cookie (cookies r) \<and> 1 \<le> length (cookies r) \<and> length (cookies r) \<le> 8 \<and>
        next_protocol r = NKE_NEXT_PROTOCOL_NTPV4 \<and>
        (\<exists>alg \<in> {AEAD_AES_SIV_CMAC_256, AEAD_AES_128_GCM_SIV}. aead_algorithm r = uint alg \<and> supp alg))"
    by (auto simp: process_response_def client_inv_def NKE_MAX_COOKIES_def Suc_le_eq)
  show ?thesis using req resp by blast
qed

section \<open>Witnesses\<close>

theorem records_roundtrip_witness:
  "\<exists>m m'. add_records [(True, 1, [0, 0]), (False, 5, [1, 2, 3, 4])] new_msg = Some (Some m) \<and>
     record_loop False 0xffff (\<lambda>_. False) (\<lambda>r acc. Some (acc @ [r])) m [] =
       Some (m', map mk_rec [(True, 1, [0, 0]), (False, 5, [1, 2, 3, 4])])"
  by (rule records_roundtrip) code_simp+

theorem request_negotiation_witness:
  "\<exists>m m'. prepare_request (\<lambda>a. a = 15) = Some (Some m) \<and>
     process_request m (\<lambda>a. True) = Some (m', \<lparr>req_error = - 1, req_next_protocol = NKE_NEXT_PROTOCOL_NTPV4,
       req_aead_algorithm = negotiated (\<lambda>a. a = 15) (\<lambda>a. True)\<rparr>)"
  by (rule request_negotiation) code_simp

theorem response_negotiation_witness:
  "\<exists>m m'. prepare_response (- 1) 0 (uint AEAD_AES_SIV_CMAC_256) (Some 4123) (Some [0x61, 0x62]) [[1, 2, 3, 4]] = Some (Some m) \<and>
     process_response m (\<lambda>a. a = 15) = Some (m', \<lparr>ok = True, next_protocol = 0,
       aead_algorithm = uint AEAD_AES_SIV_CMAC_256, cookies = [[1, 2, 3, 4]],
       server_name = (case Some [0x61, 0x62] of Some n \<Rightarrow> n | None \<Rightarrow> []),
       ntp_port = (case Some 4123 of Some p \<Rightarrow> p | None \<Rightarrow> 0)\<rparr>)"
  by (rule response_negotiation) (code_simp | simp add: good_server_def is_graphic_def)+

end
