(* ===== verification/ClientTs.thy ===== *)
theory ClientTs
  imports Prelude "HOL-Library.Signed_Division"
begin

text \<open>
  The RX-to-TX timestamp map for interleaved mode, the second half of
  \<open>crates/chrony-rs-core/src/clientlog.rs\<close>: a ring buffer of timestamps ordered by their receive
  time, a combined interpolation and binary search with a one-element cache, insertion with
  trimming after a backward step, and the transmit timestamp stored as an offset.

  A \<open>u32\<close> index or size is a \<open>nat\<close> with its range checks, an NTP timestamp a 64-bit word, and the
  slew offset, an \<open>f64\<close> that is only stored, is its bit pattern. The search loop is a partial
  function: \<open>None\<close> is a panic or a loop that does not end.
\<close>

section \<open>Timespec\<close>

record Timespec =
  tv_sec :: int
  tv_nsec :: int

definition NSEC_PER_SEC :: int where
  "NSEC_PER_SEC = 1000000000"

definition default_timespec :: Timespec where
  "default_timespec = \<lparr>tv_sec = 0, tv_nsec = 0\<rparr>"

definition normalise :: "Timespec \<Rightarrow> Timespec run" where
  "normalise t =
     (if NSEC_PER_SEC \<le> tv_nsec t \<or> tv_nsec t < 0 then do {
        s \<leftarrow> i64_add (tv_sec t) (tv_nsec t sdiv NSEC_PER_SEC);
        let n = tv_nsec t smod NSEC_PER_SEC;
        if n < 0 then do { s' \<leftarrow> i64_sub s 1; ret \<lparr>tv_sec = s', tv_nsec = n + NSEC_PER_SEC\<rparr> }
        else ret \<lparr>tv_sec = s, tv_nsec = n\<rparr>
      } else ret t)"

definition timespec_diff :: "Timespec \<Rightarrow> Timespec \<Rightarrow> Timespec run" where
  "timespec_diff a b = do {
     s \<leftarrow> i64_sub (tv_sec a) (tv_sec b);
     n \<leftarrow> i64_sub (tv_nsec a) (tv_nsec b);
     normalise \<lparr>tv_sec = s, tv_nsec = n\<rparr>
   }"

text \<open>
  The quotient \<open>a / NSEC_PER_NTP64\<close> in \<open>f64\<close>, then truncated. The literal \<open>4.294967296\<close> is the double
  \<open>NSEC_PER_NTP64_mant * 2^-50\<close>. A positive quotient is scaled by \<open>2^k\<close> until its integer part has 53
  bits, rounded to the nearest integer with ties to even, and truncated after scaling back.
\<close>

definition NSEC_PER_NTP64_mant :: nat where
  "NSEC_PER_NTP64_mant = 4835703278458517"

definition round_half_even :: "nat \<Rightarrow> nat \<Rightarrow> nat" where
  "round_half_even n d =
     (let q = n div d; r = n mod d
      in if 2 * r < d \<or> (2 * r = d \<and> even q) then q else q + 1)"

fun f64_scale :: "nat \<Rightarrow> nat \<Rightarrow> nat \<Rightarrow> nat" where
  "f64_scale n d 0 = 0"
| "f64_scale n d (Suc k) = (if 2 ^ 52 * d \<le> n * 2 ^ k then f64_scale n d k else Suc k)"

definition nsec_of_frac :: "nat \<Rightarrow> nat" where
  "nsec_of_frac a =
     (if a = 0 then 0
      else let n = a * 2 ^ 50; d = NSEC_PER_NTP64_mant; k = f64_scale n d 60
           in round_half_even (n * 2 ^ k) d div 2 ^ k)"

definition JAN_1970 :: u32 where
  "JAN_1970 = 0x83aa7e80"

definition ntp64_to_timespec :: "u64 \<Rightarrow> Timespec" where
  "ntp64_to_timespec ntp =
     (if ntp = 0 then default_timespec
      else let ntp_sec = (ucast (drop_bit 32 ntp) :: u32); ntp_frac = (ucast ntp :: u32)
           in \<lparr>tv_sec = uint (ntp_sec - JAN_1970), tv_nsec = int (nsec_of_frac (unat ntp_frac))\<rparr>)"

section \<open>The map\<close>

datatype TimestampSource = Daemon | Kernel | Hardware

fun source_index :: "TimestampSource \<Rightarrow> u8" where
  "source_index Daemon = 0"
| "source_index Kernel = 1"
| "source_index Hardware = 2"

definition from_index :: "u8 \<Rightarrow> TimestampSource" where
  "from_index i = (if i = 0 then Daemon else if i = 1 then Kernel else Hardware)"

datatype ChangeType = Adjust | Step | UnknownStep

definition NTPTS_DISABLED :: u8 where "NTPTS_DISABLED = 1"
definition NTPTS_VALID_TX :: u8 where "NTPTS_VALID_TX = 2"
definition NTPTS_FUTURE_LIMIT :: u64 where "NTPTS_FUTURE_LIMIT = push_bit 32 1"
definition NTPTS_INSERT_LIMIT :: nat where "NTPTS_INSERT_LIMIT = 64"

record NtpTimestamps =
  rx_ts :: u64
  flags :: u8
  tx_ts_source :: u8
  tss_slew_epoch :: u16
  tx_ts_offset :: int

definition blank_tss :: NtpTimestamps where
  "blank_tss = \<lparr>rx_ts = 0, flags = 0, tx_ts_source = 0, tss_slew_epoch = 0, tx_ts_offset = 0\<rparr>"

record NtpTimestampMap =
  timestamps :: "NtpTimestamps list option"
  ring_first :: nat
  ring_size :: nat
  max_size :: nat
  cached_index :: nat
  cached_rx_ts :: u64
  slew_epoch :: u16
  slew_offset :: u64

definition ntp_tss_index :: "NtpTimestampMap \<Rightarrow> nat \<Rightarrow> nat run" where
  "ntp_tss_index m i = do {
     a \<leftarrow> u32_add (ring_first m) i;
     b \<leftarrow> u32_sub (max_size m) 1;
     ret (a AND b)
   }"

text \<open>The read \<open>ts[self.ntp_tss_index(i)]\<close>.\<close>

definition ring_get :: "NtpTimestampMap \<Rightarrow> NtpTimestamps list \<Rightarrow> nat \<Rightarrow> NtpTimestamps run" where
  "ring_get m ts i = do { k \<leftarrow> ntp_tss_index m i; index ts k }"

section \<open>Search\<close>

text \<open>The next probe of the search loop, interpolating on every other turn.\<close>

definition next_probe :: "u64 \<Rightarrow> nat \<Rightarrow> nat \<Rightarrow> u64 \<Rightarrow> u64 \<Rightarrow> u32 \<Rightarrow> nat run" where
  "next_probe rx lo hi rx_lo rx_hi i = do {
     n \<leftarrow> u32_sub hi lo;
     x \<leftarrow> (if 3 < n \<and> i mod 2 = 0 then do {
             d \<leftarrow> word_sub rx_hi rx_lo;
             let step = d div word_of_nat n;
             let step = (if step = 0 then 1 else step);
             off \<leftarrow> word_sub rx rx_lo;
             u32_add lo (unat (ucast (off div step) :: u32))
           } else u32_add lo (n div 2));
     if x \<le> lo then u32_add lo 1 else if hi \<le> x then u32_sub hi 1 else ret x
   }"

partial_function (option) search ::
    "NtpTimestampMap \<Rightarrow> u64 \<Rightarrow> nat \<Rightarrow> nat \<Rightarrow> u64 \<Rightarrow> u64 \<Rightarrow> u32 \<Rightarrow> ((bool \<times> nat) \<times> NtpTimestampMap) option" where
  [code]: "search m rx lo hi rx_lo rx_hi i =
     (if rx = rx_hi then ret ((True, hi), m\<lparr>cached_index := hi, cached_rx_ts := rx\<rparr>)
      else if rx = rx_lo then ret ((True, lo), m\<lparr>cached_index := lo, cached_rx_ts := rx\<rparr>)
      else do {
        lo1 \<leftarrow> u32_add lo 1;
        if lo1 = hi then ret ((False, hi), m)
        else do {
          x \<leftarrow> next_probe rx lo hi rx_lo rx_hi i;
          case timestamps m of
            None \<Rightarrow> ret ((False, 0), m)
          | Some ts \<Rightarrow> do {
              e \<leftarrow> ring_get m ts x;
              if sint (rx_ts e - rx) \<le> 0 then search m rx x hi (rx_ts e) rx_hi (i + 1)
              else search m rx lo x rx_lo (rx_ts e) (i + 1)
            }
        }
      })"

definition find_ntp_rx_ts :: "NtpTimestampMap \<Rightarrow> u64 \<Rightarrow> ((bool \<times> nat) \<times> NtpTimestampMap) run" where
  "find_ntp_rx_ts m rx =
     (if cached_rx_ts m = rx \<and> rx \<noteq> 0 then ret ((True, cached_index m), m)
      else if ring_size m = 0 then ret ((False, 0), m)
      else case timestamps m of
        None \<Rightarrow> ret ((False, 0), m)
      | Some ts \<Rightarrow> do {
          l \<leftarrow> ring_get m ts 0;
          h \<leftarrow> ring_get m ts (ring_size m - 1);
          if sint (rx - rx_ts l) < 0 then ret ((False, 0), m)
          else if 0 < sint (rx - rx_ts h) then ret ((False, ring_size m), m)
          else search m rx 0 (ring_size m - 1) (rx_ts l) (rx_ts h) 0
        })"

section \<open>Insertion and lookup\<close>

definition push_ntp_tss :: "NtpTimestampMap \<Rightarrow> nat \<Rightarrow> (NtpTimestampMap \<times> nat) run" where
  "push_ntp_tss m i =
     (if ring_size m < max_size m then do {
        s \<leftarrow> u32_add (ring_size m) 1;
        ret (m\<lparr>ring_size := s\<rparr>, i)
      } else do {
        f \<leftarrow> u32_add (ring_first m) 1;
        if max_size m = 0 then panic else ret (m\<lparr>ring_first := f mod max_size m\<rparr>, i - 1)
      })"

definition set_ntp_tx ::
    "NtpTimestamps \<Rightarrow> u64 \<Rightarrow> Timespec option \<Rightarrow> TimestampSource \<Rightarrow> NtpTimestamps run" where
  "set_ntp_tx tss rx tx_ts tx_src = (case tx_ts of
       None \<Rightarrow> ret (tss\<lparr>flags := flags tss AND NOT NTPTS_VALID_TX\<rparr>)
     | Some tx \<Rightarrow> do {
         d \<leftarrow> timespec_diff tx (ntp64_to_timespec rx);
         if tv_sec d < -2 \<or> 1 < tv_sec d then ret (tss\<lparr>flags := flags tss AND NOT NTPTS_VALID_TX\<rparr>)
         else do {
           sec \<leftarrow> i32_mul (i64_as_i32 (tv_sec d)) NSEC_PER_SEC;
           off \<leftarrow> i32_add (i64_as_i32 (tv_nsec d)) sec;
           ret (tss\<lparr>tx_ts_offset := off, flags := flags tss OR NTPTS_VALID_TX,
                    tx_ts_source := source_index tx_src\<rparr>)
         }
       })"

definition get_ntp_tx :: "NtpTimestamps \<Rightarrow> (Timespec \<times> TimestampSource) run" where
  "get_ntp_tx tss = do {
     tx \<leftarrow> (if flags tss AND NTPTS_VALID_TX \<noteq> 0 then do {
              let t = ntp64_to_timespec (rx_ts tss);
              (t, off) \<leftarrow> (if NSEC_PER_SEC \<le> tx_ts_offset tss then do {
                  off \<leftarrow> i32_sub (tx_ts_offset tss) NSEC_PER_SEC;
                  s \<leftarrow> i64_add (tv_sec t) 1;
                  ret (t\<lparr>tv_sec := s\<rparr>, off)
                } else ret (t, tx_ts_offset tss));
              n \<leftarrow> i64_add (tv_nsec t) off;
              normalise (t\<lparr>tv_nsec := n\<rparr>)
            } else ret default_timespec);
     ret (tx, from_index (tx_ts_source tss))
   }"

text \<open>The two loops of \<open>save_ntp_timestamps\<close>: trimming the distant future, and making room at \<open>i\<close>.\<close>

function trim_future :: "NtpTimestampMap \<Rightarrow> u64 \<Rightarrow> nat \<Rightarrow> NtpTimestampMap run" where
  "trim_future m rx i =
     (if i < ring_size m then do {
        too_far \<leftarrow> (case timestamps m of
            None \<Rightarrow> ret False
          | Some ts \<Rightarrow> do { e \<leftarrow> ring_get m ts (ring_size m - 1); ret (NTPTS_FUTURE_LIMIT < rx_ts e - rx) });
        if \<not> too_far then ret m else trim_future (m\<lparr>ring_size := ring_size m - 1\<rparr>) rx i
      } else ret m)"
  by pat_completeness auto
termination
  by (relation "measure (\<lambda>(m, rx, i). ring_size m)") auto

declare trim_future.simps [simp del]

fun shift_up :: "NtpTimestampMap \<Rightarrow> NtpTimestamps list \<Rightarrow> nat \<Rightarrow> nat \<Rightarrow> NtpTimestamps list run" where
  "shift_up m ts 0 idx = ret ts"
| "shift_up m ts (Suc i) idx =
     (if idx < Suc i then do {
        src \<leftarrow> ring_get m ts i;
        dst \<leftarrow> ntp_tss_index m (Suc i);
        if dst < length ts then shift_up m (ts[dst := src]) i idx else panic
      } else ret ts)"

text \<open>Insertion with room at the end, and the choice of the place.\<close>

definition insert_at :: "NtpTimestampMap \<Rightarrow> nat \<Rightarrow> (NtpTimestampMap \<times> nat) run" where
  "insert_at m i = do {
     (m, i) \<leftarrow> push_ntp_tss m i;
     last \<leftarrow> u32_sub (ring_size m) 1;
     case timestamps m of
       None \<Rightarrow> ret (m, i)
     | Some ts \<Rightarrow> do { ts' \<leftarrow> shift_up m ts last i; ret (m\<lparr>timestamps := Some ts'\<rparr>, i) }
   }"

definition make_room :: "NtpTimestampMap \<Rightarrow> u64 \<Rightarrow> nat \<Rightarrow> (NtpTimestampMap \<times> nat) run" where
  "make_room m rx i =
     (if i = ring_size m then push_ntp_tss m i
      else do {
        m \<leftarrow> trim_future m rx i;
        j \<leftarrow> u32_add i NTPTS_INSERT_LIMIT;
        if ring_size m \<le> j then insert_at m i else ret (m, i - 1)
      })"

text \<open>The update of one element, \<open>timestamps[self.ntp_tss_index(i)] = f(..)\<close>; nothing without a buffer.\<close>

definition ring_update ::
    "NtpTimestampMap \<Rightarrow> nat \<Rightarrow> (NtpTimestamps \<Rightarrow> NtpTimestamps run) \<Rightarrow> NtpTimestampMap run" where
  "ring_update m i f = do {
     k \<leftarrow> ntp_tss_index m i;
     case timestamps m of
       None \<Rightarrow> ret m
     | Some ts \<Rightarrow> do { e \<leftarrow> index ts k; e' \<leftarrow> f e; ret (m\<lparr>timestamps := Some (ts[k := e'])\<rparr>) }
   }"

text \<open>The tail of \<open>save_ntp_timestamps\<close>: the entry for a timestamp that is not in the map yet.\<close>

definition insert_new ::
    "NtpTimestampMap \<Rightarrow> u64 \<Rightarrow> nat \<Rightarrow> Timespec option \<Rightarrow> TimestampSource \<Rightarrow> NtpTimestampMap run" where
  "insert_new m rx i tx_ts tx_src =
     (if ring_size m < i then panic
      else do {
        (m, i) \<leftarrow> make_room m rx i;
        let m = m\<lparr>cached_index := i, cached_rx_ts := rx\<rparr>;
        ring_update m i (\<lambda>t. set_ntp_tx
          (t\<lparr>rx_ts := rx, flags := 0, tss_slew_epoch := slew_epoch m\<rparr>) rx tx_ts tx_src)
      })"

definition save_ntp_timestamps ::
    "bool \<Rightarrow> NtpTimestampMap \<Rightarrow> u64 \<Rightarrow> Timespec option \<Rightarrow> TimestampSource \<Rightarrow> NtpTimestampMap run" where
  "save_ntp_timestamps active m rx tx_ts tx_src =
     (if \<not> active then ret m
      else do {
        let m = (case timestamps m of
            None \<Rightarrow> m\<lparr>timestamps := Some (replicate (max_size m) blank_tss)\<rparr>
          | Some _ \<Rightarrow> m);
        if rx = 0 then ret m
        else do {
          ((found, i), m) \<leftarrow> find_ntp_rx_ts m rx;
          if found then ring_update m i (\<lambda>t. ret (t\<lparr>flags := flags t OR NTPTS_DISABLED\<rparr>))
          else insert_new m rx i tx_ts tx_src
        }
      })"

definition handle_slew :: "NtpTimestampMap \<Rightarrow> u64 \<Rightarrow> ChangeType \<Rightarrow> NtpTimestampMap" where
  "handle_slew m doffset change_type =
     (let m = (if change_type = UnknownStep then m\<lparr>ring_size := 0, cached_rx_ts := 0\<rparr> else m)
      in m\<lparr>slew_epoch := slew_epoch m + 1, slew_offset := doffset\<rparr>)"

definition update_ntp_tx_timestamp ::
    "NtpTimestampMap \<Rightarrow> u64 \<Rightarrow> Timespec option \<Rightarrow> TimestampSource \<Rightarrow> NtpTimestampMap run" where
  "update_ntp_tx_timestamp m rx tx_ts tx_src =
     (if timestamps m = None then ret m
      else do {
        ((found, i), m) \<leftarrow> find_ntp_rx_ts m rx;
        if \<not> found then ret m else ring_update m i (\<lambda>t. set_ntp_tx t rx tx_ts tx_src)
      })"

definition get_ntp_tx_timestamp ::
    "NtpTimestampMap \<Rightarrow> u64 \<Rightarrow> (NtpTimestampMap \<times> (Timespec \<times> TimestampSource) option) run" where
  "get_ntp_tx_timestamp m rx = (case timestamps m of
       None \<Rightarrow> ret (m, None)
     | Some _ \<Rightarrow> do {
         ((found, i), m) \<leftarrow> find_ntp_rx_ts m rx;
         if \<not> found then ret (m, None)
         else do {
           k \<leftarrow> ntp_tss_index m i;
           case timestamps m of
             None \<Rightarrow> ret (m, None)
           | Some ts \<Rightarrow> do {
               tss \<leftarrow> index ts k;
               if flags tss AND NTPTS_DISABLED \<noteq> 0 then ret (m, None)
               else do { r \<leftarrow> get_ntp_tx tss; ret (m, Some r) }
             }
         }
       })"

definition disable_ntp_timestamps :: "NtpTimestampMap \<Rightarrow> nat \<Rightarrow> u64 \<Rightarrow> (NtpTimestampMap \<times> nat) run" where
  "disable_ntp_timestamps m interleaved_hits rx = do {
     m \<leftarrow> (if timestamps m \<noteq> None then do {
             ((found, i), m) \<leftarrow> find_ntp_rx_ts m rx;
             if found then ring_update m i (\<lambda>t. ret (t\<lparr>flags := flags t OR NTPTS_DISABLED\<rparr>)) else ret m
           } else ret m);
     h \<leftarrow> u64_add interleaved_hits 1;
     ret (m, h)
   }"

section \<open>The ring as a list\<close>

definition ring :: "nat \<Rightarrow> nat \<Rightarrow> 'a list \<Rightarrow> 'a list" where
  "ring f n ts = map (\<lambda>i. ts ! ((f + i) mod length ts)) [0..<n]"

definition entries :: "NtpTimestampMap \<Rightarrow> NtpTimestamps list" where
  "entries m = (case timestamps m of None \<Rightarrow> [] | Some ts \<Rightarrow> ring (ring_first m) (ring_size m) ts)"

definition ring_ok :: "NtpTimestampMap \<Rightarrow> bool" where
  "ring_ok m \<longleftrightarrow> max_size m \<in> (\<lambda>k. 2 ^ k) ` {..24} \<and> ring_first m < max_size m \<and> ring_size m \<le> max_size m \<and>
     (case timestamps m of
        None \<Rightarrow> ring_size m = 0
      | Some ts \<Rightarrow> length ts = max_size m \<and> (\<forall>t\<in>set ts. in_i32 (tx_ts_offset t)))"

text \<open>
  Receive times increase, and all lie in the second half of the NTP era (1968 to 2036), where the
  code's comparison by signed difference is the order of the timestamps.
\<close>

definition ordered :: "NtpTimestamps list \<Rightarrow> bool" where
  "ordered es \<longleftrightarrow> sorted_wrt (<) (map rx_ts es) \<and> (\<forall>e\<in>set es. 2 ^ 63 \<le> rx_ts e)"

definition cache_ok :: "NtpTimestampMap \<Rightarrow> bool" where
  "cache_ok m \<longleftrightarrow> (cached_rx_ts m \<noteq> 0 \<longrightarrow>
     cached_index m < ring_size m \<and> rx_ts (entries m ! cached_index m) = cached_rx_ts m)"

definition wf_map :: "NtpTimestampMap \<Rightarrow> bool" where
  "wf_map m \<longleftrightarrow> ring_ok m \<and> ordered (entries m) \<and> cache_ok m"

lemma length_ring [simp]: "length (ring f n ts) = n"
  by (simp add: ring_def)

lemma nth_ring [simp]: "i < n \<Longrightarrow> ring f n ts ! i = ts ! ((f + i) mod length ts)"
  by (simp add: ring_def)

lemma ring_slot_inj:
  assumes "(f + i) mod N = (f + j) mod N" and "i < N" and "j < N"
  shows "i = (j :: nat)"
proof -
  have "int N dvd int (f + i) - int (f + j)"
    using assms(1) by (metis mod_eq_dvd_iff of_nat_mod)
  then have "int N dvd int i - int j"
    by simp
  then show ?thesis
    using assms(2,3) dvd_imp_le_int [of "int i - int j" "int N"] by fastforce
qed

lemma ring_update_slot:
  assumes "i < n" and "n \<le> length ts"
  shows "ring f n (ts[(f + i) mod length ts := e]) = (ring f n ts)[i := e]"
proof (rule nth_equalityI)
  fix j
  assume "j < length (ring f n (ts[(f + i) mod length ts := e]))"
  then have j: "j < n" by simp
  have "0 < length ts"
    using assms by auto
  then have "(f + i) mod length ts < length ts"
    by simp
  moreover have "(f + i) mod length ts = (f + j) mod length ts \<longleftrightarrow> i = j"
    using ring_slot_inj [of f i "length ts" j] assms j by auto
  ultimately show "ring f n (ts[(f + i) mod length ts := e]) ! j = (ring f n ts)[i := e] ! j"
    using j assms(1) by (simp add: nth_list_update)
qed simp

lemma ring_rotate:
  assumes "0 < length ts"
  shows "ring ((f + 1) mod length ts) (length ts) ts = tl (ring f (length ts) ts) @ [ts ! (f mod length ts)]"
proof (rule nth_equalityI)
  fix j
  assume "j < length (ring ((f + 1) mod length ts) (length ts) ts)"
  then have j: "j < length ts" by simp
  have "((f + 1) mod length ts + j) mod length ts = (f + Suc j) mod length ts"
    by (simp add: mod_add_left_eq)
  moreover have "(f + Suc j) mod length ts = f mod length ts" if "Suc j = length ts"
    using that by simp
  ultimately show "ring ((f + 1) mod length ts) (length ts) ts ! j
      = (tl (ring f (length ts) ts) @ [ts ! (f mod length ts)]) ! j"
    using j by (cases "Suc j = length ts") (auto simp: nth_append nth_tl)
qed (use assms in simp)

lemma ring_okD:
  assumes "ring_ok m"
  shows "0 < max_size m" and "max_size m \<le> 2 ^ 24" and "ring_first m < max_size m"
    and "ring_size m \<le> max_size m"
proof -
  obtain k where k: "k \<le> 24" "max_size m = 2 ^ k"
    using assms by (auto simp: ring_ok_def)
  then have "2 ^ k \<le> (2 :: nat) ^ 24"
    by (intro power_increasing) auto
  with k assms show "0 < max_size m" "max_size m \<le> 2 ^ 24" "ring_first m < max_size m"
      "ring_size m \<le> max_size m"
    by (simp_all add: ring_ok_def)
qed

lemma ntp_tss_index_Some [simp]:
  assumes "ring_ok m" and "i \<le> max_size m"
  shows "ntp_tss_index m i = Some ((ring_first m + i) mod max_size m)"
proof -
  obtain k where k: "max_size m = 2 ^ k"
    using assms by (auto simp: ring_ok_def)
  have "ring_first m + i < 2 ^ 32"
    using ring_okD [OF assms(1)] assms(2) by simp
  then show ?thesis
    using ring_okD(1) [OF assms(1)] by (simp add: ntp_tss_index_def checked k and_exp_minus_1 [unfolded One_nat_def])
qed

lemma ring_get_Some [simp]:
  assumes "ring_ok m" and "timestamps m = Some ts" and "i < ring_size m"
  shows "ring_get m ts i = Some (entries m ! i)"
proof -
  have "length ts = max_size m" "i \<le> max_size m"
    using assms ring_okD(4) [OF assms(1)] by (auto simp: ring_ok_def)
  moreover have "(ring_first m + i) mod max_size m < max_size m"
    using ring_okD(1) [OF assms(1)] by simp
  ultimately show ?thesis
    using assms by (simp add: ring_get_def entries_def index_Some)
qed

lemma length_entries: "ring_ok m \<Longrightarrow> length (entries m) = ring_size m"
  by (auto simp: entries_def ring_ok_def split: option.splits)

lemma ring_update_Some:
  assumes "ring_ok m" and "i < ring_size m" and "f (entries m ! i) = Some e" and "in_i32 (tx_ts_offset e)"
  shows "\<exists>m'. ring_update m i f = Some m' \<and> entries m' = (entries m)[i := e] \<and> ring_ok m' \<and>
    ring_size m' = ring_size m \<and> cached_index m' = cached_index m \<and> cached_rx_ts m' = cached_rx_ts m \<and>
    max_size m' = max_size m \<and> timestamps m' \<noteq> None"
proof -
  obtain ts where ts: "timestamps m = Some ts" "length ts = max_size m"
    using assms by (auto simp: ring_ok_def split: option.splits)
  have le: "ring_size m \<le> length ts" "i \<le> max_size m"
    using ring_okD(4) [OF assms(1)] assms(2) ts by simp_all
  let ?k = "(ring_first m + i) mod max_size m"
  have "?k < length ts"
    using ring_okD(1) [OF assms(1)] ts by simp
  moreover have "ts ! ?k = entries m ! i"
    using assms(2) ts by (simp add: entries_def)
  ultimately have "ring_update m i f = Some (m\<lparr>timestamps := Some (ts[?k := e])\<rparr>)"
    using assms le by (simp add: ring_update_def ts(1) index_Some)
  moreover have "entries (m\<lparr>timestamps := Some (ts[?k := e])\<rparr>) = (entries m)[i := e]"
    using ring_update_slot [OF assms(2) le(1), of "ring_first m" e] ts by (simp add: entries_def)
  moreover have "ring_ok (m\<lparr>timestamps := Some (ts[?k := e])\<rparr>)"
    using assms(1,4) ts set_update_subset_insert [of ts ?k e] by (auto simp: ring_ok_def)
  ultimately show ?thesis
    by (intro exI [of _ "m\<lparr>timestamps := Some (ts[?k := e])\<rparr>"]) simp
qed

section \<open>The search finds every timestamp\<close>

text \<open>The comparison by signed difference, in the second half of the era and around a window of it.\<close>

lemma signed_compare:
  fixes a b :: u64
  assumes "2 ^ 63 \<le> a" and "2 ^ 63 \<le> b"
  shows "sint (a - b) = uint a - uint b"
proof (rule sint_sub_eq)
  have "2 ^ 63 \<le> uint a" "2 ^ 63 \<le> uint b" "uint a < 2 ^ 64" "uint b < 2 ^ 64"
    using assms uint_lt2p [of a] uint_lt2p [of b] by (simp_all add: word_le_def)
  then show "- (2 ^ (LENGTH(64) - 1)) \<le> uint a - uint b" "uint a - uint b < 2 ^ (LENGTH(64) - 1)"
    by simp_all
qed

lemma signed_window:
  fixes a b rx :: u64
  assumes "2 ^ 63 \<le> a" and "a \<le> b" and "\<not> sint (rx - a) < 0" and "\<not> 0 < sint (rx - b)"
  shows "a \<le> rx \<and> rx \<le> b"
proof -
  define A B R where "A = uint a" and "B = uint b" and "R = uint rx"
  have "2 ^ 63 \<le> A" "A \<le> B" "A < 2 ^ 64" "B < 2 ^ 64" "R < 2 ^ 64" "0 \<le> R"
    using assms(1,2) uint_lt2p [of a] uint_lt2p [of b] uint_lt2p [of rx]
    by (simp_all add: word_le_def A_def B_def R_def)
  moreover have "sint (rx - a) = (if A \<le> R then (if R - A < 2 ^ 63 then R - A else R - A - 2 ^ 64)
      else (if R - A + 2 ^ 64 < 2 ^ 63 then R - A + 2 ^ 64 else R - A))"
    by (simp add: sint_split uint_sub_if' A_def R_def)
  moreover have "sint (rx - b) = (if B \<le> R then (if R - B < 2 ^ 63 then R - B else R - B - 2 ^ 64)
      else (if R - B + 2 ^ 64 < 2 ^ 63 then R - B + 2 ^ 64 else R - B))"
    by (simp add: sint_split uint_sub_if' B_def R_def)
  ultimately have "A \<le> R \<and> R \<le> B"
    using assms(3,4) by (simp split: if_splits)
  then show ?thesis
    by (simp add: word_le_def A_def B_def R_def)
qed

lemma ordered_nth:
  assumes "ordered es" and "i < j" and "j < length es"
  shows "rx_ts (es ! i) < rx_ts (es ! j)"
  using assms by (auto simp: ordered_def sorted_wrt_iff_nth_less)

lemma ordered_mono:
  assumes "ordered es" and "i \<le> j" and "j < length es"
  shows "rx_ts (es ! i) \<le> rx_ts (es ! j)"
  using ordered_nth [OF assms(1), of i j] assms(2,3) by (cases "i = j") auto

lemma ordered_gap:
  assumes "ordered es" and "i \<le> j" and "j < length es"
  shows "unat (rx_ts (es ! i)) + (j - i) \<le> unat (rx_ts (es ! j))"
  using assms(2,3)
proof (induction j rule: dec_induct)
  case (step n)
  then have "unat (rx_ts (es ! n)) < unat (rx_ts (es ! Suc n))"
    using ordered_nth [OF assms(1), of n "Suc n"] by (simp add: word_less_nat_alt)
  with step show ?case by simp
qed simp

lemma interpolation_bound:
  fixes d n off :: nat
  assumes "0 < n" and "n \<le> d" and "off \<le> d"
  shows "off div (d div n) < 2 * n"
proof -
  let ?s = "d div n"
  have s: "1 \<le> ?s"
    using assms by (simp add: div_greater_zero_iff Suc_leI)
  have "d < (?s + 1) * n"
    using assms(1) dividend_less_div_times [of n d] by simp
  also have "\<dots> \<le> (2 * n) * ?s"
    using s by (simp add: algebra_simps)
  finally show ?thesis
    using assms(3) s by (simp add: div_less_iff_less_mult)
qed

lemma next_probe_between:
  assumes "Suc lo < hi" and "hi \<le> 2 ^ 24" and "rx_lo < rx" and "rx < rx_hi"
    and "hi - lo \<le> unat rx_hi - unat rx_lo"
  shows "\<exists>x. next_probe rx lo hi rx_lo rx_hi i = Some x \<and> lo < x \<and> x < hi"
proof -
  let ?n = "hi - lo" and ?d = "unat rx_hi - unat rx_lo" and ?o = "unat rx - unat rx_lo"
  have n: "unat (word_of_nat ?n :: u64) = ?n"
    using assms(2) by (simp add: unsigned_of_nat take_bit_nat_eq_self)
  have d: "unat (rx_hi - rx_lo) = ?d" "unat (rx - rx_lo) = ?o" "?o \<le> ?d"
    using assms(3,4) by (simp_all add: unat_sub word_less_nat_alt word_le_nat_alt)
  have "?d div ?n \<noteq> 0"
    using assms(1,5) by (simp add: div_eq_0_iff)
  then have step: "(rx_hi - rx_lo) div word_of_nat ?n \<noteq> 0"
    by (metis d(1) n unat_div unat_0)
  let ?q = "(rx - rx_lo) div ((rx_hi - rx_lo) div word_of_nat ?n)"
  have q: "unat ?q < 2 * ?n"
    using interpolation_bound [of ?n ?d ?o] assms(1,5) d n by (simp add: unat_div)
  moreover have "2 * ?n < 2 ^ 32"
    using assms(2) by simp
  ultimately have "unat ?q < 2 ^ 32"
    by (rule less_trans)
  then have "unat (ucast ?q :: u32) = unat ?q"
    by (intro unat_ucast_small) simp
  moreover have "lo + 2 * ?n < 2 ^ 32"
    using assms(1,2) by simp
  ultimately have "lo + unat (ucast ?q :: u32) < 2 ^ 32"
    using q by linarith
  moreover have "lo + ?n div 2 < 2 ^ 32" "rx_lo \<le> rx_hi" "rx_lo \<le> rx"
    using assms(1-4) by auto
  ultimately have "(if 3 < ?n \<and> i mod 2 = 0 then do {
             d \<leftarrow> word_sub rx_hi rx_lo;
             let step = d div word_of_nat ?n;
             let step = (if step = 0 then 1 else step);
             off \<leftarrow> word_sub rx rx_lo;
             u32_add lo (unat (ucast (off div step) :: u32))
           } else u32_add lo (?n div 2))
      = Some (if 3 < ?n \<and> i mod 2 = 0 then lo + unat (ucast ?q :: u32) else lo + ?n div 2)"
    using step by (simp add: checked Let_def)
  then show ?thesis
    using assms(1,2) by (auto simp: next_probe_def checked)
qed

text \<open>What the search returns: the place of \<open>rx\<close>, or the first entry after it.\<close>

definition located :: "NtpTimestamps list \<Rightarrow> u64 \<Rightarrow> bool \<Rightarrow> nat \<Rightarrow> bool" where
  "located es rx found idx \<longleftrightarrow>
     (if found then idx < length es \<and> rx_ts (es ! idx) = rx
      else idx \<le> length es \<and> (\<forall>i<length es. if i < idx then rx_ts (es ! i) < rx else rx < rx_ts (es ! i)))"

lemma located_between:
  assumes "ordered es" and "Suc lo < length es" and "rx_ts (es ! lo) < rx" and "rx < rx_ts (es ! Suc lo)"
  shows "located es rx False (Suc lo)"
  unfolding located_def
proof (simp only: if_False, intro conjI allI impI)
  show "Suc lo \<le> length es"
    using assms(2) by simp
  fix i
  assume i: "i < length es"
  show "if i < Suc lo then rx_ts (es ! i) < rx else rx < rx_ts (es ! i)"
  proof (cases "i < Suc lo")
    case True
    then have "rx_ts (es ! i) \<le> rx_ts (es ! lo)"
      using ordered_mono [OF assms(1), of i lo] assms(2) by simp
    with True assms(3) show ?thesis by auto
  next
    case False
    then have "rx_ts (es ! Suc lo) \<le> rx_ts (es ! i)"
      using ordered_mono [OF assms(1), of "Suc lo" i] i by simp
    with False assms(4) show ?thesis by auto
  qed
qed

definition cache_hit :: "NtpTimestampMap \<Rightarrow> u64 \<Rightarrow> bool \<Rightarrow> nat \<Rightarrow> NtpTimestampMap" where
  "cache_hit m rx found idx = (if found then m\<lparr>cached_index := idx, cached_rx_ts := rx\<rparr> else m)"

lemma search_correct:
  assumes ok: "ring_ok m" and ord: "ordered (entries m)" and ts: "timestamps m = Some ts"
    and "lo \<le> hi" and "hi < ring_size m"
    and "rx_ts (entries m ! lo) \<le> rx" and "rx \<le> rx_ts (entries m ! hi)"
  shows "\<exists>found idx. search m rx lo hi (rx_ts (entries m ! lo)) (rx_ts (entries m ! hi)) i
      = Some ((found, idx), cache_hit m rx found idx) \<and> located (entries m) rx found idx"
  using assms(4-7)
proof (induction "hi - lo" arbitrary: lo hi i rule: less_induct)
  case less
  let ?es = "entries m"
  let ?v = "\<lambda>j. rx_ts (?es ! j)"
  have len: "length ?es = ring_size m" "ring_size m \<le> 2 ^ 24"
    using ok ring_okD [OF ok] by (simp_all add: length_entries)
  consider (hit_hi) "rx = ?v hi" | (hit_lo) "rx \<noteq> ?v hi" "rx = ?v lo"
    | (miss) "rx \<noteq> ?v hi" "rx \<noteq> ?v lo" "Suc lo = hi" | (go) "rx \<noteq> ?v hi" "rx \<noteq> ?v lo" "Suc lo \<noteq> hi"
    by blast
  then show ?case
  proof cases
    case hit_hi
    then show ?thesis
      using less.prems len by (subst search.simps) (auto simp: cache_hit_def located_def)
  next
    case hit_lo
    then show ?thesis
      using less.prems len by (subst search.simps) (auto simp: cache_hit_def located_def)
  next
    case miss
    have "located ?es rx False hi"
      using located_between [OF ord, of lo rx] less.prems miss len by simp
    then show ?thesis
      using less.prems miss len
      by (intro exI [of _ False] exI [of _ hi], subst search.simps) (simp add: checked cache_hit_def)
  next
    case go
    have strict: "?v lo < rx" "rx < ?v hi"
      using go less.prems by simp_all
    then have lt: "Suc lo < hi"
      using go less.prems by (cases "lo = hi") auto
    have "hi - lo \<le> unat (?v hi) - unat (?v lo)"
      using ordered_gap [OF ord, of lo hi] less.prems len by simp
    then obtain x where x: "next_probe rx lo hi (?v lo) (?v hi) i = Some x" "lo < x" "x < hi"
      using next_probe_between [of lo hi "?v lo" rx "?v hi" i] lt strict less.prems len by auto
    have "2 ^ 63 \<le> ?v lo" "2 ^ 63 \<le> ?v x"
      using ord less.prems x len by (auto simp: ordered_def)
    then have cmp: "sint (?v x - rx) \<le> 0 \<longleftrightarrow> ?v x \<le> rx"
      using less_imp_le [OF strict(1)] signed_compare [of "?v x" rx, OF _ order_trans] by (simp add: word_le_def)
    have get: "ring_get m ts x = Some (?es ! x)"
      using ok ts x less.prems by simp
    have lo1: "u32_add lo (Suc 0) = Some (Suc lo)"
      using lt less.prems len by (simp add: u32_add_def)
    have step: "search m rx lo hi (?v lo) (?v hi) i =
        (if ?v x \<le> rx then search m rx x hi (?v x) (?v hi) (i + 1) else search m rx lo x (?v lo) (?v x) (i + 1))"
      by (subst search.simps) (simp add: go lo1 x(1) ts get cmp)
    show ?thesis
      unfolding step using less.hyps [of hi x "i + 1"] less.hyps [of x lo "i + 1"] x less.prems by auto
  qed
qed

lemma find_ntp_rx_ts_located:
  assumes "wf_map m"
  shows "\<exists>found idx. find_ntp_rx_ts m rx = Some ((found, idx), cache_hit m rx found idx) \<and>
    (if found then located (entries m) rx True idx
     else rx \<notin> rx_ts ` set (entries m) \<and> (2 ^ 63 \<le> rx \<longrightarrow> located (entries m) rx False idx))"
proof -
  let ?es = "entries m"
  have ok: "ring_ok m" and ord: "ordered ?es" and cache: "cache_ok m"
    using assms by (simp_all add: wf_map_def)
  have len: "length ?es = ring_size m"
    using ok by (rule length_entries)
  have notin: "rx \<notin> rx_ts ` set ?es" if "located ?es rx False idx" for idx
    using that by (fastforce simp: located_def in_set_conv_nth split: if_splits)
  consider (cached) "cached_rx_ts m = rx" "rx \<noteq> 0" | (empty) "\<not> (cached_rx_ts m = rx \<and> rx \<noteq> 0)" "?es = []"
    | (full) ts where "\<not> (cached_rx_ts m = rx \<and> rx \<noteq> 0)" "timestamps m = Some ts" "0 < ring_size m"
    using len by (cases "timestamps m"; cases "ring_size m") (auto simp: entries_def ring_def)
  then show ?thesis
  proof cases
    case cached
    then show ?thesis
      using cache len
      by (intro exI [of _ True] exI [of _ "cached_index m"])
         (auto simp: find_ntp_rx_ts_def cache_hit_def located_def cache_ok_def)
  next
    case empty
    then have "ring_size m = 0"
      using len by simp
    then show ?thesis
      using empty by (intro exI [of _ False] exI [of _ 0]) (auto simp: find_ntp_rx_ts_def cache_hit_def located_def)
  next
    case full
    let ?n = "ring_size m"
    let ?l = "rx_ts (?es ! 0)" and ?h = "rx_ts (?es ! (?n - 1))"
    have big: "2 ^ 63 \<le> ?l" "2 ^ 63 \<le> ?h"
      using ord full len by (auto simp: ordered_def)
    have lh: "?l \<le> ?h"
      using ordered_mono [OF ord, of 0 "?n - 1"] full len by simp
    have run: "find_ntp_rx_ts m rx = (if sint (rx - ?l) < 0 then Some ((False, 0), m)
        else if 0 < sint (rx - ?h) then Some ((False, ?n), m)
        else search m rx 0 (?n - 1) ?l ?h 0)"
      unfolding find_ntp_rx_ts_def if_not_P [OF full(1)] using full(2,3) ok by simp
    have before: "located ?es rx False 0" if "2 ^ 63 \<le> rx" "sint (rx - ?l) < 0"
    proof -
      have "rx < ?l"
        using that signed_compare [of rx ?l] big by (simp add: word_less_def)
      moreover have "?l \<le> rx_ts (?es ! i)" if "i < ?n" for i
        using that ordered_mono [OF ord, of 0 i] len by simp
      ultimately show ?thesis
        using len by (fastforce simp: located_def)
    qed
    have after: "located ?es rx False ?n" if "2 ^ 63 \<le> rx" "0 < sint (rx - ?h)"
    proof -
      have "?h < rx"
        using that signed_compare [of rx ?h] big by (simp add: word_less_def)
      moreover have "rx_ts (?es ! i) \<le> ?h" if "i < ?n" for i
        using that ordered_mono [OF ord, of i "?n - 1"] len by simp
      ultimately show ?thesis
        using len by (fastforce simp: located_def)
    qed
    have member: "2 ^ 63 \<le> rx" if "rx \<in> rx_ts ` set ?es"
      using that ord by (auto simp: ordered_def)
    consider "sint (rx - ?l) < 0" | "\<not> sint (rx - ?l) < 0" "0 < sint (rx - ?h)"
      | "\<not> sint (rx - ?l) < 0" "\<not> 0 < sint (rx - ?h)"
      by blast
    then show ?thesis
    proof cases
      case 1
      then show ?thesis
        using before notin member by (intro exI [of _ False] exI [of _ 0]) (auto simp: run cache_hit_def)
    next
      case 2
      then show ?thesis
        using after notin member by (intro exI [of _ False] exI [of _ ?n]) (auto simp: run cache_hit_def)
    next
      case 3
      then have "?l \<le> rx \<and> rx \<le> ?h"
        using signed_window [OF big(1) lh] by blast
      then obtain found idx where "search m rx 0 (?n - 1) ?l ?h 0 = Some ((found, idx), cache_hit m rx found idx)"
          "located ?es rx found idx"
        using search_correct [OF ok ord full(2), of 0 "?n - 1" rx 0] full(3) by auto
      then show ?thesis
        using 3 notin by (intro exI [of _ found] exI [of _ idx]) (auto simp: run)
    qed
  qed
qed

section \<open>Insertion keeps the order\<close>

text \<open>
  What saving \<open>e\<close> does to the ordered list: entries more than one second in the future of \<open>e\<close> go, the
  oldest one goes when the buffer is full, and when more than \<open>NTPTS_INSERT_LIMIT\<close> entries would have to
  move, \<open>e\<close> replaces its predecessor.
\<close>

definition spec_save :: "nat \<Rightarrow> NtpTimestamps \<Rightarrow> NtpTimestamps list \<Rightarrow> NtpTimestamps list" where
  "spec_save mx e es =
     (let before = filter (\<lambda>t. rx_ts t < rx_ts e) es;
          near = filter (\<lambda>t. rx_ts t - rx_ts e \<le> NTPTS_FUTURE_LIMIT) (filter (\<lambda>t. rx_ts e < rx_ts t) es)
      in if length near \<le> NTPTS_INSERT_LIMIT then
           (if length before + length near < mx then before @ e # near
            else if before = [] then e # tl near else tl before @ e # near)
         else if before = [] then e # tl near else butlast before @ e # near)"

lemma entries_shrink:
  "ring_ok m \<Longrightarrow> n \<le> ring_size m \<Longrightarrow> entries (m\<lparr>ring_size := n\<rparr>) = take n (entries m)"
  by (auto simp: entries_def ring_def take_map ring_ok_def split: option.splits)

lemma ring_ok_shrink: "ring_ok m \<Longrightarrow> n \<le> ring_size m \<Longrightarrow> ring_ok (m\<lparr>ring_size := n\<rparr>)"
  by (auto simp: ring_ok_def split: option.splits)

lemma trim_future_Some:
  assumes "ring_ok m" and "timestamps m = Some ts" and "i \<le> ring_size m"
  shows "\<exists>n. trim_future m rx i = Some (m\<lparr>ring_size := n\<rparr>) \<and> i \<le> n \<and> n \<le> ring_size m \<and>
    (n = i \<or> rx_ts (entries m ! (n - 1)) - rx \<le> NTPTS_FUTURE_LIMIT) \<and>
    (\<forall>j. n \<le> j \<and> j < ring_size m \<longrightarrow> NTPTS_FUTURE_LIMIT < rx_ts (entries m ! j) - rx)"
  using assms
proof (induction m rx i rule: trim_future.induct)
  case (1 m rx i)
  let ?n = "ring_size m"
  show ?case
  proof (cases "i < ?n \<and> NTPTS_FUTURE_LIMIT < rx_ts (entries m ! (?n - 1)) - rx")
    case False
    have "trim_future m rx i = Some (m\<lparr>ring_size := ?n\<rparr>)"
      using False 1(2-4) by (subst trim_future.simps) (auto simp: not_less)
    moreover have "?n = i \<or> rx_ts (entries m ! (?n - 1)) - rx \<le> NTPTS_FUTURE_LIMIT"
      using False 1(4) by (auto simp: not_less)
    ultimately show ?thesis
      using 1(4) by (intro exI [of _ ?n]) auto
  next
    case True
    let ?m = "m\<lparr>ring_size := ?n - 1\<rparr>"
    have le: "i \<le> ring_size ?m"
      using True by auto
    have sub: "ring_ok ?m" "entries ?m = take (?n - 1) (entries m)"
      using 1(2) by (simp_all add: ring_ok_shrink entries_shrink)
    obtain n where n: "trim_future ?m rx i = Some (?m\<lparr>ring_size := n\<rparr>)" "i \<le> n" "n \<le> ?n - 1"
        "n = i \<or> rx_ts (entries ?m ! (n - 1)) - rx \<le> NTPTS_FUTURE_LIMIT"
        "\<forall>j. n \<le> j \<and> j < ?n - 1 \<longrightarrow> NTPTS_FUTURE_LIMIT < rx_ts (entries ?m ! j) - rx"
      using 1(1) [of True, OF _ _ _ sub(1)] True 1(2-4) le sub(2) by auto
    have "trim_future m rx i = trim_future ?m rx i"
      using True 1(2,3) by (subst trim_future.simps) simp
    moreover have "n - 1 < ?n - 1" if "n \<noteq> i"
      using that n(2,3) by linarith
    then have "n = i \<or> rx_ts (entries m ! (n - 1)) - rx \<le> NTPTS_FUTURE_LIMIT"
      using n(4) unfolding sub(2) by (cases "n = i") (simp_all only: nth_take simp_thms)
    moreover have "NTPTS_FUTURE_LIMIT < rx_ts (entries m ! j) - rx" if "n \<le> j" "j < ?n" for j
      using n(5) that True sub(2) by (cases "j = ?n - 1") auto
    ultimately show ?thesis
      using n(1-3) True by (intro exI [of _ n]) auto
  qed
qed

lemma ring_get_ring:
  assumes "ring_ok m" and "length ts = max_size m" and "i < ring_size m"
  shows "ring_get m ts i = Some (ring (ring_first m) (ring_size m) ts ! i)"
proof -
  have "(ring_first m + i) mod max_size m < max_size m" "i \<le> max_size m"
    using ring_okD [OF assms(1)] assms(3) by simp_all
  then show ?thesis
    using assms by (simp add: ring_get_def index_Some)
qed

lemma shift_up_Some:
  assumes "ring_ok m" and "length ts = max_size m" and "j < ring_size m"
  shows "\<exists>ts'. shift_up m ts j idx = Some ts' \<and> length ts' = length ts \<and> set ts' \<subseteq> set ts \<and>
    (\<forall>t<ring_size m. ring (ring_first m) (ring_size m) ts' ! t =
       ring (ring_first m) (ring_size m) ts ! (if idx < t \<and> t \<le> j then t - 1 else t))"
  using assms(2,3)
proof (induction j arbitrary: ts)
  case (Suc j)
  let ?f = "ring_first m" and ?n = "ring_size m"
  show ?case
  proof (cases "idx < Suc j")
    case True
    let ?slot = "(?f + Suc j) mod max_size m"
    let ?ts = "ts[?slot := ring ?f ?n ts ! j]"
    have le: "?n \<le> length ts" "Suc j \<le> max_size m" "?slot < length ts"
      using ring_okD [OF assms(1)] Suc.prems by simp_all
    have eq: "shift_up m ts (Suc j) idx = shift_up m ?ts j idx"
      using True le Suc.prems assms(1) by (simp add: ring_get_ring del: nth_ring)
    have upd: "ring ?f ?n ?ts = (ring ?f ?n ts)[Suc j := ring ?f ?n ts ! j]"
      using ring_update_slot [OF Suc.prems(2) le(1), of ?f] Suc.prems(1) by simp
    have "ring ?f ?n ts ! j = ts ! ((?f + j) mod length ts)" "(?f + j) mod length ts < length ts"
      using Suc.prems le by simp_all
    then have "ring ?f ?n ts ! j \<in> set ts"
      by (metis nth_mem)
    then have "set ?ts \<subseteq> set ts"
      using set_update_subset_insert [of ts ?slot "ring ?f ?n ts ! j"] by blast
    then obtain ts' where ts': "shift_up m ?ts j idx = Some ts'" "length ts' = length ts"
        "\<forall>t<?n. ring ?f ?n ts' ! t = ring ?f ?n ?ts ! (if idx < t \<and> t \<le> j then t - 1 else t)"
        "set ts' \<subseteq> set ts"
      using Suc.IH [of ?ts] Suc.prems by (fastforce simp del: nth_ring)
    have "ring ?f ?n ts' ! t = ring ?f ?n ts ! (if idx < t \<and> t \<le> Suc j then t - 1 else t)" if "t < ?n" for t
      using ts'(3) that True unfolding upd by (cases "t = Suc j") (auto simp: nth_list_update simp del: nth_ring)
    then show ?thesis
      using eq ts' by metis
  qed auto
qed simp

text \<open>One more place at the end; the oldest entry is given up when there is none left.\<close>

lemma push_ntp_tss_Some:
  assumes ok: "ring_ok m" and ts: "timestamps m = Some ts" and "i \<le> ring_size m"
    and E: "E = (if ring_size m < max_size m then entries m else tl (entries m))"
    and i': "i' = (if ring_size m < max_size m then i else i - 1)"
  shows "\<exists>m'. push_ntp_tss m i = Some (m', i') \<and> ring_ok m' \<and> timestamps m' = timestamps m \<and>
    max_size m' = max_size m \<and> slew_epoch m' = slew_epoch m \<and> ring_size m' = Suc (length E) \<and>
    take (length E) (entries m') = E \<and> i' \<le> length E"
proof (cases "ring_size m < max_size m")
  case True
  let ?m = "m\<lparr>ring_size := Suc (ring_size m)\<rparr>"
  have "push_ntp_tss m i = Some (?m, i)"
    using True ring_okD [OF ok] by (simp add: push_ntp_tss_def checked)
  moreover have "ring_ok ?m"
    using ok True ts by (simp add: ring_ok_def)
  moreover have "take (ring_size m) (entries ?m) = entries m"
    using ts by (simp add: entries_def ring_def take_map)
  ultimately show ?thesis
    using True assms(3) ok by (intro exI [of _ ?m]) (simp add: E i' length_entries)
next
  case False
  let ?f = "(ring_first m + 1) mod max_size m"
  let ?m = "m\<lparr>ring_first := ?f\<rparr>"
  have full: "ring_size m = max_size m" "length ts = max_size m" "0 < max_size m"
    using False ok ts ring_okD [OF ok] by (simp_all add: ring_ok_def)
  have "push_ntp_tss m i = Some (?m, i - 1)"
    using False ring_okD [OF ok] by (simp add: push_ntp_tss_def checked)
  moreover have "ring_ok ?m"
    using ok full ts by (simp add: ring_ok_def)
  moreover have "entries ?m = tl (entries m) @ [ts ! (ring_first m mod max_size m)]"
    using ring_rotate [of ts "ring_first m"] full ts by (simp add: entries_def)
  ultimately show ?thesis
    using False full assms(3) ok by (intro exI [of _ ?m]) (simp add: E i' length_entries)
qed

lemma shift_insert:
  assumes "length es' = Suc (length E)" and "i \<le> length E"
    and "\<forall>t<Suc (length E). es' ! t = es ! (if i < t \<and> t \<le> length E then t - 1 else t)"
    and "take (length E) es = E" and "length es = Suc (length E)"
  shows "es'[i := e] = take i E @ e # drop i E"
proof (rule nth_equalityI)
  fix t
  assume "t < length (es'[i := e])"
  then have t: "t < Suc (length E)"
    using assms(1) by simp
  have E: "es ! k = E ! k" if "k < length E" for k
    using that assms(4) by (metis nth_take)
  show "es'[i := e] ! t = (take i E @ e # drop i E) ! t"
    using assms(1-3) t E by (cases t i rule: linorder_cases) (auto simp: nth_append nth_Cons')
qed (use assms in simp)

lemma insert_at_Some:
  assumes ok: "ring_ok m" and ts: "timestamps m = Some ts" and "i \<le> ring_size m"
    and E: "E = (if ring_size m < max_size m then entries m else tl (entries m))"
    and i': "i' = (if ring_size m < max_size m then i else i - 1)"
  shows "\<exists>m'. insert_at m i = Some (m', i') \<and> ring_ok m' \<and> timestamps m' \<noteq> None \<and>
    max_size m' = max_size m \<and> slew_epoch m' = slew_epoch m \<and> i' < ring_size m' \<and>
    (\<forall>e. (entries m')[i' := e] = take i' E @ e # drop i' E)"
proof -
  obtain m1 where m1: "push_ntp_tss m i = Some (m1, i')" "ring_ok m1" "timestamps m1 = Some ts"
      "max_size m1 = max_size m" "slew_epoch m1 = slew_epoch m" "ring_size m1 = Suc (length E)"
      "take (length E) (entries m1) = E" "i' \<le> length E"
    using push_ntp_tss_Some [OF assms] ts by auto
  have len: "length ts = max_size m1"
    using ok ts m1(4) by (simp add: ring_ok_def)
  obtain ts' where ts': "shift_up m1 ts (length E) i' = Some ts'" "length ts' = length ts"
      "\<forall>t<ring_size m1. ring (ring_first m1) (ring_size m1) ts' ! t =
         ring (ring_first m1) (ring_size m1) ts ! (if i' < t \<and> t \<le> length E then t - 1 else t)"
      "set ts' \<subseteq> set ts"
    using shift_up_Some [OF m1(2) len, of "length E" i'] m1(6) by auto
  let ?m = "m1\<lparr>timestamps := Some ts'\<rparr>"
  have "entries m1 = ring (ring_first m1) (ring_size m1) ts"
      "entries ?m = ring (ring_first m1) (ring_size m1) ts'"
    using m1(3) by (simp_all add: entries_def)
  then have "(entries ?m)[i' := e] = take i' E @ e # drop i' E" for e
    using shift_insert [of "entries ?m" E i' "entries m1" e] m1(6-8) ts'(3) by (simp del: nth_ring)
  moreover have "ring_ok ?m"
    using m1(2,3) len ts'(2,4) by (auto simp: ring_ok_def)
  ultimately show ?thesis
    using m1 ts'(1) by (intro exI [of _ ?m]) (simp add: insert_at_def checked)
qed

lemma located_split:
  assumes "located es rx False i"
  shows "filter (\<lambda>t. rx_ts t < rx) es = take i es" and "filter (\<lambda>t. rx < rx_ts t) es = drop i es"
proof -
  have "i \<le> length es"
    using assms by (simp add: located_def)
  then have lo: "\<forall>t\<in>set (take i es). rx_ts t < rx"
    using assms by (auto simp: located_def in_set_conv_nth)
  have hi: "\<forall>t\<in>set (drop i es). rx < rx_ts t"
    using assms by (fastforce simp: located_def in_set_conv_nth)
  have "filter P es = filter P (take i es) @ filter P (drop i es)" for P
    by (metis append_take_drop_id filter_append)
  with lo hi show "filter (\<lambda>t. rx_ts t < rx) es = take i es" "filter (\<lambda>t. rx < rx_ts t) es = drop i es"
    by (simp_all add: filter_id_conv filter_empty_conv) (auto simp: filter_id_conv filter_empty_conv not_less_iff_gr_or_eq)
qed

lemma word_diff_mono:
  fixes a b r :: "'a::len word"
  assumes "r \<le> a" and "a \<le> b"
  shows "a - r \<le> b - r"
  using assms by (metis word_le_minus_mono_left)

text \<open>After the trim, the entries that follow are those within one second.\<close>

lemma trim_near:
  assumes ord: "ordered es" and loc: "located es rx False i" and "i \<le> n" and "n \<le> length es"
    and last: "n = i \<or> rx_ts (es ! (n - 1)) - rx \<le> NTPTS_FUTURE_LIMIT"
    and far: "\<forall>j. n \<le> j \<and> j < length es \<longrightarrow> NTPTS_FUTURE_LIMIT < rx_ts (es ! j) - rx"
  shows "filter (\<lambda>t. rx_ts t - rx \<le> NTPTS_FUTURE_LIMIT) (drop i es) = drop i (take n es)"
proof -
  have "rx_ts t - rx \<le> NTPTS_FUTURE_LIMIT" if "t \<in> set (drop i (take n es))" for t
  proof -
    from that obtain k where k: "k < n - i" "t = es ! (i + k)"
      using assms(4) by (auto simp: in_set_conv_nth)
    define j where "j = i + k"
    have j: "i \<le> j" "j < n" "t = es ! j"
      using k by (auto simp: j_def)
    then have "rx < rx_ts t" "rx_ts t \<le> rx_ts (es ! (n - 1))"
      using loc assms(4) ordered_mono [OF ord, of j "n - 1"] by (auto simp: located_def)
    then have "rx_ts t - rx \<le> rx_ts (es ! (n - 1)) - rx"
      by (intro word_diff_mono) simp_all
    then show ?thesis
      using last j by auto
  qed
  moreover have "\<not> rx_ts t - rx \<le> NTPTS_FUTURE_LIMIT" if "t \<in> set (drop n es)" for t
    using that far assms(4) by (auto simp: in_set_conv_nth not_le)
  moreover have "drop i es = drop i (take n es) @ drop n es"
    using assms(3,4) by (metis append_take_drop_id drop_append length_take min.absorb2 diff_is_0_eq drop_0)
  ultimately show ?thesis
    by (auto simp: filter_id_conv filter_empty_conv)
qed

lemma spec_save_insert:
  assumes before: "filter (\<lambda>t. rx_ts t < rx_ts e) es = take i F"
    and near: "filter (\<lambda>t. rx_ts t - rx_ts e \<le> NTPTS_FUTURE_LIMIT) (filter (\<lambda>t. rx_ts e < rx_ts t) es) = drop i F"
    and "i \<le> length F" and "length F \<le> mx" and "length F - i \<le> NTPTS_INSERT_LIMIT"
    and E: "E = (if length F < mx then F else tl F)" and i': "i' = (if length F < mx then i else i - 1)"
  shows "take i' E @ e # drop i' E = spec_save mx e es"
proof (cases "length F < mx \<or> i = 0")
  case True
  then show ?thesis
    using assms(3-7) unfolding spec_save_def Let_def before near by auto
next
  case False
  then have "take (i - 1) (tl F) = tl (take i F)" "drop (i - 1) (tl F) = drop i F" "F \<noteq> []"
    using assms(3) by (cases F; cases i; simp)+
  then show ?thesis
    using False assms(3-7) unfolding spec_save_def Let_def before near by auto
qed

lemma spec_save_replace:
  assumes before: "filter (\<lambda>t. rx_ts t < rx_ts e) es = take i F"
    and near: "filter (\<lambda>t. rx_ts t - rx_ts e \<le> NTPTS_FUTURE_LIMIT) (filter (\<lambda>t. rx_ts e < rx_ts t) es) = drop i F"
    and "i \<le> length F" and "NTPTS_INSERT_LIMIT < length F - i"
  shows "F[i - 1 := e] = spec_save mx e es"
proof (cases i)
  case 0
  then show ?thesis
    using assms(3,4) unfolding spec_save_def Let_def before near by (cases F) auto
next
  case (Suc k)
  then have "F[i - 1 := e] = butlast (take i F) @ e # drop i F"
    using assms(3) by (simp add: upd_conv_take_nth_drop butlast_take)
  moreover have "take i F \<noteq> []"
    using Suc assms(3) by auto
  ultimately show ?thesis
    using assms(4) unfolding spec_save_def Let_def before near by simp
qed

lemma make_room_Some:
  assumes ok: "ring_ok m" and ts: "timestamps m = Some ts" and ord: "ordered (entries m)"
    and loc: "located (entries m) rx False i"
  shows "\<exists>m' i'. make_room m rx i = Some (m', i') \<and> ring_ok m' \<and> timestamps m' \<noteq> None \<and>
    max_size m' = max_size m \<and> slew_epoch m' = slew_epoch m \<and> i' < ring_size m' \<and>
    (\<forall>e. rx_ts e = rx \<longrightarrow> (entries m')[i' := e] = spec_save (max_size m) e (entries m))"
proof -
  let ?es = "entries m" and ?mx = "max_size m"
  have len: "length ?es = ring_size m" "i \<le> ring_size m" "ring_size m \<le> ?mx" "?mx \<le> 2 ^ 24"
    using ok loc ring_okD [OF ok] by (simp_all add: length_entries located_def)
  note split = located_split [OF loc]
  show ?thesis
  proof (cases "i = ring_size m")
    case True
    define E where "E = (if ring_size m < ?mx then ?es else tl ?es)"
    define i' where "i' = (if ring_size m < ?mx then i else i - 1)"
    obtain m' where m': "push_ntp_tss m i = Some (m', i')" "ring_ok m'" "timestamps m' = timestamps m"
        "max_size m' = ?mx" "slew_epoch m' = slew_epoch m" "ring_size m' = Suc (length E)"
        "take (length E) (entries m') = E" "i' \<le> length E"
      using push_ntp_tss_Some [OF ok ts len(2) E_def i'_def] by blast
    have "i' = length E"
      using True len by (simp add: E_def i'_def)
    moreover have "take i' E @ e # drop i' E = spec_save ?mx e ?es" if "rx_ts e = rx" for e
      using spec_save_insert [of e ?es i ?es ?mx E i'] that split True len by (simp add: E_def i'_def)
    moreover have "(entries m')[length E := e] = E @ [e]" for e
      using m'(2,6,7) by (metis length_entries lessI upd_conv_take_nth_drop drop_all le_refl)
    ultimately show ?thesis
      using m' True ts by (intro exI [of _ m'] exI [of _ i']) (auto simp: make_room_def)
  next
    case False
    obtain n where n: "trim_future m rx i = Some (m\<lparr>ring_size := n\<rparr>)" "i \<le> n" "n \<le> ring_size m"
        "n = i \<or> rx_ts (?es ! (n - 1)) - rx \<le> NTPTS_FUTURE_LIMIT"
        "\<forall>j. n \<le> j \<and> j < ring_size m \<longrightarrow> NTPTS_FUTURE_LIMIT < rx_ts (?es ! j) - rx"
      using trim_future_Some [OF ok ts len(2)] by blast
    let ?m = "m\<lparr>ring_size := n\<rparr>" and ?F = "take n ?es"
    have m: "ring_ok ?m" "entries ?m = ?F" "timestamps ?m = Some ts"
      using ok n(3) ts by (simp_all add: ring_ok_shrink entries_shrink)
    have near: "filter (\<lambda>t. rx_ts t - rx \<le> NTPTS_FUTURE_LIMIT) (drop i ?es) = drop i ?F"
      using trim_near [OF ord loc n(2)] n len(1) by simp
    have before: "filter (\<lambda>t. rx_ts t < rx) ?es = take i ?F"
      unfolding split using n(2) by (simp add: min_absorb1)
    have lenF: "length ?F = n"
      using n(3) len(1) by simp
    have lim: "u32_add i NTPTS_INSERT_LIMIT = Some (i + NTPTS_INSERT_LIMIT)"
      using len by (simp add: u32_add_def NTPTS_INSERT_LIMIT_def)
    show ?thesis
    proof (cases "n \<le> i + NTPTS_INSERT_LIMIT")
      case True
      define E where "E = (if n < ?mx then ?F else tl ?F)"
      define i' where "i' = (if n < ?mx then i else i - 1)"
      have spec: "take i' E @ e # drop i' E = spec_save ?mx e ?es" if "rx_ts e = rx" for e
      proof (rule spec_save_insert [where i = i and F = ?F], unfold that lenF)
        show "n \<le> ?mx" "n - i \<le> NTPTS_INSERT_LIMIT"
          using n(3) len(3) True by linarith+
      qed (use before near split(2) n(2) in \<open>simp_all only: E_def i'_def\<close>)
      have "\<exists>m'. insert_at ?m i = Some (m', i') \<and> ring_ok m' \<and> timestamps m' \<noteq> None \<and>
          max_size m' = max_size ?m \<and> slew_epoch m' = slew_epoch ?m \<and> i' < ring_size m' \<and>
          (\<forall>e. (entries m')[i' := e] = take i' E @ e # drop i' E)"
        using n(2) by (intro insert_at_Some [OF m(1,3)]) (simp_all add: E_def i'_def m(2))
      moreover have "make_room m rx i = insert_at ?m i"
        using False True by (simp add: make_room_def n(1) lim)
      ultimately show ?thesis
        using spec by auto
    next
      case 2: False
      have "?F[i - 1 := e] = spec_save ?mx e ?es" if "rx_ts e = rx" for e
      proof (rule spec_save_replace [where i = i and F = ?F], unfold that lenF)
        show "NTPTS_INSERT_LIMIT < n - i"
          using 2 by linarith
      qed (use before near split(2) n(2) in \<open>simp_all only:\<close>)
      then show ?thesis
        using n(1,2) False 2 m by (intro exI [of _ ?m] exI [of _ "i - 1"]) (simp add: make_room_def lim)
    qed
  qed
qed

lemma spec_save_ordered:
  assumes "ordered es" and "2 ^ 63 \<le> rx_ts e"
  shows "ordered (spec_save mx e es)"
proof -
  let ?b = "filter (\<lambda>t. rx_ts t < rx_ts e) es"
  let ?n = "filter (\<lambda>t. rx_ts t - rx_ts e \<le> NTPTS_FUTURE_LIMIT) (filter (\<lambda>t. rx_ts e < rx_ts t) es)"
  have sub: "ordered (filter P es)" for P
    using assms(1) by (auto simp: ordered_def sorted_wrt_map sorted_wrt_filter)
  have b: "ordered ?b" and n: "ordered ?n"
    using sub by (auto simp: ordered_def)
  have ins: "ordered (xs @ e # ys)"
    if "ordered xs" "ordered ys" "set xs \<subseteq> set ?b" "set ys \<subseteq> set ?n" for xs ys
  proof -
    have "\<forall>x\<in>set xs. rx_ts x < rx_ts e" "\<forall>y\<in>set ys. rx_ts e < rx_ts y"
      using that by auto
    then show ?thesis
      using that(1,2) assms(2) by (auto simp: ordered_def sorted_wrt_append intro: less_trans)
  qed
  have tl: "ordered (tl xs)" "set (tl xs) \<subseteq> set xs" if "ordered xs" for xs
    using that by (cases xs; auto simp: ordered_def)+
  have bl: "ordered (butlast xs)" "set (butlast xs) \<subseteq> set xs" if "ordered xs" for xs
    using that by (cases xs rule: rev_cases; auto simp: ordered_def sorted_wrt_append)+
  have e: "ordered (e # ys)" if "ordered ys" "set ys \<subseteq> set ?n" for ys
    using ins [of "[]" ys] that by (simp add: ordered_def)
  show ?thesis
    unfolding spec_save_def Let_def
    using ins [of ?b ?n] ins [of "tl ?b" ?n] ins [of "butlast ?b" ?n] e [of "tl ?n"] tl [OF b] tl [OF n] bl [OF b] b n
    by (simp only: split: if_split) blast
qed

lemma spec_save_mem: "e \<in> set (spec_save mx e es)"
  by (simp add: spec_save_def Let_def)

section \<open>The transmit timestamp\<close>

definition nanos :: "Timespec \<Rightarrow> int" where
  "nanos t = tv_sec t * NSEC_PER_SEC + tv_nsec t"

definition timespec_ok :: "Timespec \<Rightarrow> bool" where
  "timespec_ok t \<longleftrightarrow> \<bar>tv_sec t\<bar> < 2 ^ 61 \<and> 0 \<le> tv_nsec t \<and> tv_nsec t < NSEC_PER_SEC"

lemma normalise_Some:
  assumes "\<bar>tv_sec t\<bar> \<le> 2 ^ 62" and "\<bar>tv_nsec t\<bar> < 3 * NSEC_PER_SEC"
  shows "\<exists>t'. normalise t = Some t' \<and> nanos t' = nanos t \<and> 0 \<le> tv_nsec t' \<and> tv_nsec t' < NSEC_PER_SEC"
proof (cases "0 \<le> tv_nsec t")
  case True
  then have q: "tv_nsec t sdiv NSEC_PER_SEC = tv_nsec t div NSEC_PER_SEC" "tv_nsec t smod NSEC_PER_SEC = tv_nsec t mod NSEC_PER_SEC"
    by (simp_all add: NSEC_PER_SEC_def signed_divide_int_def signed_modulo_int_def minus_div_mult_eq_mod sgn_if)
  have "0 \<le> tv_nsec t div NSEC_PER_SEC" "tv_nsec t div NSEC_PER_SEC \<le> 3" "0 \<le> tv_nsec t mod NSEC_PER_SEC" "tv_nsec t mod NSEC_PER_SEC < NSEC_PER_SEC"
    using True assms(2) by (auto simp: NSEC_PER_SEC_def)
  moreover have "tv_nsec t div NSEC_PER_SEC * NSEC_PER_SEC + tv_nsec t mod NSEC_PER_SEC = tv_nsec t"
    by (rule div_mult_mod_eq)
  ultimately show ?thesis
    using True assms(1) q by (auto simp: normalise_def nanos_def i64_add_def in_i64_def algebra_simps)
next
  case False
  let ?q = "(- tv_nsec t) div NSEC_PER_SEC" and ?r = "(- tv_nsec t) mod NSEC_PER_SEC"
  have q: "tv_nsec t sdiv NSEC_PER_SEC = - ?q" "tv_nsec t smod NSEC_PER_SEC = - ?r"
    using False by (simp_all add: NSEC_PER_SEC_def signed_divide_int_def signed_modulo_int_def minus_div_mult_eq_mod [symmetric])
  have b: "0 \<le> ?q" "?q \<le> 3" "0 \<le> ?r" "?r < NSEC_PER_SEC"
    using False assms(2) by (auto simp: NSEC_PER_SEC_def)
  have "?q * NSEC_PER_SEC + ?r = - tv_nsec t"
    by (rule div_mult_mod_eq)
  then have "nanos \<lparr>tv_sec = tv_sec t - ?q, tv_nsec = - ?r\<rparr> = nanos t"
      "nanos \<lparr>tv_sec = tv_sec t - ?q - 1, tv_nsec = NSEC_PER_SEC - ?r\<rparr> = nanos t"
    by (simp_all add: nanos_def algebra_simps)
  moreover have range: "in_i64 (tv_sec t - ?q)" "in_i64 (tv_sec t - ?q - 1)"
    using assms(1) b(1,2) by (simp_all add: in_i64_def abs_le_iff)
  have "normalise t = Some (if 0 < ?r then \<lparr>tv_sec = tv_sec t - ?q - 1, tv_nsec = NSEC_PER_SEC - ?r\<rparr>
      else \<lparr>tv_sec = tv_sec t - ?q, tv_nsec = - ?r\<rparr>)"
    using False range by (simp add: normalise_def q checked)
  ultimately show ?thesis
    using b(3,4) by (cases "0 < ?r") auto
qed

lemma nanos_inj:
  assumes "nanos a = nanos b" and "0 \<le> tv_nsec a" "tv_nsec a < NSEC_PER_SEC" "0 \<le> tv_nsec b" "tv_nsec b < NSEC_PER_SEC"
  shows "a = (b :: Timespec)"
proof -
  have "tv_sec a = tv_sec b"
    using assms by (simp add: nanos_def NSEC_PER_SEC_def)
  moreover from this have "tv_nsec a = tv_nsec b"
    using assms(1) by (simp add: nanos_def)
  ultimately show ?thesis by simp
qed

lemma f64_scale_ge: "2 ^ 52 * d \<le> n * 2 ^ k \<Longrightarrow> 2 ^ 52 * d \<le> n * 2 ^ f64_scale n d k"
  by (induction k) auto

lemma round_half_even_le:
  assumes "0 < d"
  shows "2 * d * round_half_even n d \<le> 2 * n + d"
proof -
  let ?q = "n div d" and ?r = "n mod d"
  have n: "d * ?q + ?r = n"
    by (rule mult_div_mod_eq)
  show ?thesis
  proof (cases "2 * ?r < d \<or> (2 * ?r = d \<and> even ?q)")
    case True
    then have "round_half_even n d = ?q"
      by (simp add: round_half_even_def Let_def)
    then show ?thesis
      using n by (simp only: mult.assoc)
  next
    case False
    then have "round_half_even n d = ?q + 1" "d \<le> 2 * ?r"
      by (auto simp: round_half_even_def Let_def)
    then show ?thesis
      using n by (simp only: mult.assoc distrib_left)
  qed
qed

lemma nsec_of_frac_less:
  assumes "a < 2 ^ 32"
  shows "nsec_of_frac a < 1000000000"
proof (cases "a = 0")
  case False
  let ?n = "a * 2 ^ 50" and ?d = "4835703278458517 :: nat"
  let ?k = "f64_scale ?n ?d 60"
  have "1 * 2 ^ 110 \<le> a * (2 :: nat) ^ 110"
    using False by (intro mult_right_mono) auto
  then have "2 ^ 52 * ?d \<le> ?n * 2 ^ 60"
    by simp
  then have k: "2 ^ 52 * ?d \<le> ?n * 2 ^ ?k"
    by (rule f64_scale_ge)
  have n: "?n \<le> (2 ^ 32 - 1) * 2 ^ 50"
    using assms by (intro mult_right_mono) auto
  have k2: "2 \<le> ?k"
  proof (rule ccontr)
    assume "\<not> 2 \<le> ?k"
    then have "(2 :: nat) ^ ?k \<le> 2 ^ 1"
      by (intro power_increasing) auto
    with n have "?n * 2 ^ ?k \<le> (2 ^ 32 - 1) * 2 ^ 50 * 2 ^ 1"
      by (rule mult_le_mono)
    with k show False by simp
  qed
  then have K: "(2 :: nat) ^ 2 \<le> 2 ^ ?k"
    by (intro power_increasing) auto
  have "?n * 2 ^ ?k \<le> ((2 ^ 32 - 1) * 2 ^ 50) * 2 ^ ?k"
    using n by (rule mult_right_mono) simp
  moreover have "2 * ?d * round_half_even (?n * 2 ^ ?k) ?d \<le> 2 * (?n * 2 ^ ?k) + ?d"
    by (rule round_half_even_le) simp
  moreover have "R < 1000000000 * k" if "X \<le> ((2 ^ 32 - 1) * 2 ^ 50) * k" "2 * ?d * R \<le> 2 * X + ?d" "2\<^sup>2 \<le> k" for X R k :: nat
    using that by simp
  ultimately have "round_half_even (?n * 2 ^ ?k) ?d < 1000000000 * 2 ^ ?k"
    using K by blast
  then show ?thesis
    using False by (simp add: nsec_of_frac_def NSEC_PER_NTP64_mant_def Let_def div_less_iff_less_mult)
qed (simp add: nsec_of_frac_def)

lemma ntp64_to_timespec_ok: "timespec_ok (ntp64_to_timespec rx)"
proof -
  have sec: "\<bar>uint w\<bar> < 2 ^ 61" for w :: u32
    using uint_lt2p [of w] by simp
  have "nsec_of_frac (unat w) < 1000000000" for w :: u32
    using nsec_of_frac_less unsigned_less [of w, where 'a = nat] by simp
  then have nsec: "int (nsec_of_frac (unat w)) < 1000000000" for w :: u32
    by (metis of_nat_less_iff of_nat_numeral)
  show ?thesis
    using sec [of "ucast (drop_bit 32 rx) - JAN_1970"] nsec [of "ucast rx"]
    by (auto simp: timespec_ok_def ntp64_to_timespec_def default_timespec_def NSEC_PER_SEC_def Let_def)
qed

lemma timespec_diff_Some:
  assumes "timespec_ok a" and "timespec_ok b"
  shows "\<exists>d. timespec_diff a b = Some d \<and> nanos d = nanos a - nanos b \<and> 0 \<le> tv_nsec d \<and> tv_nsec d < NSEC_PER_SEC"
proof -
  let ?t = "\<lparr>tv_sec = tv_sec a - tv_sec b, tv_nsec = tv_nsec a - tv_nsec b\<rparr>"
  have "in_i64 (tv_sec a - tv_sec b)" "in_i64 (tv_nsec a - tv_nsec b)"
    using assms by (simp_all add: timespec_ok_def in_i64_def abs_less_iff NSEC_PER_SEC_def)
  then have "timespec_diff a b = normalise ?t"
    by (simp add: timespec_diff_def checked)
  moreover have "nanos ?t = nanos a - nanos b"
    by (simp add: nanos_def algebra_simps)
  moreover have "\<bar>tv_sec ?t\<bar> \<le> 2 ^ 62" "\<bar>tv_nsec ?t\<bar> < 3 * NSEC_PER_SEC"
    using assms by (auto simp: timespec_ok_def)
  ultimately show ?thesis
    using normalise_Some [of ?t] by simp
qed

text \<open>The window in which a transmit timestamp is kept: two seconds on either side.\<close>

definition tx_window :: "u64 \<Rightarrow> Timespec \<Rightarrow> bool" where
  "tx_window rx t \<longleftrightarrow> (let d = nanos t - nanos (ntp64_to_timespec rx) in - 2 * NSEC_PER_SEC \<le> d \<and> d < 2 * NSEC_PER_SEC)"

lemma set_ntp_tx_Some:
  assumes "\<And>t. tx = Some t \<Longrightarrow> timespec_ok t" and "in_i32 (tx_ts_offset tss)"
  shows "\<exists>tss'. set_ntp_tx tss rx tx src = Some tss' \<and> rx_ts tss' = rx_ts tss \<and> in_i32 (tx_ts_offset tss') \<and>
    (flags tss' AND NTPTS_DISABLED) = (flags tss AND NTPTS_DISABLED) \<and>
    (\<forall>t. tx = Some t \<and> tx_window rx t \<longrightarrow> flags tss' AND NTPTS_VALID_TX \<noteq> 0 \<and>
       tx_ts_offset tss' = nanos t - nanos (ntp64_to_timespec rx) \<and> tx_ts_source tss' = source_index src)"
proof -
  have bits: "(f AND NOT NTPTS_VALID_TX) AND NTPTS_DISABLED = f AND NTPTS_DISABLED"
      "(f OR NTPTS_VALID_TX) AND NTPTS_DISABLED = f AND NTPTS_DISABLED"
      "(f OR NTPTS_VALID_TX) AND NTPTS_VALID_TX = NTPTS_VALID_TX" for f :: u8
    unfolding NTPTS_DISABLED_def NTPTS_VALID_TX_def
    by (rule bit_word_eqI; auto simp: bit_simps bit_1_iff)+
  show ?thesis
  proof (cases tx)
    case None
    then show ?thesis
      using assms(2) by (simp add: set_ntp_tx_def bits)
  next
    case (Some t)
    obtain d where d: "timespec_diff t (ntp64_to_timespec rx) = Some d"
        "nanos d = nanos t - nanos (ntp64_to_timespec rx)" "0 \<le> tv_nsec d" "tv_nsec d < NSEC_PER_SEC"
      using timespec_diff_Some [OF assms(1) [OF Some] ntp64_to_timespec_ok] by blast
    have win: "tx_window rx t \<longleftrightarrow> \<not> (tv_sec d < -2 \<or> 1 < tv_sec d)"
      using d(2-4) by (auto simp: tx_window_def nanos_def NSEC_PER_SEC_def Let_def)
    show ?thesis
    proof (cases "tx_window rx t")
      case True
      have "in_i32 (tv_sec d)" "in_i32 (tv_nsec d)" "in_i32 (tv_sec d * NSEC_PER_SEC)" "in_i32 (nanos d)" "nanos d = tv_nsec d + tv_sec d * NSEC_PER_SEC"
        using True d(3,4) unfolding win by (auto simp: in_i32_def NSEC_PER_SEC_def nanos_def)
      then have "set_ntp_tx tss rx tx src = Some (tss\<lparr>tx_ts_offset := nanos d, flags := flags tss OR NTPTS_VALID_TX,
          tx_ts_source := source_index src\<rparr>)"
        using True win Some d(1) by (simp add: set_ntp_tx_def checked)
      then show ?thesis
        using d(2) \<open>in_i32 (nanos d)\<close> Some by (simp add: bits) (simp add: NTPTS_VALID_TX_def)
    next
      case False
      then show ?thesis
        using assms(2) Some d(1) win by (auto simp: set_ntp_tx_def bits)
    qed
  qed
qed

lemma get_ntp_tx_Some:
  assumes "in_i32 (tx_ts_offset tss)"
  shows "\<exists>t. get_ntp_tx tss = Some (t, from_index (tx_ts_source tss)) \<and>
    (flags tss AND NTPTS_VALID_TX \<noteq> 0 \<longrightarrow>
       nanos t = nanos (ntp64_to_timespec (rx_ts tss)) + tx_ts_offset tss \<and> 0 \<le> tv_nsec t \<and> tv_nsec t < NSEC_PER_SEC)"
proof (cases "flags tss AND NTPTS_VALID_TX = 0")
  case True
  then show ?thesis by (simp add: get_ntp_tx_def)
next
  case False
  let ?r = "ntp64_to_timespec (rx_ts tss)" and ?o = "tx_ts_offset tss"
  let ?t = "if NSEC_PER_SEC \<le> ?o then \<lparr>tv_sec = tv_sec ?r + 1, tv_nsec = tv_nsec ?r + (?o - NSEC_PER_SEC)\<rparr>
    else \<lparr>tv_sec = tv_sec ?r, tv_nsec = tv_nsec ?r + ?o\<rparr>"
  have r: "\<bar>tv_sec ?r\<bar> < 2 ^ 61" "0 \<le> tv_nsec ?r" "tv_nsec ?r < NSEC_PER_SEC"
    using ntp64_to_timespec_ok [of "rx_ts tss"] by (simp_all add: timespec_ok_def)
  have "in_i64 (tv_sec ?r + 1)" "in_i64 (tv_nsec ?r + ?o)" "in_i64 (tv_nsec ?r + (?o - NSEC_PER_SEC))"
      "NSEC_PER_SEC \<le> ?o \<Longrightarrow> in_i32 (?o - NSEC_PER_SEC)"
    using r assms by (simp_all add: in_i64_def in_i32_def NSEC_PER_SEC_def abs_less_iff)
  then have "get_ntp_tx tss = do { t \<leftarrow> normalise ?t; ret (t, from_index (tx_ts_source tss)) }"
    using False by (cases "ntp64_to_timespec (rx_ts tss)") (simp add: get_ntp_tx_def checked Let_def)
  moreover have "nanos ?t = nanos ?r + ?o"
    by (simp add: nanos_def algebra_simps)
  moreover have "\<exists>t'. normalise ?t = Some t' \<and> nanos t' = nanos ?t \<and> 0 \<le> tv_nsec t' \<and> tv_nsec t' < NSEC_PER_SEC"
    using r assms by (intro normalise_Some) (simp_all add: in_i32_def NSEC_PER_SEC_def abs_less_iff abs_le_iff)
  ultimately show ?thesis
    by auto
qed

section \<open>Every operation keeps the map well formed\<close>

lemma cached_simps [simp]:
  "entries (m\<lparr>cached_index := i, cached_rx_ts := rx\<rparr>) = entries m"
  "ring_ok (m\<lparr>cached_index := i, cached_rx_ts := rx\<rparr>) = ring_ok m"
  by (simp_all add: entries_def ring_ok_def split: option.split)

lemma cache_hit_simps [simp]:
  "entries (cache_hit m rx found idx) = entries m"
  "ring_ok (cache_hit m rx found idx) = ring_ok m"
  "ring_size (cache_hit m rx found idx) = ring_size m"
  "timestamps (cache_hit m rx found idx) = timestamps m"
  "max_size (cache_hit m rx found idx) = max_size m"
  by (simp_all add: cache_hit_def)

lemma wf_cache_hit:
  assumes "wf_map m" and "found \<Longrightarrow> located (entries m) rx True idx"
  shows "wf_map (cache_hit m rx found idx)"
proof (cases found)
  case True
  then have "idx < ring_size m" "rx_ts (entries m ! idx) = rx"
    using assms length_entries by (auto simp: located_def wf_map_def)
  moreover have "ring_ok (cache_hit m rx True idx)" "ordered (entries (cache_hit m rx True idx))"
    using assms(1) unfolding cache_hit_simps by (simp_all add: wf_map_def)
  ultimately show ?thesis
    using True by (simp add: wf_map_def cache_ok_def) (simp add: cache_hit_def)
qed (use assms in \<open>simp add: cache_hit_def\<close>)

lemma entries_i32:
  assumes "ring_ok m" and "i < ring_size m"
  shows "in_i32 (tx_ts_offset (entries m ! i))"
proof -
  obtain ts where ts: "timestamps m = Some ts" "length ts = max_size m" "\<forall>t\<in>set ts. in_i32 (tx_ts_offset t)"
    using assms by (auto simp: ring_ok_def split: option.splits)
  then have "entries m ! i = ts ! ((ring_first m + i) mod length ts)" "(ring_first m + i) mod length ts < length ts"
    using assms ring_okD(1) [OF assms(1)] by (simp_all add: entries_def)
  then show ?thesis
    using ts(3) by simp
qed

lemma update_located:
  assumes "ordered es" and "located es rx True idx"
  shows "es[idx := f (es ! idx)] = map (\<lambda>t. if rx_ts t = rx then f t else t) es"
proof (rule nth_equalityI)
  fix j
  assume "j < length (es[idx := f (es ! idx)])"
  then have j: "j < length es" by simp
  have "rx_ts (es ! j) = rx \<longleftrightarrow> j = idx"
    using assms j ordered_nth [OF assms(1), of j idx] ordered_nth [OF assms(1), of idx j]
    by (cases j idx rule: linorder_cases) (auto simp: located_def)
  then show "es[idx := f (es ! idx)] ! j = map (\<lambda>t. if rx_ts t = rx then f t else t) es ! j"
    using j by (auto simp: nth_list_update)
qed simp

lemma ordered_map: "(\<And>t. rx_ts (f t) = rx_ts t) \<Longrightarrow> ordered (map f es) = ordered es"
  by (simp add: ordered_def comp_def)

text \<open>Changing the entry the search found, and nothing else.\<close>

lemma modify_found:
  assumes wf: "wf_map m" and loc: "located (entries m) rx True idx"
    and f: "f (entries m ! idx) = Some (g (entries m ! idx))" and g: "\<And>t. rx_ts (g t) = rx_ts t"
    and i32: "in_i32 (tx_ts_offset (g (entries m ! idx)))"
  shows "\<exists>m'. ring_update (cache_hit m rx True idx) idx f = Some m' \<and> wf_map m' \<and> max_size m' = max_size m \<and>
    timestamps m' \<noteq> None \<and> entries m' = map (\<lambda>t. if rx_ts t = rx then g t else t) (entries m)"
proof -
  let ?m = "cache_hit m rx True idx"
  have wf': "wf_map ?m"
    using wf_cache_hit [OF wf] loc by blast
  have idx: "idx < ring_size ?m"
    using loc wf length_entries by (simp add: located_def wf_map_def)
  obtain m' where m': "ring_update ?m idx f = Some m'" "entries m' = (entries m)[idx := g (entries m ! idx)]"
      "ring_ok m'" "ring_size m' = ring_size m" "cached_index m' = cached_index ?m" "cached_rx_ts m' = cached_rx_ts ?m"
      "max_size m' = max_size m" "timestamps m' \<noteq> None"
    using ring_update_Some [of ?m idx f "g (entries m ! idx)"] wf' idx f i32 by (auto simp: wf_map_def)
  have eq: "entries m' = map (\<lambda>t. if rx_ts t = rx then g t else t) (entries m)"
    unfolding m'(2) using wf loc by (intro update_located) (simp_all add: wf_map_def)
  have "ordered (entries m')"
    unfolding eq using wf g by (subst ordered_map) (simp_all add: wf_map_def)
  moreover have "rx_ts (entries m' ! i) = rx_ts (entries m ! i)" if "i < ring_size m" for i
    using that wf g unfolding eq by (simp add: length_entries wf_map_def)
  then have "cache_ok m'"
    using wf' m'(4-6) by (auto simp: cache_ok_def wf_map_def)
  ultimately show ?thesis
    using m' eq by (auto simp: wf_map_def)
qed

definition disable :: "NtpTimestamps \<Rightarrow> NtpTimestamps" where
  "disable t = t\<lparr>flags := flags t OR NTPTS_DISABLED\<rparr>"

definition new_entry :: "u64 \<Rightarrow> Timespec option \<Rightarrow> TimestampSource \<Rightarrow> NtpTimestamps \<Rightarrow> bool" where
  "new_entry rx tx src e \<longleftrightarrow> rx_ts e = rx \<and> flags e AND NTPTS_DISABLED = 0 \<and>
     (\<forall>t. tx = Some t \<and> tx_window rx t \<longrightarrow> flags e AND NTPTS_VALID_TX \<noteq> 0 \<and>
       tx_ts_offset e = nanos t - nanos (ntp64_to_timespec rx) \<and> tx_ts_source e = source_index src)"

lemma save_fresh:
  assumes wf: "wf_map m" and ts: "timestamps m = Some ts" and rx: "2 ^ 63 \<le> rx"
    and loc: "located (entries m) rx False i" and tx: "\<And>t. tx = Some t \<Longrightarrow> timespec_ok t"
  shows "\<exists>m'. insert_new m rx i tx src = Some m' \<and> wf_map m' \<and> max_size m' = max_size m \<and> timestamps m' \<noteq> None \<and>
    (\<exists>e. entries m' = spec_save (max_size m) e (entries m) \<and> new_entry rx tx src e)"
proof -
  have ok: "ring_ok m" and ord: "ordered (entries m)"
    using wf by (simp_all add: wf_map_def)
  obtain m1 i' where m1: "make_room m rx i = Some (m1, i')" "ring_ok m1" "timestamps m1 \<noteq> None"
      "max_size m1 = max_size m" "i' < ring_size m1"
      "\<forall>e. rx_ts e = rx \<longrightarrow> (entries m1)[i' := e] = spec_save (max_size m) e (entries m)"
    using make_room_Some [OF ok ts ord loc] by blast
  let ?m = "m1\<lparr>cached_index := i', cached_rx_ts := rx\<rparr>"
  have m: "ring_ok ?m" "entries ?m = entries m1" "i' < ring_size ?m"
    using m1(2,5) by simp_all
  let ?t = "(entries m1 ! i')\<lparr>rx_ts := rx, flags := 0, tss_slew_epoch := slew_epoch m1\<rparr>"
  have "in_i32 (tx_ts_offset ?t)"
    using entries_i32 [OF m1(2,5)] by simp
  then obtain e where e: "set_ntp_tx ?t rx tx src = Some e" "rx_ts e = rx" "in_i32 (tx_ts_offset e)" "new_entry rx tx src e"
    using set_ntp_tx_Some [where tx = tx and tss = ?t and rx = rx and src = src, OF tx] by (auto simp: new_entry_def)
  let ?f = "\<lambda>t. set_ntp_tx (t\<lparr>rx_ts := rx, flags := 0, tss_slew_epoch := slew_epoch ?m\<rparr>) rx tx src"
  obtain m' where m': "ring_update ?m i' ?f = Some m'" "entries m' = (entries m1)[i' := e]" "ring_ok m'"
      "ring_size m' = ring_size m1" "cached_index m' = i'" "cached_rx_ts m' = rx" "max_size m' = max_size m" "timestamps m' \<noteq> None"
    using ring_update_Some [OF m(1,3), of ?f e] e m(2) m1(4) by auto
  have eq: "entries m' = spec_save (max_size m) e (entries m)"
    using m'(2) m1(6) e(2) by simp
  have "ordered (entries m')"
    unfolding eq using ord rx e(2) by (intro spec_save_ordered) simp_all
  moreover have "cache_ok m'"
    using m'(2,4-6) m1(2,5) e(2) by (simp add: cache_ok_def length_entries)
  ultimately have "wf_map m'"
    using m'(3) by (simp add: wf_map_def)
  moreover have "insert_new m rx i tx src = Some m'"
    using m1(1) m'(1) loc ok by (simp add: insert_new_def located_def length_entries)
  ultimately show ?thesis
    using m'(7,8) eq e(4) by blast
qed

text \<open>The buffer is allocated on the first save.\<close>

definition alloc :: "NtpTimestampMap \<Rightarrow> NtpTimestampMap" where
  "alloc m = (case timestamps m of
       None \<Rightarrow> m\<lparr>timestamps := Some (replicate (max_size m) blank_tss)\<rparr>
     | Some _ \<Rightarrow> m)"

lemma alloc_wf:
  assumes "wf_map m"
  shows "wf_map (alloc m)" and "entries (alloc m) = entries m" and "max_size (alloc m) = max_size m"
    and "\<exists>ts. timestamps (alloc m) = Some ts"
proof -
  show e: "entries (alloc m) = entries m"
    using assms by (auto simp: alloc_def entries_def wf_map_def ring_ok_def ring_def split: option.splits)
  show "max_size (alloc m) = max_size m" "\<exists>ts. timestamps (alloc m) = Some ts"
    by (auto simp: alloc_def split: option.splits)
  have "ring_ok (alloc m)"
    using assms by (auto simp: alloc_def wf_map_def ring_ok_def blank_tss_def in_i32_def split: option.splits)
  moreover have "cache_ok (alloc m)"
    using assms unfolding wf_map_def cache_ok_def e by (simp add: alloc_def split: option.split)
  ultimately show "wf_map (alloc m)"
    using assms by (simp add: wf_map_def e)
qed

lemma save_ntp_timestamps_Some:
  assumes wf: "wf_map m" and rx: "2 ^ 63 \<le> rx" and tx: "\<And>t. tx = Some t \<Longrightarrow> timespec_ok t"
  shows "\<exists>m'. save_ntp_timestamps True m rx tx src = Some m' \<and> wf_map m' \<and> max_size m' = max_size m \<and>
    timestamps m' \<noteq> None \<and>
    (if rx \<in> rx_ts ` set (entries m)
     then entries m' = map (\<lambda>t. if rx_ts t = rx then disable t else t) (entries m)
     else \<exists>e. entries m' = spec_save (max_size m) e (entries m) \<and> new_entry rx tx src e)"
proof -
  let ?m = "alloc m"
  note a = alloc_wf [OF wf]
  obtain ts where ts: "timestamps ?m = Some ts"
    using a(4) by blast
  obtain found i where f: "find_ntp_rx_ts ?m rx = Some ((found, i), cache_hit ?m rx found i)"
      "if found then located (entries m) rx True i
       else rx \<notin> rx_ts ` set (entries m) \<and> (2 ^ 63 \<le> rx \<longrightarrow> located (entries m) rx False i)"
    using find_ntp_rx_ts_located [OF a(1), of rx] unfolding a(2) by blast
  have "rx \<noteq> 0"
    using rx by (auto simp: word_le_def)
  then have run: "save_ntp_timestamps True m rx tx src = do {
      ((found, i), m) \<leftarrow> find_ntp_rx_ts ?m rx;
      if found then ring_update m i (\<lambda>t. ret (disable t))
      else insert_new m rx i tx src
    }"
    unfolding save_ntp_timestamps_def alloc_def disable_def by simp
  show ?thesis
  proof (cases found)
    case True
    then have loc: "located (entries ?m) rx True i" and "rx \<in> rx_ts ` set (entries m)"
      using f(2) a(2) by (auto simp: located_def)
    moreover have "in_i32 (tx_ts_offset (disable (entries ?m ! i)))"
      using entries_i32 [of ?m i] a(1) loc length_entries by (auto simp: disable_def wf_map_def located_def)
    ultimately show ?thesis
      using modify_found [OF a(1) loc, of "\<lambda>t. ret (disable t)" disable] a(2,3) True
      by (simp add: run f(1) disable_def)
  next
    case False
    then have loc: "located (entries ?m) rx False i" and new: "rx \<notin> rx_ts ` set (entries m)"
      using f(2) rx a(2) by auto
    show ?thesis
      using save_fresh [OF a(1) ts rx loc tx] a(2,3) False new by (simp add: run f(1) cache_hit_def)
  qed
qed

lemma get_ntp_tx_timestamp_Some:
  assumes wf: "wf_map m"
  shows "\<exists>m' r. get_ntp_tx_timestamp m rx = Some (m', r) \<and> wf_map m' \<and> entries m' = entries m \<and>
    (r \<noteq> None \<longleftrightarrow> (\<exists>e\<in>set (entries m). rx_ts e = rx \<and> flags e AND NTPTS_DISABLED = 0)) \<and>
    (\<forall>e\<in>set (entries m). rx_ts e = rx \<and> flags e AND NTPTS_DISABLED = 0 \<longrightarrow> r = get_ntp_tx e)"
proof (cases "timestamps m")
  case None
  then show ?thesis
    using wf by (simp add: get_ntp_tx_timestamp_def entries_def)
next
  case (Some ts)
  have ok: "ring_ok m" and ord: "ordered (entries m)"
    using wf by (simp_all add: wf_map_def)
  obtain found i where f: "find_ntp_rx_ts m rx = Some ((found, i), cache_hit m rx found i)"
      "if found then located (entries m) rx True i
       else rx \<notin> rx_ts ` set (entries m) \<and> (2 ^ 63 \<le> rx \<longrightarrow> located (entries m) rx False i)"
    using find_ntp_rx_ts_located [OF wf, of rx] by blast
  show ?thesis
  proof (cases found)
    case False
    then show ?thesis
      using f wf Some by (auto simp: get_ntp_tx_timestamp_def cache_hit_def)
  next
    case True
    then have loc: "located (entries m) rx True i"
      using f(2) by simp
    then have i: "i < ring_size m" "rx_ts (entries m ! i) = rx"
      using ok by (simp_all add: located_def length_entries)
    let ?e = "entries m ! i" and ?k = "(ring_first m + i) mod max_size m"
    have one: "e = ?e" if e: "e \<in> set (entries m)" "rx_ts e = rx" for e
    proof -
      obtain j where j: "j < length (entries m)" "e = entries m ! j"
        using e(1) unfolding in_set_conv_nth by blast
      then show ?thesis
        using e(2) i length_entries [OF ok] ordered_nth [OF ord, of j i] ordered_nth [OF ord, of i j]
        by (cases i j rule: linorder_cases) auto
    qed
    have mem: "?e \<in> set (entries m)"
      using i(1) length_entries [OF ok] by simp
    have "ring_get m ts i = Some ?e"
      using ok Some i(1) by simp
    then have get: "index ts ?k = Some ?e" "ntp_tss_index (cache_hit m rx True i) i = Some ?k"
      using ok i(1) ring_okD(4) [OF ok] by (simp_all add: ring_get_def) (simp add: cache_hit_def)
    obtain r where r: "get_ntp_tx ?e = Some r"
      using get_ntp_tx_Some [OF entries_i32 [OF ok i(1)]] by blast
    have "get_ntp_tx_timestamp m rx = Some (cache_hit m rx True i, if flags ?e AND NTPTS_DISABLED \<noteq> 0 then None else Some r)"
      using True f(1) get r Some by (simp add: get_ntp_tx_timestamp_def)
    moreover have "wf_map (cache_hit m rx True i)"
      using wf_cache_hit [OF wf] loc by blast
    moreover have "(\<exists>e\<in>set (entries m). rx_ts e = rx \<and> P e) \<longleftrightarrow> P ?e"
        "(\<forall>e\<in>set (entries m). rx_ts e = rx \<and> P e \<longrightarrow> Q e) \<longleftrightarrow> (P ?e \<longrightarrow> Q ?e)" for P Q
      using one mem i(2) by blast+
    ultimately show ?thesis
      using r by simp
  qed
qed

lemma set_ntp_tx_rx: "set_ntp_tx t rx tx src = Some t' \<Longrightarrow> rx_ts t' = rx_ts t"
  by (auto simp: set_ntp_tx_def Option.bind_eq_Some_conv split: option.splits if_splits)

lemma update_ntp_tx_timestamp_Some:
  assumes wf: "wf_map m" and tx: "\<And>t. tx = Some t \<Longrightarrow> timespec_ok t"
  shows "\<exists>m'. update_ntp_tx_timestamp m rx tx src = Some m' \<and> wf_map m' \<and>
    map rx_ts (entries m') = map rx_ts (entries m)"
proof -
  obtain found i where f: "find_ntp_rx_ts m rx = Some ((found, i), cache_hit m rx found i)"
      "if found then located (entries m) rx True i
       else rx \<notin> rx_ts ` set (entries m) \<and> (2 ^ 63 \<le> rx \<longrightarrow> located (entries m) rx False i)"
    using find_ntp_rx_ts_located [OF wf, of rx] by blast
  consider "timestamps m = None \<or> \<not> found" | "timestamps m \<noteq> None" "found"
    by blast
  then show ?thesis
  proof cases
    case 1
    then show ?thesis
      using wf f(1) by (auto simp: update_ntp_tx_timestamp_def cache_hit_def)
  next
    case 2
    then have loc: "located (entries m) rx True i"
      using f(2) by simp
    let ?f = "\<lambda>t. set_ntp_tx t rx tx src"
    let ?g = "\<lambda>t. case ?f t of None \<Rightarrow> t | Some t' \<Rightarrow> t'"
    have g: "rx_ts (?g t) = rx_ts t" for t
      using set_ntp_tx_rx by (auto split: option.split)
    have "in_i32 (tx_ts_offset (entries m ! i))"
      using entries_i32 [of m i] wf loc length_entries by (auto simp: wf_map_def located_def)
    then obtain t' where "?f (entries m ! i) = Some t'" "in_i32 (tx_ts_offset t')"
      using set_ntp_tx_Some [where tx = tx and tss = "entries m ! i" and rx = rx and src = src, OF tx] by blast
    then obtain m' where "ring_update (cache_hit m rx True i) i ?f = Some m'" "wf_map m'"
        "entries m' = map (\<lambda>t. if rx_ts t = rx then ?g t else t) (entries m)"
      using modify_found [where f = ?f and g = ?g, OF wf loc _ g] by auto
    moreover from this have "map rx_ts (entries m') = map rx_ts (entries m)"
      using g by (simp add: comp_def if_distrib [of rx_ts])
    ultimately show ?thesis
      using 2 f(1) wf by (simp add: update_ntp_tx_timestamp_def)
  qed
qed

lemma disable_ntp_timestamps_Some:
  assumes wf: "wf_map m" and "hits < 2 ^ 64 - 1"
  shows "\<exists>m'. disable_ntp_timestamps m hits rx = Some (m', hits + 1) \<and> wf_map m' \<and>
    entries m' = map (\<lambda>t. if rx_ts t = rx then disable t else t) (entries m)"
proof -
  obtain found i where f: "find_ntp_rx_ts m rx = Some ((found, i), cache_hit m rx found i)"
      "if found then located (entries m) rx True i
       else rx \<notin> rx_ts ` set (entries m) \<and> (2 ^ 63 \<le> rx \<longrightarrow> located (entries m) rx False i)"
    using find_ntp_rx_ts_located [OF wf, of rx] by blast
  have h: "u64_add hits (Suc 0) = Some (Suc hits)"
    using assms(2) by (simp add: u64_add_def)
  have same: "map (\<lambda>t. if rx_ts t = rx then disable t else t) (entries m) = entries m" if "rx \<notin> rx_ts ` set (entries m)"
    using that by (intro map_idI) auto
  consider "timestamps m = None" | "timestamps m \<noteq> None" "\<not> found" | "timestamps m \<noteq> None" "found"
    by blast
  then show ?thesis
  proof cases
    case 1
    then show ?thesis
      using wf h by (simp add: disable_ntp_timestamps_def entries_def)
  next
    case 2
    then show ?thesis
      using wf f h same by (auto simp: disable_ntp_timestamps_def cache_hit_def)
  next
    case 3
    then have loc: "located (entries m) rx True i"
      using f(2) by simp
    have "in_i32 (tx_ts_offset (disable (entries m ! i)))"
      using entries_i32 [of m i] wf loc length_entries by (auto simp: disable_def wf_map_def located_def)
    then obtain m' where "ring_update (cache_hit m rx True i) i (\<lambda>t. ret (disable t)) = Some m'" "wf_map m'"
        "entries m' = map (\<lambda>t. if rx_ts t = rx then disable t else t) (entries m)"
      using modify_found [where f = "\<lambda>t. ret (disable t)" and g = disable, OF wf loc] by (auto simp: disable_def)
    then show ?thesis
      using 3 f(1) h unfolding disable_ntp_timestamps_def disable_def by simp
  qed
qed

lemma handle_slew_wf:
  assumes "wf_map m"
  shows "wf_map (handle_slew m doffset ct)"
proof -
  have e: "entries (handle_slew m doffset ct) = (if ct = UnknownStep then [] else entries m)"
    by (auto simp: handle_slew_def entries_def ring_def Let_def split: option.split)
  moreover have "ring_ok (handle_slew m doffset ct)"
    using assms by (auto simp: handle_slew_def wf_map_def ring_ok_def Let_def split: option.split)
  moreover have "cache_ok (handle_slew m doffset ct)"
    using assms e by (auto simp: handle_slew_def wf_map_def cache_ok_def Let_def)
  ultimately show ?thesis
    using assms by (auto simp: wf_map_def ordered_def)
qed

section \<open>Reachable maps\<close>

definition empty_map :: "nat \<Rightarrow> NtpTimestampMap" where
  "empty_map mx = \<lparr>timestamps = None, ring_first = 0, ring_size = 0, max_size = mx, cached_index = 0,
     cached_rx_ts = 0, slew_epoch = 0, slew_offset = 0\<rparr>"

inductive ts_reach :: "nat \<Rightarrow> NtpTimestampMap \<Rightarrow> bool" for mx where
  init: "ts_reach mx (empty_map mx)"
| save: "ts_reach mx m \<Longrightarrow> 2 ^ 63 \<le> rx \<Longrightarrow> pred_option timespec_ok tx \<Longrightarrow>
     save_ntp_timestamps True m rx tx src = Some m' \<Longrightarrow> ts_reach mx m'"
| update: "ts_reach mx m \<Longrightarrow> pred_option timespec_ok tx \<Longrightarrow>
     update_ntp_tx_timestamp m rx tx src = Some m' \<Longrightarrow> ts_reach mx m'"
| get: "ts_reach mx m \<Longrightarrow> get_ntp_tx_timestamp m rx = Some (m', r) \<Longrightarrow> ts_reach mx m'"
| disable: "ts_reach mx m \<Longrightarrow> h < 2 ^ 64 - 1 \<Longrightarrow> disable_ntp_timestamps m h rx = Some (m', h') \<Longrightarrow> ts_reach mx m'"
| slew: "ts_reach mx m \<Longrightarrow> ts_reach mx (handle_slew m doffset ct)"

lemma wf_empty_map: "k \<le> 24 \<Longrightarrow> wf_map (empty_map (2 ^ k))"
  by (auto simp: wf_map_def empty_map_def ring_ok_def entries_def ordered_def cache_ok_def)

lemma ts_reach_wf:
  assumes "ts_reach (2 ^ k) m" and "k \<le> 24"
  shows "wf_map m"
  using assms(1)
proof (induction rule: ts_reach.induct)
  case init
  then show ?case
    using assms(2) by (rule wf_empty_map)
next
  case (save m rx tx src m')
  have tx: "timespec_ok t" if "tx = Some t" for t
    using that save.hyps(3) by simp
  show ?case
    using save_ntp_timestamps_Some [OF save.IH save.hyps(2) tx] save.hyps(4) by (metis option.inject)
next
  case (update m tx rx src m')
  have tx: "timespec_ok t" if "tx = Some t" for t
    using that update.hyps(2) by simp
  show ?case
    using update_ntp_tx_timestamp_Some [OF update.IH tx] update.hyps(3) by (metis option.inject)
next
  case (get m rx m' r)
  then show ?case
    using get_ntp_tx_timestamp_Some [OF get.IH, of rx] by auto
next
  case (disable m h rx m' h')
  then show ?case
    using disable_ntp_timestamps_Some [OF disable.IH, of h rx] by auto
next
  case (slew m doffset ct)
  then show ?case
    by (simp add: handle_slew_wf)
qed

section \<open>Properties\<close>


text \<open>C20. Saving the timestamps of a request refines insertion into an ordered list: it never panics,
  keeps the map well formed, disables a receive timestamp that is already there (it is not unique), and
  otherwise changes the entries as the list specification says.\<close>

theorem save_refines_list:
  assumes "wf_map m" and "2 ^ 63 \<le> rx" and "pred_option timespec_ok tx"
  shows "\<exists>m'. save_ntp_timestamps True m rx tx src = Some m' \<and> wf_map m' \<and>
    (if rx \<in> rx_ts ` set (entries m)
     then entries m' = map (\<lambda>t. if rx_ts t = rx then disable t else t) (entries m)
     else \<exists>e. entries m' = spec_save (max_size m) e (entries m) \<and> new_entry rx tx src e)"
proof -
  have "timespec_ok t" if "tx = Some t" for t
    using that assms(3) by simp
  from save_ntp_timestamps_Some [OF assms(1,2) this] show ?thesis
    by blast
qed

text \<open>C21. Interleaved mode gets back what was saved: after saving a new receive timestamp with a transmit
  time within the window, the lookup returns exactly that transmit time and its source.\<close>

theorem save_then_get:
  assumes "wf_map m" and "2 ^ 63 \<le> rx" and "rx \<notin> rx_ts ` set (entries m)" and "timespec_ok t" and "tx_window rx t"
  shows "\<exists>m' m''. save_ntp_timestamps True m rx (Some t) src = Some m' \<and>
    get_ntp_tx_timestamp m' rx = Some (m'', Some (t, src))"
proof -
  obtain m' e where m': "save_ntp_timestamps True m rx (Some t) src = Some m'" "wf_map m'"
      "entries m' = spec_save (max_size m) e (entries m)" "new_entry rx (Some t) src e"
    using save_ntp_timestamps_Some [OF assms(1,2), of "Some t" src] assms(3,4) by auto
  have e: "e \<in> set (entries m')" "rx_ts e = rx" "flags e AND NTPTS_DISABLED = 0"
      "flags e AND NTPTS_VALID_TX \<noteq> 0" "tx_ts_offset e = nanos t - nanos (ntp64_to_timespec rx)" "tx_ts_source e = source_index src"
    using m'(3,4) assms(5) spec_save_mem by (auto simp: new_entry_def)
  have "in_i32 (tx_ts_offset e)"
    using assms(5) unfolding e(5) by (auto simp: tx_window_def in_i32_def NSEC_PER_SEC_def Let_def)
  then obtain t' where t': "get_ntp_tx e = Some (t', from_index (tx_ts_source e))"
      "nanos t' = nanos t" "0 \<le> tv_nsec t'" "tv_nsec t' < NSEC_PER_SEC"
    using get_ntp_tx_Some [of e] e(2,4,5) by auto
  have "t' = t"
    using nanos_inj [OF t'(2-4)] assms(4) by (simp add: timespec_ok_def)
  moreover have "from_index (source_index src) = src"
    by (cases src) (simp_all add: from_index_def)
  ultimately have "get_ntp_tx e = Some (t, src)"
    using t'(1) e(6) by simp
  moreover obtain m'' r where "get_ntp_tx_timestamp m' rx = Some (m'', r)"
      "\<forall>e\<in>set (entries m'). rx_ts e = rx \<and> flags e AND NTPTS_DISABLED = 0 \<longrightarrow> r = get_ntp_tx e"
    using get_ntp_tx_timestamp_Some [OF m'(2)] by blast
  ultimately have "get_ntp_tx_timestamp m' rx = Some (m'', Some (t, src))"
    using e(1-3) by simp
  then show ?thesis
    using m'(1) by blast
qed


text \<open>A sequence of saves, around the end of the era and inside it.\<close>

definition era_end :: "u64 list" where
  "era_end = [0xFFFFFFFFFFFFFF00, 0xFFFFFFFFFFFFFF80, 0x10, 0x20, 0x30]"

fun save_all :: "u64 list \<Rightarrow> NtpTimestampMap \<Rightarrow> NtpTimestampMap run" where
  "save_all [] m = ret m"
| "save_all (rx # rxs) m = do { m \<leftarrow> save_ntp_timestamps True m rx None Daemon; save_all rxs m }"


definition sample_rx :: "u64 list" where
  "sample_rx = [0xE000000000000000, 0xE000000000000100, 0xE000000080000000]"

definition sample_map :: NtpTimestampMap where
  "sample_map = (case save_all sample_rx (empty_map 16) of None \<Rightarrow> empty_map 16 | Some m \<Rightarrow> m)"

lemma save_all_reach:
  "ts_reach mx m \<Longrightarrow> \<forall>rx\<in>set rxs. 2 ^ 63 \<le> rx \<Longrightarrow> save_all rxs m = Some m' \<Longrightarrow> ts_reach mx m'"
proof (induction rxs arbitrary: m)
  case (Cons rx rxs)
  obtain m1 where m1: "save_ntp_timestamps True m rx None Daemon = Some m1" "save_all rxs m1 = Some m'"
    using Cons.prems(3) by (auto simp: Option.bind_eq_Some_conv)
  have "ts_reach mx m1"
    using ts_reach.save [OF Cons.prems(1) _ _ m1(1)] Cons.prems(2) by simp
  then show ?case
    using Cons.IH m1(2) Cons.prems(2) by simp
qed simp

lemma sample_reach: "ts_reach (2 ^ 4) sample_map"
proof -
  obtain m where "save_all sample_rx (empty_map (2 ^ 4)) = Some m"
  proof -
    have "save_all sample_rx (empty_map (2 ^ 4)) \<noteq> None"
      by code_simp
    then show ?thesis
      using that by blast
  qed
  moreover have "ts_reach (2 ^ 4) m"
    using save_all_reach [OF ts_reach.init _ calculation] by (auto simp: sample_rx_def word_le_def)
  ultimately show ?thesis
    by (simp add: sample_map_def)
qed

lemma wf_sample_map: "wf_map sample_map"
  using ts_reach_wf [OF sample_reach] by simp

lemma sample_entries: "map rx_ts (entries sample_map) = sample_rx"
  by code_simp

lemma sample_set: "rx_ts ` set (entries sample_map) = set sample_rx"
  using sample_entries by (metis list.set_map)

definition sample_tx :: Timespec where
  "sample_tx = \<lparr>tv_sec = 1549107584, tv_nsec = 250123456\<rparr>"


lemma sample_fresh: "0xE000000040000000 \<notin> rx_ts ` set (entries sample_map)"
  unfolding sample_set by (simp add: sample_rx_def)

theorem save_refines_list_witness:
  "wf_map sample_map \<and> (\<exists>m' e. save_ntp_timestamps True sample_map 0xE000000040000000 None Kernel = Some m' \<and>
     wf_map m' \<and> entries m' = spec_save (max_size sample_map) e (entries sample_map) \<and> rx_ts e = 0xE000000040000000)"
proof -
  have "(2 :: u64) ^ 63 \<le> 0xE000000040000000"
    by (simp add: word_le_def)
  from save_refines_list [OF wf_sample_map this, of None Kernel] sample_fresh wf_sample_map show ?thesis
    by (auto simp: new_entry_def)
qed

theorem save_then_get_witness:
  "wf_map sample_map \<and> tx_window 0xE000000040000000 sample_tx \<and>
   (\<exists>m' m''. save_ntp_timestamps True sample_map 0xE000000040000000 (Some sample_tx) Kernel = Some m' \<and>
      get_ntp_tx_timestamp m' 0xE000000040000000 = Some (m'', Some (sample_tx, Kernel)))"
proof -
  have "(2 :: u64) ^ 63 \<le> 0xE000000040000000"
    by (simp add: word_le_def)
  moreover have w: "tx_window 0xE000000040000000 sample_tx"
    by code_simp
  moreover have "timespec_ok sample_tx"
    by (simp add: timespec_ok_def sample_tx_def NSEC_PER_SEC_def)
  ultimately show ?thesis
    using save_then_get [OF wf_sample_map _ sample_fresh] wf_sample_map by blast
qed


end
