(* ===== verification/ClientLog.thy ===== *)
theory ClientLog
  imports ClientTs
begin

text \<open>
  The client access log and response rate limiter, the first half of
  \<open>crates/chrony-rs-core/src/clientlog.rs\<close>: the hash table of client records with sixteen records to
  a slot, growth by doubling and eviction of the oldest record, the token bucket of each service, the
  request rate estimates and the reports.

  An array over the services is a function of the service. The injected random byte source is the
  sequence \<open>rng\<close> of the bytes it returns with the position \<open>rng_pos\<close> of the next one; drawing the hash
  seed repeats until it is not zero, so it is a partial function. Growing the table re-inserts the
  records through \<open>get_record_clg\<close>, which may itself grow the table: the recursion is bounded by fuel, and
  \<open>get_record_correct\<close> shows that the fuel of \<open>get_record_clg\<close> is always enough.
\<close>

section \<open>Services and constants\<close>

datatype Service = Ntp | Ntske | Cmdmon

definition services :: "Service list" where
  "services = [Ntp, Ntske, Cmdmon]"

lemma UNIV_Service: "UNIV = set services"
  by (auto simp: services_def intro: Service.exhaust)

instantiation Service :: enum
begin

definition enum_Service :: "Service list" where
  "enum_Service = services"

definition enum_all_Service :: "(Service \<Rightarrow> bool) \<Rightarrow> bool" where
  "enum_all_Service P \<longleftrightarrow> list_all P services"

definition enum_ex_Service :: "(Service \<Rightarrow> bool) \<Rightarrow> bool" where
  "enum_ex_Service P \<longleftrightarrow> list_ex P services"

instance
proof
  show "UNIV = set (Enum.enum :: Service list)"
    by (simp add: enum_Service_def UNIV_Service)
  show "distinct (Enum.enum :: Service list)"
    by (simp add: enum_Service_def services_def)
  show "Enum.enum_all P \<longleftrightarrow> Ball UNIV P" for P :: "Service \<Rightarrow> bool"
    by (simp add: enum_all_Service_def UNIV_Service list_all_iff)
  show "Enum.enum_ex P \<longleftrightarrow> Bex UNIV P" for P :: "Service \<Rightarrow> bool"
    by (simp add: enum_ex_Service_def UNIV_Service list_ex_iff)
qed

end

fun service_bit :: "Service \<Rightarrow> u8" where
  "service_bit Ntp = 1"
| "service_bit Ntske = 2"
| "service_bit Cmdmon = 4"

definition SLOT_SIZE :: nat where "SLOT_SIZE = 16"
definition MIN_SLOTS :: nat where "MIN_SLOTS = 1"
definition MAX_SLOTS :: nat where "MAX_SLOTS = 2 ^ 20"
definition TS_FRAC :: int where "TS_FRAC = 4"
definition INVALID_TS :: u32 where "INVALID_TS = 0"
definition RATE_SCALE :: int where "RATE_SCALE = 4"
definition MIN_RATE :: int where "MIN_RATE = -14 * RATE_SCALE"
definition INVALID_RATE :: int where "INVALID_RATE = -128"
definition MIN_LIMIT_INTERVAL :: int where "MIN_LIMIT_INTERVAL = -15 - TS_FRAC"
definition MAX_LIMIT_INTERVAL :: int where "MAX_LIMIT_INTERVAL = 12"
definition MIN_LIMIT_BURST :: int where "MIN_LIMIT_BURST = 1"
definition MAX_LIMIT_BURST :: int where "MAX_LIMIT_BURST = 255"
definition MIN_LEAK_RATE :: int where "MIN_LEAK_RATE = 1"
definition MAX_LEAK_RATE :: int where "MAX_LEAK_RATE = 4"
definition RECORD_SIZE :: nat where "RECORD_SIZE = 64"
definition NTPTS_SIZE :: nat where "NTPTS_SIZE = 16"

lemmas clientlog_consts = SLOT_SIZE_def MIN_SLOTS_def MAX_SLOTS_def TS_FRAC_def INVALID_TS_def RATE_SCALE_def
  MIN_RATE_def INVALID_RATE_def MIN_LIMIT_INTERVAL_def MAX_LIMIT_INTERVAL_def MIN_LIMIT_BURST_def
  MAX_LIMIT_BURST_def MIN_LEAK_RATE_def MAX_LEAK_RATE_def RECORD_SIZE_def NTPTS_SIZE_def

section \<open>Records and state\<close>

text \<open>A \<open>[u8; 16]\<close> address is its 128 bits, most significant byte first.\<close>

datatype ClientIp = Unspec | V4 u32 | V6 u128 | Id u32

fun family :: "ClientIp \<Rightarrow> int" where
  "family Unspec = 0"
| "family (V4 _) = 1"
| "family (V6 _) = 2"
| "family (Id _) = 3"

record Record =
  ip_addr :: ClientIp
  last_hit :: "Service \<Rightarrow> u32"
  hits :: "Service \<Rightarrow> u32"
  drops :: "Service \<Rightarrow> u16"
  tokens :: "Service \<Rightarrow> nat"
  rate :: "Service \<Rightarrow> int"
  ntp_timeout_rate :: int
  drop_flags :: u8

definition empty_record :: Record where
  "empty_record = \<lparr>ip_addr = Unspec, last_hit = (\<lambda>_. 0), hits = (\<lambda>_. 0), drops = (\<lambda>_. 0), tokens = (\<lambda>_. 0),
     rate = (\<lambda>_. 0), ntp_timeout_rate = 0, drop_flags = 0\<rparr>"

record RateLimit =
  rl_interval :: int
  burst :: int
  rl_leak_rate :: int

record ClientLogConfig =
  ntp_ratelimit :: "RateLimit option"
  nts_ratelimit :: "RateLimit option"
  cmd_ratelimit :: "RateLimit option"
  no_client_log :: bool
  client_log_limit :: nat

record ClientLog =
  records :: "Record list"
  slots :: nat
  max_slots :: nat
  ts_offset :: u32
  hash_seed :: u32
  max_tokens :: "Service \<Rightarrow> nat"
  tokens_per_hit :: "Service \<Rightarrow> nat"
  token_shift :: "Service \<Rightarrow> int"
  leak_rate :: "Service \<Rightarrow> int"
  limit_interval :: "Service \<Rightarrow> int"
  active :: bool
  ntp_ts_map :: NtpTimestampMap
  total_hits :: "Service \<Rightarrow> nat"
  total_drops :: "Service \<Rightarrow> nat"
  total_ntp_auth_hits :: nat
  total_ntp_interleaved_hits :: nat
  total_record_drops :: nat
  total_ntp_rx_timestamps :: "TimestampSource \<Rightarrow> nat"
  total_ntp_tx_timestamps :: "TimestampSource \<Rightarrow> nat"
  leak_rnd :: u32
  leak_bits_left :: int
  rng :: "nat \<Rightarrow> u8"
  rng_pos :: nat

definition clamp_i32 :: "int \<Rightarrow> int \<Rightarrow> int \<Rightarrow> int" where
  "clamp_i32 lo x hi = min (max x lo) hi"

section \<open>Randomness and the hash\<close>

definition word_at :: "(nat \<Rightarrow> u8) \<Rightarrow> nat \<Rightarrow> u32" where
  "word_at r p = le_word [r p, r (p + 1), r (p + 2), r (p + 3)]"

definition random_u32 :: "ClientLog \<Rightarrow> u32 \<times> ClientLog" where
  "random_u32 clg = (word_at (rng clg) (rng_pos clg), clg\<lparr>rng_pos := rng_pos clg + 4\<rparr>)"

partial_function (option) draw_seed :: "ClientLog \<Rightarrow> ClientLog option" where
  [code]: "draw_seed clg =
     (if hash_seed clg = 0 then
        let (v, clg) = random_u32 clg in draw_seed (clg\<lparr>hash_seed := v\<rparr>)
      else Some clg)"

fun ip_bytes :: "ClientIp \<Rightarrow> bytes" where
  "ip_bytes (V4 a) = le_bytes 4 a"
| "ip_bytes (V6 a) = be_bytes 16 a"
| "ip_bytes (Id i) = le_bytes 4 i"
| "ip_bytes Unspec = []"

definition seeded_hash :: "u32 \<Rightarrow> ClientIp \<Rightarrow> u32" where
  "seeded_hash sd ip = foldl (\<lambda>hash b. 71 * hash + ucast b) sd (ip_bytes ip) + sd"

definition ip_to_hash_clg :: "ClientLog \<Rightarrow> ClientIp \<Rightarrow> (u32 \<times> ClientLog) run" where
  "ip_to_hash_clg clg ip =
     (if ip = Unspec then ret (0, clg)
      else do { clg \<leftarrow> draw_seed clg; ret (seeded_hash (hash_seed clg) ip, clg) })"

section \<open>Comparisons and timestamps\<close>

definition compare_ts :: "u32 \<Rightarrow> u32 \<Rightarrow> int" where
  "compare_ts x y =
     (if x = y then 0 else if y = INVALID_TS then 1 else if 0 < sint (x - y) then 1 else -1)"

definition sum_hits :: "Record \<Rightarrow> u32" where
  "sum_hits r = fold (\<lambda>s acc. acc + hits r s) services 0"

definition compare_total_hits :: "Record \<Rightarrow> Record \<Rightarrow> int" where
  "compare_total_hits x y = (if sum_hits y < sum_hits x then 1 else -1)"

definition get_ts_from_timespec :: "ClientLog \<Rightarrow> Timespec \<Rightarrow> u32" where
  "get_ts_from_timespec clg ts =
     (let sec = (word_of_int (tv_sec ts) :: u32);
          nsec = (word_of_int (tv_nsec ts) :: u32) + ts_offset clg;
          (sec, nsec) = (if 1000000000 \<le> nsec then (sec + 1, nsec - 1000000000) else (sec, nsec))
      in push_bit 4 sec OR drop_bit 28 (140740 * drop_bit 15 nsec))"

fun first_diff :: "bytes \<Rightarrow> bytes \<Rightarrow> int" where
  "first_diff (x # xs) (y # ys) = (let d = uint x - uint y in if d \<noteq> 0 then d else first_diff xs ys)"
| "first_diff _ _ = 0"

definition compare_ips :: "ClientIp \<Rightarrow> ClientIp \<Rightarrow> int" where
  "compare_ips a b =
     (if family a \<noteq> family b then family a - family b
      else case (a, b) of
        (V4 x, V4 y) \<Rightarrow> sint (x - y)
      | (Id x, Id y) \<Rightarrow> sint (x - y)
      | (V6 x, V6 y) \<Rightarrow> first_diff (be_bytes 16 x) (be_bytes 16 y)
      | _ \<Rightarrow> 0)"

section \<open>Rate limit parameters\<close>

function bucket_shift :: "int \<Rightarrow> int \<Rightarrow> int \<Rightarrow> int" where
  "bucket_shift interval bst t =
     (if t < interval + TS_FRAC then
        if bst * 2 ^ nat (TS_FRAC + interval - t) < 2 ^ 16 then t else bucket_shift interval bst (t + 1)
      else t)"
  by pat_completeness auto
termination
  by (relation "measure (\<lambda>(i, b, t). nat (i + TS_FRAC - t))") auto

declare bucket_shift.simps [simp del]

definition set_bucket_params :: "int \<Rightarrow> int \<Rightarrow> (nat \<times> nat \<times> int) run" where
  "set_bucket_params interval bst =
     (let interval = clamp_i32 MIN_LIMIT_INTERVAL interval MAX_LIMIT_INTERVAL;
          bst = clamp_i32 MIN_LIMIT_BURST bst MAX_LIMIT_BURST;
          (token_shift, bst) =
            (if - TS_FRAC \<le> interval then (bucket_shift interval bst 0, bst)
             else let t = interval + TS_FRAC in (t, max bst (2 ^ nat (- t))));
          tokens_per_packet = 2 ^ nat (TS_FRAC + interval - token_shift)
      in do {
        max_tok \<leftarrow> u32_mul tokens_per_packet (nat bst);
        ret (max_tok mod 2 ^ 16, tokens_per_packet mod 2 ^ 16, token_shift)
      })"

fun config_limit :: "ClientLogConfig \<Rightarrow> Service \<Rightarrow> RateLimit option" where
  "config_limit cfg Ntp = ntp_ratelimit cfg"
| "config_limit cfg Ntske = nts_ratelimit cfg"
| "config_limit cfg Cmdmon = cmd_ratelimit cfg"

text \<open>One turn of the loop of \<open>new\<close> over the services.\<close>

definition init_service :: "ClientLogConfig \<Rightarrow> Service \<Rightarrow> ClientLog \<Rightarrow> ClientLog run" where
  "init_service cfg s clg = (case config_limit cfg s of
       None \<Rightarrow> ret clg
     | Some rl \<Rightarrow> do {
         (mt, tph, sh) \<leftarrow> set_bucket_params (rl_interval rl) (burst rl);
         ret (clg\<lparr>max_tokens := (max_tokens clg)(s := mt), tokens_per_hit := (tokens_per_hit clg)(s := tph),
              token_shift := (token_shift clg)(s := sh),
              leak_rate := (leak_rate clg)(s := clamp_i32 MIN_LEAK_RATE (rl_leak_rate rl) MAX_LEAK_RATE),
              limit_interval := (limit_interval clg)(s := clamp_i32 MIN_LIMIT_INTERVAL (rl_interval rl) MAX_LIMIT_INTERVAL)\<rparr>)
       })"

section \<open>The hash table\<close>

datatype Scan = Found nat | Empty nat | Full "nat option"

definition latest_hit :: "Record \<Rightarrow> u32" where
  "latest_hit r = foldl (\<lambda>lh s. if s = Ntp \<or> compare_ts lh (last_hit r s) < 0 then last_hit r s else lh) 0 services"

text \<open>The pass over the records of one slot, \<open>k\<close> of them left from index \<open>idx\<close>.\<close>

fun scan :: "Record list \<Rightarrow> ClientIp \<Rightarrow> nat \<Rightarrow> nat \<Rightarrow> nat option \<Rightarrow> u32 \<Rightarrow> Scan run" where
  "scan recs ip idx 0 oldest oldest_hit = ret (Full oldest)"
| "scan recs ip idx (Suc k) oldest oldest_hit = do {
     r \<leftarrow> index recs idx;
     if compare_ips ip (ip_addr r) = 0 then ret (Found idx)
     else if ip_addr r = Unspec then ret (Empty idx)
     else do {
       let lh = latest_hit r;
       replace \<leftarrow> (case oldest of
           None \<Rightarrow> ret True
         | Some i \<Rightarrow> do {
             ro \<leftarrow> index recs i;
             ret (0 < compare_ts oldest_hit lh \<or> (oldest_hit = lh \<and> 0 < compare_total_hits ro r))
           });
       if replace then scan recs ip (Suc idx) k (Some idx) lh
       else scan recs ip (Suc idx) k oldest oldest_hit
     }
   }"

definition fresh_record :: "ClientLog \<Rightarrow> ClientIp \<Rightarrow> Record" where
  "fresh_record clg ip = \<lparr>ip_addr = ip, last_hit = (\<lambda>_. INVALID_TS), hits = (\<lambda>_. 0), drops = (\<lambda>_. 0),
     tokens = max_tokens clg, rate = (\<lambda>_. INVALID_RATE), ntp_timeout_rate = INVALID_RATE, drop_flags = 0\<rparr>"

text \<open>The assignment \<open>self.records[idx] = r\<close>.\<close>

definition set_record :: "ClientLog \<Rightarrow> nat \<Rightarrow> Record \<Rightarrow> ClientLog run" where
  "set_record clg idx r =
     (if idx < length (records clg) then ret (clg\<lparr>records := (records clg)[idx := r]\<rparr>) else panic)"

type_synonym getter = "ClientLog \<Rightarrow> ClientIp \<Rightarrow> (ClientLog \<times> nat option) run"

text \<open>The loop of \<open>expand_hashtable\<close> over the old records; \<open>get\<close> is \<open>get_record_clg\<close>.\<close>

fun reinsert_clg :: "getter \<Rightarrow> Record list \<Rightarrow> ClientLog \<Rightarrow> ClientLog run" where
  "reinsert_clg get [] clg = ret clg"
| "reinsert_clg get (old # olds) clg =
     (if ip_addr old = Unspec then reinsert_clg get olds clg
      else do {
        (clg, r) \<leftarrow> get clg (ip_addr old);
        case r of
          None \<Rightarrow> panic
        | Some idx \<Rightarrow> do { clg \<leftarrow> set_record clg idx old; reinsert_clg get olds clg }
      })"

definition expand_hashtable :: "getter \<Rightarrow> ClientLog \<Rightarrow> (bool \<times> ClientLog) run" where
  "expand_hashtable get clg = do {
     double \<leftarrow> u32_mul 2 (slots clg);
     if records clg \<noteq> [] \<and> max_slots clg < double then ret (False, clg)
     else do {
       let old = records clg;
       let n = max MIN_SLOTS double;
       if \<not> (n \<le> max_slots clg \<or> old = []) then panic
       else do {
         len \<leftarrow> u32_mul n SLOT_SIZE;
         let clg = clg\<lparr>slots := n, records := replicate len empty_record\<rparr>;
         if old = [] then ret (True, clg)
         else do { clg \<leftarrow> reinsert_clg get old clg; ret (True, clg) }
       }
     }
   }"

definition is_client :: "ClientIp \<Rightarrow> bool" where
  "is_client ip = (case ip of V4 _ \<Rightarrow> True | V6 _ \<Rightarrow> True | _ \<Rightarrow> False)"

primrec get_record_fuel :: "nat \<Rightarrow> getter" where
  "get_record_fuel 0 = (\<lambda>clg ip. None)"
| "get_record_fuel (Suc n) = (\<lambda>clg ip.
     if \<not> active clg \<or> \<not> is_client ip then ret (clg, None)
     else do {
       (h, clg) \<leftarrow> ip_to_hash_clg clg ip;
       first \<leftarrow> (if slots clg = 0 then panic else u32_mul (unat h mod slots clg) SLOT_SIZE);
       found \<leftarrow> scan (records clg) ip first SLOT_SIZE None 0;
       case found of
         Found idx \<Rightarrow> ret (clg, Some idx)
       | Empty idx \<Rightarrow> do { clg \<leftarrow> set_record clg idx (fresh_record clg ip); ret (clg, Some idx) }
       | Full oldest \<Rightarrow> do {
           (grew, clg) \<leftarrow> expand_hashtable (get_record_fuel n) clg;
           if grew then get_record_fuel n clg ip
           else case oldest of
             None \<Rightarrow> panic
           | Some idx \<Rightarrow> do {
               d \<leftarrow> u64_add (total_record_drops clg) 1;
               clg \<leftarrow> set_record (clg\<lparr>total_record_drops := d\<rparr>) idx (fresh_record clg ip);
               ret (clg, Some idx)
             }
         }
     })"

definition GET_FUEL :: nat where "GET_FUEL = 32"

definition get_record_clg :: getter where
  "get_record_clg = get_record_fuel GET_FUEL"

section \<open>Initialisation\<close>

function slots2_loop :: "nat \<Rightarrow> nat \<Rightarrow> nat" where
  "slots2_loop mx s = (if 2 ^ (s + 1) \<le> mx then slots2_loop mx (s + 1) else s)"
  by pat_completeness auto
termination
proof (relation "measure (\<lambda>(mx, s). mx - s)")
  fix mx s :: nat
  assume "2 ^ (s + 1) \<le> mx"
  then have "s + 1 < mx"
    using less_exp [of "s + 1"] by linarith
  then show "((mx, s + 1), (mx, s)) \<in> measure (\<lambda>(mx, s). mx - s)"
    by simp
qed simp

declare slots2_loop.simps [simp del]

definition blank_log :: "(nat \<Rightarrow> u8) \<Rightarrow> ClientLog" where
  "blank_log r = \<lparr>records = [], slots = 0, max_slots = 0, ts_offset = 0, hash_seed = 0, max_tokens = (\<lambda>_. 0),
     tokens_per_hit = (\<lambda>_. 0), token_shift = (\<lambda>_. 0), leak_rate = (\<lambda>_. 0), limit_interval = (\<lambda>_. MIN_LIMIT_INTERVAL),
     active = False, ntp_ts_map = empty_map 0, total_hits = (\<lambda>_. 0), total_drops = (\<lambda>_. 0), total_ntp_auth_hits = 0,
     total_ntp_interleaved_hits = 0, total_record_drops = 0, total_ntp_rx_timestamps = (\<lambda>_. 0),
     total_ntp_tx_timestamps = (\<lambda>_. 0), leak_rnd = 0, leak_bits_left = 0, rng = r, rng_pos = 0\<rparr>"

definition new_log :: "ClientLogConfig \<Rightarrow> (nat \<Rightarrow> u8) \<Rightarrow> ClientLog run" where
  "new_log cfg r = do {
     clg \<leftarrow> init_service cfg Ntp (blank_log r);
     clg \<leftarrow> init_service cfg Ntske clg;
     clg \<leftarrow> init_service cfg Cmdmon clg;
     let clg = clg\<lparr>active := \<not> no_client_log cfg\<rparr>;
     if \<not> active clg then
       if list_all (\<lambda>s. leak_rate clg s = 0) services then ret clg else panic
     else do {
       let denom = (RECORD_SIZE + NTPTS_SIZE) * SLOT_SIZE * 3 div 2;
       let mx = min (max (client_log_limit cfg div denom) MIN_SLOTS) MAX_SLOTS;
       let clg = clg\<lparr>max_slots := mx\<rparr>;
       let slots2 = slots2_loop mx 0;
       (_, clg) \<leftarrow> expand_hashtable get_record_clg (clg\<lparr>slots := 0, records := []\<rparr>);
       let (off, clg) = random_u32 clg;
       let clg = clg\<lparr>ts_offset := off mod 62500000\<rparr>;
       ret (clg\<lparr>ntp_ts_map := (ntp_ts_map clg)\<lparr>max_size := 2 ^ (slots2 + 4)\<rparr>\<rparr>)
     }
   }"

section \<open>Hits, rates and tokens\<close>

function log2_interval :: "u32 \<Rightarrow> int \<Rightarrow> int" where
  "log2_interval iv i2 =
     (if i2 < - MIN_RATE then if iv \<le> 1 then i2 else log2_interval (drop_bit 1 iv) (i2 + RATE_SCALE) else i2)"
  by pat_completeness auto
termination
  by (relation "measure (\<lambda>(iv, i2). nat (- MIN_RATE - i2))") (auto simp: RATE_SCALE_def)

declare log2_interval.simps [simp del]

definition update_rate :: "int \<Rightarrow> int \<Rightarrow> int" where
  "update_rate r interval2 =
     (if r = INVALID_RATE then i32_as_i8 (- interval2)
      else if r < - interval2 then i32_as_i8 (r + 1)
      else if - interval2 < r then
        if RATE_SCALE * 5 sdiv 2 - interval2 < r then i32_as_i8 (RATE_SCALE * 5 sdiv 2 - interval2)
        else i32_as_i8 ((r - interval2 - 1) sdiv 2)
      else r)"

definition refill :: "int \<Rightarrow> nat \<Rightarrow> u32 \<Rightarrow> u32 \<Rightarrow> u32" where
  "refill tshift mtokens now_ts prev_hit =
     (if 0 \<le> tshift then drop_bit (nat tshift) now_ts - drop_bit (nat tshift) prev_hit
      else if mtokens < unat (now_ts - prev_hit) then word_of_nat mtokens
      else push_bit (nat (- tshift)) (now_ts - prev_hit))"

definition scaled_interval :: "u32 \<Rightarrow> int run" where
  "scaled_interval interval =
     (if interval \<noteq> 0 then do {
        iv \<leftarrow> u32_add (unat interval) (unat (drop_bit 1 interval));
        ret (log2_interval (word_of_nat iv) (- RATE_SCALE * TS_FRAC))
      } else ret (- RATE_SCALE * (TS_FRAC + 1)))"

text \<open>For NTP, the normal or the timeout rate, depending on whether the previous request was dropped.\<close>

definition apply_rate :: "Record \<Rightarrow> Service \<Rightarrow> int \<Rightarrow> Record" where
  "apply_rate r s interval2 =
     (let use_timeout = (s = Ntp \<and> drop_flags r AND service_bit s \<noteq> 0);
          new_rate = update_rate (if use_timeout then ntp_timeout_rate r else rate r s) interval2
      in if use_timeout then r\<lparr>ntp_timeout_rate := new_rate\<rparr> else r\<lparr>rate := (rate r)(s := new_rate)\<rparr>)"

definition update_record :: "ClientLog \<Rightarrow> Service \<Rightarrow> nat \<Rightarrow> Timespec \<Rightarrow> ClientLog run" where
  "update_record clg s idx now = do {
     let now_ts = get_ts_from_timespec clg now;
     r \<leftarrow> index (records clg) idx;
     let prev_hit = last_hit r s;
     let r = r\<lparr>last_hit := (last_hit r)(s := now_ts), hits := (hits r)(s := hits r s + 1)\<rparr>;
     let interval = now_ts - prev_hit;
     if prev_hit = INVALID_TS \<or> sint interval < 0 then set_record clg idx r
     else do {
       sum \<leftarrow> u32_add (tokens r s) (unat (refill (token_shift clg s) (max_tokens clg s) now_ts prev_hit));
       let r = r\<lparr>tokens := (tokens r)(s := min sum (max_tokens clg s) mod 2 ^ 16)\<rparr>;
       interval2 \<leftarrow> scaled_interval interval;
       set_record clg idx (apply_rate r s interval2)
     }
   }"

definition get_client_index :: "ClientLog \<Rightarrow> ClientIp \<Rightarrow> (ClientLog \<times> int) run" where
  "get_client_index clg client = do {
     (clg, r) \<leftarrow> get_record_clg clg client;
     ret (clg, case r of None \<Rightarrow> -1 | Some idx \<Rightarrow> as_i32 idx)
   }"

definition log_service_access :: "ClientLog \<Rightarrow> Service \<Rightarrow> ClientIp \<Rightarrow> Timespec \<Rightarrow> (ClientLog \<times> int) run" where
  "log_service_access clg s client now = do {
     n \<leftarrow> u64_add (total_hits clg s) 1;
     (clg, r) \<leftarrow> get_record_clg (clg\<lparr>total_hits := (total_hits clg)(s := n)\<rparr>) client;
     case r of
       None \<Rightarrow> ret (clg, -1)
     | Some idx \<Rightarrow> do { clg \<leftarrow> update_record clg s idx now; ret (clg, as_i32 idx) }
   }"

definition limit_response_random :: "ClientLog \<Rightarrow> int \<Rightarrow> ClientLog \<times> int" where
  "limit_response_random clg lr =
     (let clg = (if leak_bits_left clg < lr
            then let (v, clg) = random_u32 clg in clg\<lparr>leak_rnd := v, leak_bits_left := 8 * 4\<rparr> else clg);
          r = (if leak_rnd clg mod 2 ^ nat lr \<noteq> 0 then 1 else 0)
      in (clg\<lparr>leak_rnd := drop_bit (nat lr) (leak_rnd clg), leak_bits_left := leak_bits_left clg - lr\<rparr>, r))"

definition limit_service_rate :: "ClientLog \<Rightarrow> Service \<Rightarrow> nat \<Rightarrow> (ClientLog \<times> int) run" where
  "limit_service_rate clg s idx =
     (if tokens_per_hit clg s = 0 then ret (clg, 0)
      else do {
        r \<leftarrow> index (records clg) idx;
        let r = r\<lparr>drop_flags := drop_flags r AND NOT (service_bit s)\<rparr>;
        if tokens_per_hit clg s \<le> tokens r s then do {
          clg \<leftarrow> set_record clg idx (r\<lparr>tokens := (tokens r)(s := tokens r s - tokens_per_hit clg s)\<rparr>);
          ret (clg, 0)
        } else do {
          let (clg, drp) = limit_response_random clg (leak_rate clg s);
          let drp = (if s = Ntp \<and> ntp_timeout_rate r \<noteq> INVALID_RATE \<and> rate r s + RATE_SCALE < ntp_timeout_rate r
                     then if drp \<noteq> 0 then 0 else 1 else drp);
          if drp = 0 then do {
            clg \<leftarrow> set_record clg idx (r\<lparr>tokens := (tokens r)(s := 0)\<rparr>);
            ret (clg, 0)
          } else do {
            clg \<leftarrow> set_record clg idx (r\<lparr>drop_flags := drop_flags r OR service_bit s, drops := (drops r)(s := drops r s + 1)\<rparr>);
            n \<leftarrow> u64_add (total_drops clg s) 1;
            ret (clg\<lparr>total_drops := (total_drops clg)(s := n)\<rparr>, 1)
          }
        }
      })"

definition update_ntp_stats :: "ClientLog \<Rightarrow> bool \<Rightarrow> TimestampSource \<Rightarrow> TimestampSource \<Rightarrow> ClientLog run" where
  "update_ntp_stats clg auth rx_src tx_src = do {
     a \<leftarrow> (if auth then u64_add (total_ntp_auth_hits clg) 1 else ret (total_ntp_auth_hits clg));
     n \<leftarrow> u64_add (total_ntp_rx_timestamps clg rx_src) 1;
     m \<leftarrow> u64_add (total_ntp_tx_timestamps clg tx_src) 1;
     ret (clg\<lparr>total_ntp_auth_hits := a,
              total_ntp_rx_timestamps := (total_ntp_rx_timestamps clg)(rx_src := n),
              total_ntp_tx_timestamps := (total_ntp_tx_timestamps clg)(tx_src := m)\<rparr>)
   }"

definition get_ntp_min_poll :: "ClientLog \<Rightarrow> int" where
  "get_ntp_min_poll clg = limit_interval clg Ntp"

section \<open>Reports\<close>

record ClientAccessReport =
  car_ip_addr :: ClientIp
  ntp_hits :: u32
  nke_hits :: u32
  cmd_hits :: u32
  ntp_drops :: u16
  nke_drops :: u16
  cmd_drops :: u16
  ntp_interval :: int
  nke_interval :: int
  cmd_interval :: int
  ntp_timeout_interval :: int
  last_ntp_hit_ago :: u32
  last_nke_hit_ago :: u32
  last_cmd_hit_ago :: u32

definition get_number_of_indices :: "ClientLog \<Rightarrow> int" where
  "get_number_of_indices clg = (if \<not> active clg then -1 else as_i32 (length (records clg)))"

definition get_interval :: "int \<Rightarrow> int" where
  "get_interval r =
     (if r = INVALID_RATE then 127
      else let r = r + (if 0 < r then RATE_SCALE sdiv 2 else (- RATE_SCALE) sdiv 2) in i32_as_i8 (r sdiv (- RATE_SCALE)))"

definition get_last_ago :: "u32 \<Rightarrow> u32 \<Rightarrow> u32" where
  "get_last_ago x y = (if y = INVALID_TS \<or> sint (x - y) < 0 then 0xffffffff else drop_bit 4 (x - y))"

definition client_report :: "Record \<Rightarrow> u32 \<Rightarrow> ClientAccessReport" where
  "client_report r now_ts = \<lparr>car_ip_addr = ip_addr r,
     ntp_hits = hits r Ntp, nke_hits = hits r Ntske, cmd_hits = hits r Cmdmon,
     ntp_drops = drops r Ntp, nke_drops = drops r Ntske, cmd_drops = drops r Cmdmon,
     ntp_interval = get_interval (rate r Ntp), nke_interval = get_interval (rate r Ntske),
     cmd_interval = get_interval (rate r Cmdmon), ntp_timeout_interval = get_interval (ntp_timeout_rate r),
     last_ntp_hit_ago = get_last_ago now_ts (last_hit r Ntp), last_nke_hit_ago = get_last_ago now_ts (last_hit r Ntske),
     last_cmd_hit_ago = get_last_ago now_ts (last_hit r Cmdmon)\<rparr>"

definition get_client_access_report_by_index ::
    "ClientLog \<Rightarrow> int \<Rightarrow> bool \<Rightarrow> u32 \<Rightarrow> Timespec \<Rightarrow> (ClientLog \<times> ClientAccessReport option) run" where
  "get_client_access_report_by_index clg i reset min_hits now =
     (if \<not> active clg \<or> i < 0 \<or> as_i32 (length (records clg)) \<le> i then ret (clg, None)
      else do {
        r \<leftarrow> index (records clg) (nat i);
        if ip_addr r = Unspec then ret (clg, None)
        else do {
          let report = (if min_hits = 0 \<or> list_ex (\<lambda>s. min_hits \<le> hits r s) services
            then Some (client_report r (get_ts_from_timespec clg now)) else None);
          clg \<leftarrow> (if reset then set_record clg (nat i) (r\<lparr>hits := (\<lambda>_. 0), drops := (\<lambda>_. 0)\<rparr>) else ret clg);
          ret (clg, report)
        }
      })"

record ServerStatsReport =
  ssr_ntp_hits :: nat
  ssr_nke_hits :: nat
  ssr_cmd_hits :: nat
  ssr_ntp_drops :: nat
  ssr_nke_drops :: nat
  ssr_cmd_drops :: nat
  log_drops :: nat
  ntp_auth_hits :: nat
  ntp_interleaved_hits :: nat
  ntp_timestamps :: nat
  ntp_span_seconds :: u64
  ntp_daemon_rx_timestamps :: nat
  ntp_daemon_tx_timestamps :: nat
  ntp_kernel_rx_timestamps :: nat
  ntp_kernel_tx_timestamps :: nat
  ntp_hw_rx_timestamps :: nat
  ntp_hw_tx_timestamps :: nat

definition get_server_stats_report :: "ClientLog \<Rightarrow> ServerStatsReport run" where
  "get_server_stats_report clg = (let m = ntp_ts_map clg in do {
     span \<leftarrow> (if 1 < ring_size m then (case timestamps m of
          None \<Rightarrow> ret 0
        | Some ts \<Rightarrow> do { l \<leftarrow> ring_get m ts (ring_size m - 1); f \<leftarrow> ring_get m ts 0; ret (drop_bit 32 (rx_ts l - rx_ts f)) })
       else ret 0);
     ret \<lparr>ssr_ntp_hits = total_hits clg Ntp, ssr_nke_hits = total_hits clg Ntske, ssr_cmd_hits = total_hits clg Cmdmon,
       ssr_ntp_drops = total_drops clg Ntp, ssr_nke_drops = total_drops clg Ntske, ssr_cmd_drops = total_drops clg Cmdmon,
       log_drops = total_record_drops clg, ntp_auth_hits = total_ntp_auth_hits clg,
       ntp_interleaved_hits = total_ntp_interleaved_hits clg, ntp_timestamps = ring_size m, ntp_span_seconds = span,
       ntp_daemon_rx_timestamps = total_ntp_rx_timestamps clg Daemon, ntp_daemon_tx_timestamps = total_ntp_tx_timestamps clg Daemon,
       ntp_kernel_rx_timestamps = total_ntp_rx_timestamps clg Kernel, ntp_kernel_tx_timestamps = total_ntp_tx_timestamps clg Kernel,
       ntp_hw_rx_timestamps = total_ntp_rx_timestamps clg Hardware, ntp_hw_tx_timestamps = total_ntp_tx_timestamps clg Hardware\<rparr>
   })"

section \<open>Addresses and the seed\<close>

lemma first_diff_0: "length xs = length ys \<Longrightarrow> first_diff xs ys = 0 \<longleftrightarrow> xs = ys"
  by (induction xs ys rule: first_diff.induct) (auto simp: Let_def word_uint_eq_iff)

lemma len128: "LENGTH(128) = 8 * 16"
  by simp

lemma compare_ips_0: "compare_ips a b = 0 \<longleftrightarrow> a = b"
proof -
  have "be_bytes 16 x = be_bytes 16 y \<longleftrightarrow> x = y" for x y :: u128
    by (metis be_word_be_bytes len128)
  then show ?thesis
    by (cases a; cases b) (auto simp: compare_ips_def first_diff_0 signed_eq_0_iff)
qed

text \<open>The byte source sooner or later gives four bytes that are not all zero.\<close>

definition rng_live :: "(nat \<Rightarrow> u8) \<Rightarrow> bool" where
  "rng_live r \<longleftrightarrow> (\<forall>p. \<exists>k. word_at r (p + 4 * k) \<noteq> 0)"

lemma draw_seed_live:
  assumes "hash_seed c \<noteq> 0 \<or> (\<exists>k. word_at (rng c) (rng_pos c + 4 * k) \<noteq> 0)"
  shows "\<exists>sd p. sd \<noteq> 0 \<and> draw_seed c = Some (c\<lparr>hash_seed := sd, rng_pos := p\<rparr>)"
proof (cases "hash_seed c = 0")
  case False
  then show ?thesis
    by (intro exI [of _ "hash_seed c"] exI [of _ "rng_pos c"]) (simp add: draw_seed.simps)
next
  case True
  then obtain k where "word_at (rng c) (rng_pos c + 4 * k) \<noteq> 0"
    using assms by blast
  with True show ?thesis
  proof (induction k arbitrary: c)
    case 0
    then show ?case
      by (intro exI [of _ "word_at (rng c) (rng_pos c)"] exI [of _ "rng_pos c + 4"])
         (simp add: draw_seed.simps [of c] draw_seed.simps [of "c\<lparr>rng_pos := _, hash_seed := _\<rparr>"] random_u32_def)
  next
    case (Suc k)
    let ?v = "word_at (rng c) (rng_pos c)"
    let ?c = "c\<lparr>rng_pos := rng_pos c + 4, hash_seed := ?v\<rparr>"
    have step: "draw_seed c = draw_seed ?c"
      using Suc.prems(1) by (subst draw_seed.simps) (simp add: random_u32_def)
    show ?case
    proof (cases "?v = 0")
      case True
      then have "\<exists>sd p. sd \<noteq> 0 \<and> draw_seed ?c = Some (?c\<lparr>hash_seed := sd, rng_pos := p\<rparr>)"
        using Suc.IH [of ?c] Suc.prems(2) by (simp add: algebra_simps)
      then show ?thesis
        by (simp add: step)
    next
      case False
      then have "draw_seed ?c = Some ?c"
        by (subst draw_seed.simps) simp
      then show ?thesis
        using False by (intro exI [of _ ?v] exI [of _ "rng_pos c + 4"]) (simp add: step)
    qed
  qed
qed

lemma draw_seed_Some:
  assumes "hash_seed clg \<noteq> 0 \<or> rng_live (rng clg)"
  shows "\<exists>sd p. sd \<noteq> 0 \<and> draw_seed clg = Some (clg\<lparr>hash_seed := sd, rng_pos := p\<rparr>) \<and>
    (hash_seed clg \<noteq> 0 \<longrightarrow> sd = hash_seed clg \<and> p = rng_pos clg)"
proof (cases "hash_seed clg = 0")
  case False
  then show ?thesis
    by (intro exI [of _ "hash_seed clg"] exI [of _ "rng_pos clg"]) (simp add: draw_seed.simps)
next
  case True
  then show ?thesis
    using draw_seed_live [of clg] assms unfolding rng_live_def by blast
qed

section \<open>The table invariant\<close>

definition live :: "Record \<Rightarrow> bool" where
  "live r \<longleftrightarrow> ip_addr r \<noteq> Unspec"

definition clients :: "Record list \<Rightarrow> Record set" where
  "clients recs = {r \<in> set recs. live r}"

definition slot_of :: "u32 \<Rightarrow> nat \<Rightarrow> ClientIp \<Rightarrow> nat" where
  "slot_of sd n ip = unat (seeded_hash sd ip) mod n"

text \<open>
  Sixteen records to a slot; a live record is in the slot of its address, no address occurs twice, and
  inside a slot the live records come first.
\<close>

definition table_ok :: "u32 \<Rightarrow> nat \<Rightarrow> Record list \<Rightarrow> bool" where
  "table_ok sd n recs \<longleftrightarrow> 0 < n \<and> length recs = SLOT_SIZE * n \<and>
     (\<forall>i<length recs. live (recs ! i) \<longrightarrow> is_client (ip_addr (recs ! i)) \<and> i div SLOT_SIZE = slot_of sd n (ip_addr (recs ! i))) \<and>
     (\<forall>i<length recs. \<forall>j<length recs. live (recs ! i) \<and> ip_addr (recs ! i) = ip_addr (recs ! j) \<longrightarrow> i = j) \<and>
     (\<forall>i j. i < j \<and> j < length recs \<and> i div SLOT_SIZE = j div SLOT_SIZE \<and> live (recs ! j) \<longrightarrow> live (recs ! i))"

definition wf_log :: "ClientLog \<Rightarrow> bool" where
  "wf_log clg \<longleftrightarrow> active clg \<and> slots clg \<le> max_slots clg \<and> max_slots clg \<le> MAX_SLOTS \<and>
     table_ok (hash_seed clg) (slots clg) (records clg) \<and>
     (hash_seed clg = 0 \<longrightarrow> clients (records clg) = {} \<and> rng_live (rng clg))"

lemma table_okD:
  assumes "table_ok sd n recs"
  shows "0 < n" and "length recs = SLOT_SIZE * n"
    and "\<And>i. i < length recs \<Longrightarrow> live (recs ! i) \<Longrightarrow> is_client (ip_addr (recs ! i)) \<and> i div SLOT_SIZE = slot_of sd n (ip_addr (recs ! i))"
    and "\<And>i j. i < length recs \<Longrightarrow> j < length recs \<Longrightarrow> live (recs ! i) \<Longrightarrow> ip_addr (recs ! i) = ip_addr (recs ! j) \<Longrightarrow> i = j"
    and "\<And>i j. i < j \<Longrightarrow> j < length recs \<Longrightarrow> i div SLOT_SIZE = j div SLOT_SIZE \<Longrightarrow> live (recs ! j) \<Longrightarrow> live (recs ! i)"
  using assms unfolding table_ok_def by blast+

lemma is_client_live: "is_client (ip_addr r) \<Longrightarrow> live r"
  by (auto simp: is_client_def live_def)

lemma live_empty_record [simp]: "\<not> live empty_record"
  by (simp add: live_def empty_record_def)

lemma clients_iff: "r \<in> clients recs \<longleftrightarrow> (\<exists>i<length recs. r = recs ! i \<and> live r)"
  by (auto simp: clients_def in_set_conv_nth)

lemma client_in: "i < length recs \<Longrightarrow> is_client (ip_addr (recs ! i)) \<Longrightarrow> recs ! i \<in> clients recs"
  using is_client_live by (auto simp: clients_def)

lemma table_ok_empty:
  "0 < n \<Longrightarrow> table_ok sd n (replicate (SLOT_SIZE * n) empty_record)"
  by (simp add: table_ok_def)

lemma table_ok_reseed: "table_ok sd n recs \<Longrightarrow> clients recs = {} \<Longrightarrow> table_ok sd' n recs"
  by (auto simp: table_ok_def clients_def)

lemma slot_of_less: "0 < n \<Longrightarrow> slot_of sd n ip < n"
  by (simp add: slot_of_def)

text \<open>What the pass over a slot returns.\<close>

definition scan_ok :: "Record list \<Rightarrow> ClientIp \<Rightarrow> nat \<Rightarrow> nat \<Rightarrow> Scan \<Rightarrow> bool" where
  "scan_ok recs ip a b r = (case r of
       Found i \<Rightarrow> a \<le> i \<and> i < b \<and> ip_addr (recs ! i) = ip
     | Empty i \<Rightarrow> a \<le> i \<and> i < b \<and> \<not> live (recs ! i) \<and> (\<forall>j. a \<le> j \<and> j < i \<longrightarrow> live (recs ! j) \<and> ip_addr (recs ! j) \<noteq> ip)
     | Full old \<Rightarrow> (\<exists>i. old = Some i \<and> a \<le> i \<and> i < b) \<and> (\<forall>j. a \<le> j \<and> j < b \<longrightarrow> live (recs ! j) \<and> ip_addr (recs ! j) \<noteq> ip))"

lemma scan_Some:
  assumes "idx + k \<le> length recs" and "a \<le> idx" and "b = idx + k"
    and "\<forall>j. a \<le> j \<and> j < idx \<longrightarrow> live (recs ! j) \<and> ip_addr (recs ! j) \<noteq> ip"
    and "if idx = a then 0 < k \<and> old = None else \<exists>i. old = Some i \<and> a \<le> i \<and> i < idx"
  shows "\<exists>r. scan recs ip idx k old oh = Some r \<and> scan_ok recs ip a b r"
  using assms
proof (induction k arbitrary: idx old oh)
  case 0
  then show ?case by (auto simp: scan_ok_def split: if_splits)
next
  case (Suc k)
  let ?r = "recs ! idx"
  have r: "index recs idx = Some ?r"
    using Suc.prems(1) by (simp add: index_Some)
  have old: "\<exists>v. index recs i = Some v" if "old = Some i" for i
    using Suc.prems(1,5) that by (auto simp: index_Some split: if_splits)
  consider "ip_addr ?r = ip" | "ip_addr ?r \<noteq> ip" "ip_addr ?r = Unspec" | "ip_addr ?r \<noteq> ip" "live ?r"
    by (auto simp: live_def)
  then show ?case
  proof cases
    case 3
    have next_seen: "\<forall>j. a \<le> j \<and> j < Suc idx \<longrightarrow> live (recs ! j) \<and> ip_addr (recs ! j) \<noteq> ip"
      using Suc.prems(4) 3 by (auto simp: less_Suc_eq)
    have go: "\<exists>r. scan recs ip (Suc idx) k old' oh' = Some r \<and> scan_ok recs ip a b r"
      if "\<exists>i. old' = Some i \<and> a \<le> i \<and> i < Suc idx" for old' oh'
      using Suc.IH [of "Suc idx" old' oh'] Suc.prems(1-3) next_seen that by simp
    have old': "\<exists>i. old = Some i \<and> a \<le> i \<and> i < Suc idx" if "old \<noteq> None"
      using Suc.prems(5) that by (auto split: if_splits)
    have ne: "compare_ips ip (ip_addr ?r) \<noteq> 0" "ip_addr ?r \<noteq> Unspec"
      using 3 by (auto simp: compare_ips_0 live_def)
    have "\<exists>rep. scan recs ip idx (Suc k) old oh = (if rep then scan recs ip (Suc idx) k (Some idx) (latest_hit ?r)
        else scan recs ip (Suc idx) k old oh) \<and> (old = None \<longrightarrow> rep)"
    proof (cases old)
      case None
      then show ?thesis
        using ne r by (intro exI [of _ True]) simp
    next
      case (Some i)
      then obtain v where "index recs i = Some v"
        using old by blast
      then show ?thesis
        using ne r Some by (intro exI [of _ "0 < compare_ts oh (latest_hit ?r) \<or> (oh = latest_hit ?r \<and> 0 < compare_total_hits v ?r)"])
          (auto simp: Let_def)
    qed
    then obtain rep where "scan recs ip idx (Suc k) old oh = (if rep then scan recs ip (Suc idx) k (Some idx) (latest_hit ?r)
        else scan recs ip (Suc idx) k old oh)" "old = None \<longrightarrow> rep"
      by blast
    then show ?thesis
      using go [of "Some idx"] go [of old] old' Suc.prems(2) by (cases rep) auto
  qed (use Suc.prems r in \<open>auto simp: compare_ips_0 scan_ok_def live_def\<close>)
qed

text \<open>Writing one record.\<close>

lemma table_ok_set:
  assumes ok: "table_ok sd n recs" and idx: "idx < length recs" and cl: "is_client (ip_addr r)"
    and slot: "idx div SLOT_SIZE = slot_of sd n (ip_addr r)"
    and uniq: "\<And>j. j < length recs \<Longrightarrow> ip_addr (recs ! j) = ip_addr r \<Longrightarrow> j = idx"
    and pre: "live (recs ! idx) \<or> (\<forall>j<idx. j div SLOT_SIZE = idx div SLOT_SIZE \<longrightarrow> live (recs ! j))"
  shows "table_ok sd n (recs[idx := r])" and "clients (recs[idx := r]) = insert r (clients recs - {recs ! idx})"
proof -
  note D = table_okD [OF ok]
  have lr: "live r"
    using cl by (rule is_client_live)
  show "table_ok sd n (recs[idx := r])"
    unfolding table_ok_def length_list_update
  proof (intro conjI allI impI)
    fix i
    assume i: "i < length recs" "live (recs[idx := r] ! i)"
    show "is_client (ip_addr (recs[idx := r] ! i))" "i div SLOT_SIZE = slot_of sd n (ip_addr (recs[idx := r] ! i))"
      using i D(3) cl slot by (cases "i = idx"; simp)+
  next
    fix i j
    assume ij: "i < length recs" "j < length recs"
      "live (recs[idx := r] ! i) \<and> ip_addr (recs[idx := r] ! i) = ip_addr (recs[idx := r] ! j)"
    show "i = j"
    proof (cases "i = idx \<or> j = idx")
      case True
      have "j = idx" if "i = idx"
        using that ij idx uniq [OF ij(2)] by (cases "j = idx") simp_all
      moreover have "i = idx" if "j = idx"
        using that ij idx uniq [OF ij(1)] by (cases "i = idx") simp_all
      ultimately show ?thesis
        using True by blast
    next
      case False
      then show ?thesis
        using ij by (intro D(4)) simp_all
    qed
  next
    fix i j
    assume ij: "i < j \<and> j < length recs \<and> i div SLOT_SIZE = j div SLOT_SIZE \<and> live (recs[idx := r] ! j)"
    then have lt: "i < j" "j < length recs" "i div SLOT_SIZE = j div SLOT_SIZE"
      by simp_all
    show "live (recs[idx := r] ! i)"
    proof (cases "i = idx")
      case True
      then show ?thesis
        using idx lr by simp
    next
      case False
      have "live (recs ! i)"
      proof (cases "j = idx \<and> \<not> live (recs ! idx)")
        case True
        then show ?thesis
          using pre lt by blast
      next
        case 2: False
        then have "live (recs ! j)"
          using ij by (cases "j = idx") simp_all
        then show ?thesis
          by (rule D(5) [OF lt])
      qed
      then show ?thesis
        using False by simp
    qed
  qed (use D(1,2) in simp_all)
  have "recs ! j \<noteq> recs ! idx" if "j < length recs" "j \<noteq> idx" "live (recs ! j)" for j
    using D(4) [of j idx] that idx by auto
  then show "clients (recs[idx := r]) = insert r (clients recs - {recs ! idx})"
    using idx lr by (auto simp: clients_iff nth_list_update split: if_splits) blast
qed

lemma set_record_Some:
  "idx < length (records clg) \<Longrightarrow> set_record clg idx r = Some (clg\<lparr>records := (records clg)[idx := r]\<rparr>)"
  by (simp add: set_record_def)

lemma mod_slot_div:
  fixes b :: nat
  assumes "b * SLOT_SIZE \<le> i" and "i < b * SLOT_SIZE + SLOT_SIZE"
  shows "i div SLOT_SIZE = b"
  using assms by (simp add: SLOT_SIZE_def)

lemma ip_to_hash_Some:
  assumes "wf_log clg" and "is_client ip"
  shows "\<exists>clg'. ip_to_hash_clg clg ip = Some (seeded_hash (hash_seed clg') ip, clg') \<and> wf_log clg' \<and> hash_seed clg' \<noteq> 0 \<and>
    (\<exists>sd p. clg' = clg\<lparr>hash_seed := sd, rng_pos := p\<rparr>) \<and> (hash_seed clg \<noteq> 0 \<longrightarrow> clg' = clg)"
proof -
  have "hash_seed clg \<noteq> 0 \<or> rng_live (rng clg)"
    using assms(1) by (auto simp: wf_log_def)
  then obtain sd p where sd: "sd \<noteq> 0" "draw_seed clg = Some (clg\<lparr>hash_seed := sd, rng_pos := p\<rparr>)"
      "hash_seed clg \<noteq> 0 \<longrightarrow> sd = hash_seed clg \<and> p = rng_pos clg"
    using draw_seed_Some by blast
  have "table_ok sd (slots clg) (records clg)"
    using assms(1) sd(3) table_ok_reseed by (cases "hash_seed clg = 0") (auto simp: wf_log_def)
  then have "wf_log (clg\<lparr>hash_seed := sd, rng_pos := p\<rparr>)"
    using assms(1) sd(1) by (simp add: wf_log_def)
  moreover have "ip \<noteq> Unspec"
    using assms(2) by (auto simp: is_client_def)
  ultimately show ?thesis
    using sd by (intro exI [of _ "clg\<lparr>hash_seed := sd, rng_pos := p\<rparr>"]) (auto simp: ip_to_hash_clg_def)
qed

text \<open>The pass over the slot of an address, in a well-formed table.\<close>

lemma scan_slot:
  assumes ok: "table_ok sd n recs" and n: "n \<le> MAX_SLOTS" and cl: "is_client ip" and b: "b = slot_of sd n ip"
  shows "u32_mul b SLOT_SIZE = Some (b * SLOT_SIZE)" and "\<exists>r. scan recs ip (b * SLOT_SIZE) SLOT_SIZE None 0 = Some r \<and>
    scan_ok recs ip (b * SLOT_SIZE) (b * SLOT_SIZE + SLOT_SIZE) r" and "b * SLOT_SIZE + SLOT_SIZE \<le> length recs"
proof -
  have bn: "b < n"
    using slot_of_less table_okD(1) [OF ok] b by blast
  then show le: "b * SLOT_SIZE + SLOT_SIZE \<le> length recs"
    using table_okD(2) [OF ok] by (simp add: SLOT_SIZE_def)
  show "u32_mul b SLOT_SIZE = Some (b * SLOT_SIZE)"
    using bn n by (simp add: u32_mul_def SLOT_SIZE_def MAX_SLOTS_def)
  show "\<exists>r. scan recs ip (b * SLOT_SIZE) SLOT_SIZE None 0 = Some r \<and>
    scan_ok recs ip (b * SLOT_SIZE) (b * SLOT_SIZE + SLOT_SIZE) r"
    using le by (intro scan_Some) (auto simp: SLOT_SIZE_def)
qed

section \<open>Growing keeps every client\<close>

text \<open>An address that is in the table is found in its slot; a new one goes to the first free place.\<close>

lemma scan_found:
  assumes ok: "table_ok sd n recs" and cl: "is_client ip" and b: "b = slot_of sd n ip"
    and sc: "scan_ok recs ip (b * SLOT_SIZE) (b * SLOT_SIZE + SLOT_SIZE) r"
    and len: "b * SLOT_SIZE + SLOT_SIZE \<le> length recs"
  shows "(\<exists>i. r = Found i) \<longleftrightarrow> (\<exists>c\<in>clients recs. ip_addr c = ip)"
proof
  assume "\<exists>i. r = Found i"
  then obtain i where i: "r = Found i"
    by blast
  then have "i < b * SLOT_SIZE + SLOT_SIZE" "ip_addr (recs ! i) = ip"
    using sc by (simp_all add: scan_ok_def)
  with len have "i < length recs" "ip_addr (recs ! i) = ip"
    by simp_all
  then show "\<exists>c\<in>clients recs. ip_addr c = ip"
    using cl client_in by blast
next
  assume "\<exists>c\<in>clients recs. ip_addr c = ip"
  then obtain j where j: "j < length recs" "ip_addr (recs ! j) = ip" "live (recs ! j)"
    by (auto simp: clients_iff)
  then have "j div SLOT_SIZE = b"
    using table_okD(3) [OF ok] b by blast
  then have rng: "b * SLOT_SIZE \<le> j" "j < b * SLOT_SIZE + SLOT_SIZE"
    by (auto simp: SLOT_SIZE_def)
  show "\<exists>i. r = Found i"
  proof (cases r)
    case (Empty i)
    then have i: "b * SLOT_SIZE \<le> i" "i < b * SLOT_SIZE + SLOT_SIZE" "\<not> live (recs ! i)"
        "\<forall>k. b * SLOT_SIZE \<le> k \<and> k < i \<longrightarrow> ip_addr (recs ! k) \<noteq> ip"
      using sc by (auto simp: scan_ok_def)
    then have "i < j"
      using j rng(1) by (metis linorder_neqE_nat)
    moreover have "i div SLOT_SIZE = j div SLOT_SIZE"
      using i(1,2) rng by (simp add: mod_slot_div)
    ultimately show ?thesis
      using table_okD(5) [OF ok _ j(1)] i(3) j(3) by blast
  next
    case (Full old)
    then show ?thesis
      using sc rng j by (auto simp: scan_ok_def)
  qed simp
qed

lemma place_fresh:
  assumes ok: "table_ok sd n recs" and cl: "is_client ip" and b: "b = slot_of sd n ip" and r: "ip_addr r = ip"
    and sc: "scan_ok recs ip (b * SLOT_SIZE) (b * SLOT_SIZE + SLOT_SIZE) s" and len: "b * SLOT_SIZE + SLOT_SIZE \<le> length recs"
    and s: "s = Empty idx \<or> s = Full (Some idx)"
  shows "idx < length recs" and "table_ok sd n (recs[idx := r])" and "clients (recs[idx := r]) = insert r (clients recs - {recs ! idx})"
    and "\<forall>c\<in>clients recs. ip_addr c \<noteq> ip" and "idx div SLOT_SIZE = b"
proof -
  have i: "b * SLOT_SIZE \<le> idx" "idx < b * SLOT_SIZE + SLOT_SIZE"
    using sc s by (auto simp: scan_ok_def)
  then show idx: "idx < length recs" and dv: "idx div SLOT_SIZE = b"
    using len by (simp_all add: mod_slot_div)
  show none: "\<forall>c\<in>clients recs. ip_addr c \<noteq> ip"
    using scan_found [OF ok cl b sc len] s by auto
  have uniq: "j = idx" if "j < length recs" "ip_addr (recs ! j) = ip_addr r" for j
  proof -
    have "recs ! j \<in> clients recs"
      using that cl r by (intro client_in) simp_all
    then show ?thesis
      using none that(2) r by blast
  qed
  have "live (recs ! j)" if "j < idx" "j div SLOT_SIZE = idx div SLOT_SIZE" for j
  proof -
    have "b * SLOT_SIZE \<le> j"
      using dv that(2) div_times_less_eq_dividend [of j SLOT_SIZE] by simp
    then show ?thesis
      using sc s i that(1) by (auto simp: scan_ok_def)
  qed
  then have pre: "live (recs ! idx) \<or> (\<forall>j<idx. j div SLOT_SIZE = idx div SLOT_SIZE \<longrightarrow> live (recs ! j))"
    by blast
  show "table_ok sd n (recs[idx := r])" "clients (recs[idx := r]) = insert r (clients recs - {recs ! idx})"
    using table_ok_set [OF ok idx _ _ uniq pre] cl r dv b by simp_all
qed

lemma slot_of_double: "slot_of sd (2 * n) ip mod n = slot_of sd n ip"
  by (simp add: slot_of_def mod_mod_cancel)

text \<open>
  A slot of the doubled table only receives records of one old slot, so it is never full while one of
  them is still to come.
\<close>

lemma doubled_slot_has_room:
  assumes new: "table_ok sd (2 * n) R" and old: "table_ok sd n W"
    and sub: "clients R \<subseteq> clients W - {c}" and c: "c \<in> clients W" and b: "b = slot_of sd (2 * n) (ip_addr c)"
    and full: "\<forall>j. b * SLOT_SIZE \<le> j \<and> j < b * SLOT_SIZE + SLOT_SIZE \<longrightarrow> live (R ! j)"
    and len: "b * SLOT_SIZE + SLOT_SIZE \<le> length R"
  shows False
proof -
  let ?I = "{b * SLOT_SIZE..<b * SLOT_SIZE + SLOT_SIZE}" and ?b = "b mod n"
  let ?J = "{?b * SLOT_SIZE..<?b * SLOT_SIZE + SLOT_SIZE}"
  have inj: "inj_on (\<lambda>j. R ! j) ?I"
  proof (rule inj_onI)
    fix i j
    assume "i \<in> ?I" "j \<in> ?I" "R ! i = R ! j"
    then show "i = j"
      using table_okD(4) [OF new, of i j] full len by auto
  qed
  have in_old: "r \<in> (\<lambda>j. W ! j) ` ?J" if r: "r \<in> clients W" "slot_of sd (2 * n) (ip_addr r) = b" for r
  proof -
    obtain j where j: "j < length W" "r = W ! j" "live r"
      using r(1) by (auto simp: clients_iff)
    then have "j div SLOT_SIZE = ?b"
      using table_okD(3) [OF old, of j] r(2) slot_of_double [of sd n "ip_addr r"] by simp
    then have "j \<in> ?J"
      by (auto simp: SLOT_SIZE_def)
    then show ?thesis
      using j(2) by blast
  qed
  have mem: "R ! j \<in> clients R \<and> slot_of sd (2 * n) (ip_addr (R ! j)) = b" if "j \<in> ?I" for j
  proof -
    have j: "j < length R" "live (R ! j)" "j div SLOT_SIZE = b"
      using that len full by (auto simp: mod_slot_div)
    then show ?thesis
      using table_okD(3) [OF new, of j] by (auto simp: clients_iff)
  qed
  have "insert c ((\<lambda>j. R ! j) ` ?I) \<subseteq> (\<lambda>j. W ! j) ` ?J"
  proof
    fix r
    assume "r \<in> insert c ((\<lambda>j. R ! j) ` ?I)"
    then have "r \<in> clients W \<and> slot_of sd (2 * n) (ip_addr r) = b"
      using c b mem sub by blast
    then show "r \<in> (\<lambda>j. W ! j) ` ?J"
      using in_old by blast
  qed
  then have "card (insert c ((\<lambda>j. R ! j) ` ?I)) \<le> card ((\<lambda>j. W ! j) ` ?J)"
    by (intro card_mono) auto
  also have "\<dots> \<le> card ?J"
    by (rule card_image_le) simp
  finally have "card (insert c ((\<lambda>j. R ! j) ` ?I)) \<le> SLOT_SIZE"
    by simp
  moreover have "c \<notin> (\<lambda>j. R ! j) ` ?I"
    using mem sub by blast
  ultimately show False
    using card_image [OF inj] by simp
qed

text \<open>The part of \<open>get_record_clg\<close> before the growth, and its result for an address that is not there.\<close>

lemma get_record_hashed:
  assumes "wf_log c" and "hash_seed c \<noteq> 0" and "is_client ip" and b: "b = slot_of (hash_seed c) (slots c) ip"
  shows "get_record_fuel (Suc n) c ip = do {
      found \<leftarrow> scan (records c) ip (b * SLOT_SIZE) SLOT_SIZE None 0;
      case found of
         Found idx \<Rightarrow> ret (c, Some idx)
       | Empty idx \<Rightarrow> do { c \<leftarrow> set_record c idx (fresh_record c ip); ret (c, Some idx) }
       | Full oldest \<Rightarrow> do {
           (grew, c) \<leftarrow> expand_hashtable (get_record_fuel n) c;
           if grew then get_record_fuel n c ip
           else case oldest of
             None \<Rightarrow> panic
           | Some idx \<Rightarrow> do {
               d \<leftarrow> u64_add (total_record_drops c) 1;
               c \<leftarrow> set_record (c\<lparr>total_record_drops := d\<rparr>) idx (fresh_record c ip);
               ret (c, Some idx)
             }
         }
    }"
proof -
  have ok: "table_ok (hash_seed c) (slots c) (records c)" "active c" "slots c \<le> MAX_SLOTS"
    using assms(1) by (auto simp: wf_log_def)
  have "ip_to_hash_clg c ip = Some (seeded_hash (hash_seed c) ip, c)"
    using ip_to_hash_Some [OF assms(1,3)] assms(2) by auto
  moreover have "u32_mul (unat (seeded_hash (hash_seed c) ip) mod slots c) SLOT_SIZE = Some (b * SLOT_SIZE)"
    using scan_slot(1) [OF ok(1,3) assms(3) b] b by (simp add: slot_of_def)
  ultimately show ?thesis
    using ok(2) assms(3) table_okD(1) [OF ok(1)] by simp
qed

lemma wf_log_records:
  "wf_log c \<Longrightarrow> hash_seed c \<noteq> 0 \<Longrightarrow> table_ok (hash_seed c) (slots c) R \<Longrightarrow> wf_log (c\<lparr>records := R\<rparr>)"
  by (simp add: wf_log_def)

lemma clients_append: "clients (xs @ ys) = clients xs \<union> clients ys"
  by (auto simp: clients_def)

lemma clients_Cons: "clients (x # xs) = (if live x then insert x (clients xs) else clients xs)"
  by (auto simp: clients_def)

lemma reinsert_Some:
  assumes old: "table_ok (hash_seed c) n (done @ rest)" and n: "slots c = 2 * n"
    and wf: "wf_log c" and sd: "hash_seed c \<noteq> 0" and cl: "clients (records c) = clients done"
  shows "\<exists>R. reinsert_clg (get_record_fuel (Suc k)) rest c = Some (c\<lparr>records := R\<rparr>) \<and>
    table_ok (hash_seed c) (slots c) R \<and> clients R = clients (done @ rest)"
  using assms
proof (induction rest arbitrary: "done" c)
  case Nil
  then show ?case
    by (intro exI [of _ "records c"]) (simp add: wf_log_def)
next
  case (Cons x rest)
  let ?sd = "hash_seed c"
  show ?case
  proof (cases "live x")
    case False
    then have "clients (records c) = clients (done @ [x])"
      using Cons.prems(5) by (simp add: clients_append clients_Cons) (simp add: clients_def)
    then show ?thesis
      using Cons.IH [of c "done @ [x]"] Cons.prems False by (simp add: live_def)
  next
    case True
    let ?ip = "ip_addr x" and ?i = "length done"
    have x: "(done @ x # rest) ! ?i = x" "?i < length (done @ x # rest)"
      by simp_all
    have ip: "is_client ?ip"
      using table_okD(3) [OF Cons.prems(1) x(2)] True by simp
    define b where "b = slot_of ?sd (slots c) ?ip"
    have ok: "table_ok ?sd (slots c) (records c)" "slots c \<le> MAX_SLOTS"
      using Cons.prems(3) by (auto simp: wf_log_def)
    obtain r where r: "scan (records c) ?ip (b * SLOT_SIZE) SLOT_SIZE None 0 = Some r"
        "scan_ok (records c) ?ip (b * SLOT_SIZE) (b * SLOT_SIZE + SLOT_SIZE) r"
      using scan_slot(2) [OF ok ip b_def] by blast
    have len: "b * SLOT_SIZE + SLOT_SIZE \<le> length (records c)"
      using scan_slot(3) [OF ok ip b_def] .
    have new: "ip_addr d \<noteq> ?ip" if d: "d \<in> clients (records c)" for d
    proof
      assume "ip_addr d = ?ip"
      moreover obtain j where "j < length done" "d = done ! j" "live d"
        using d Cons.prems(5) by (auto simp: clients_iff)
      ultimately show False
        using table_okD(4) [OF Cons.prems(1), of j ?i] by (simp add: nth_append)
    qed
    have notfound: "r \<noteq> Found i" for i
      using scan_found [OF ok(1) ip b_def r(2) len] new by blast
    have notfull: "r \<noteq> Full old" for old
    proof
      assume "r = Full old"
      then have full: "\<forall>j. b * SLOT_SIZE \<le> j \<and> j < b * SLOT_SIZE + SLOT_SIZE \<longrightarrow> live (records c ! j)"
        using r(2) by (simp add: scan_ok_def)
      have "clients (records c) \<subseteq> clients (done @ x # rest) - {x}" "x \<in> clients (done @ x # rest)"
        using Cons.prems(5) new True by (auto simp: clients_append clients_Cons)
      then show False
        using doubled_slot_has_room [of ?sd n "records c" "done @ x # rest" x b] ok(1) Cons.prems(1,2) full len b_def by simp
    qed
    obtain idx where idx: "r = Empty idx"
      using notfound notfull by (cases r) auto
    note P = place_fresh [OF ok(1) ip b_def _ r(2) len, of _ idx]
    let ?R = "(records c)[idx := x]" and ?F = "(records c)[idx := fresh_record c ?ip]"
    have "idx < length (records c)"
      using P(1) [of x] idx by simp
    moreover have "get_record_fuel (Suc k) c ?ip = Some (c\<lparr>records := ?F\<rparr>, Some idx)"
      using get_record_hashed [OF Cons.prems(3,4) ip b_def] r(1) idx calculation by (simp add: set_record_Some)
    ultimately have step: "reinsert_clg (get_record_fuel (Suc k)) (x # rest) c
        = reinsert_clg (get_record_fuel (Suc k)) rest (c\<lparr>records := ?R\<rparr>)"
      using True by (simp add: live_def set_record_def)
    have R: "table_ok ?sd (slots c) ?R"
      using P(2) [of x] idx by simp
    have "records c ! idx \<notin> clients (records c)"
      using r(2) idx by (simp add: scan_ok_def clients_def)
    then have "clients ?R = clients (done @ [x])"
      using P(3) [of x] idx Cons.prems(5) True by (auto simp: clients_append clients_Cons) (simp_all add: clients_def)
    then have "\<exists>R'. reinsert_clg (get_record_fuel (Suc k)) rest (c\<lparr>records := ?R\<rparr>) = Some (c\<lparr>records := ?R\<rparr>\<lparr>records := R'\<rparr>) \<and>
        table_ok ?sd (slots c) R' \<and> clients R' = clients ((done @ [x]) @ rest)"
      using Cons.IH [of "c\<lparr>records := ?R\<rparr>" "done @ [x]"] Cons.prems(1-4) R wf_log_records [OF Cons.prems(3,4) R] by simp
    then show ?thesis
      using step by simp
  qed
qed

lemma expand_hashtable_Some:
  assumes wf: "wf_log c" and sd: "hash_seed c \<noteq> 0"
  shows "\<exists>R. expand_hashtable (get_record_fuel (Suc k)) c =
      Some (if max_slots c < 2 * slots c then (False, c) else (True, c\<lparr>slots := 2 * slots c, records := R\<rparr>)) \<and>
    (2 * slots c \<le> max_slots c \<longrightarrow> table_ok (hash_seed c) (2 * slots c) R \<and> clients R = clients (records c))"
proof -
  have ok: "table_ok (hash_seed c) (slots c) (records c)" "slots c \<le> max_slots c" "max_slots c \<le> MAX_SLOTS"
    using wf by (simp_all add: wf_log_def)
  have n: "0 < slots c" "records c \<noteq> []"
    using table_okD(1,2) [OF ok(1)] by (auto simp: SLOT_SIZE_def)
  have mul: "u32_mul 2 (slots c) = Some (2 * slots c)"
    using ok(2,3) by (simp add: u32_mul_def MAX_SLOTS_def)
  show ?thesis
  proof (cases "max_slots c < 2 * slots c")
    case True
    then show ?thesis
      using mul n by (simp add: expand_hashtable_def)
  next
    case False
    let ?n = "2 * slots c"
    let ?c = "c\<lparr>slots := ?n, records := replicate (?n * SLOT_SIZE) empty_record\<rparr>"
    have mul2: "u32_mul ?n SLOT_SIZE = Some (?n * SLOT_SIZE)"
      using False ok(2,3) by (simp add: u32_mul_def MAX_SLOTS_def SLOT_SIZE_def)
    have mx: "max MIN_SLOTS ?n = ?n"
      using n by (simp add: MIN_SLOTS_def)
    have "table_ok (hash_seed c) ?n (replicate (?n * SLOT_SIZE) empty_record)"
      using table_ok_empty [of ?n "hash_seed c"] n by (simp add: mult.commute)
    then have "wf_log ?c"
      using wf sd False by (simp add: wf_log_def)
    moreover have "clients (records ?c) = clients []"
      by (simp add: clients_def)
    ultimately obtain R where R: "reinsert_clg (get_record_fuel (Suc k)) (records c) ?c = Some (?c\<lparr>records := R\<rparr>)"
        "table_ok (hash_seed c) ?n R" "clients R = clients (records c)"
      using reinsert_Some [of ?c "slots c" "[]" "records c" k] ok(1) sd by auto
    have "expand_hashtable (get_record_fuel (Suc k)) c = Some (True, c\<lparr>slots := ?n, records := R\<rparr>)"
      using False n mul mul2 mx R(1) unfolding expand_hashtable_def by (simp del: get_record_fuel.simps)
    then show ?thesis
      using False R(2,3) by (intro exI [of _ R]) simp
  qed
qed

section \<open>Looking up a client\<close>

text \<open>
  What \<open>get_record_clg\<close> promises: the record of a known client, unchanged; otherwise a fresh record, where
  at most one other client is given up, counted, and only when the table cannot grow any more.
\<close>

definition get_spec :: "ClientLog \<Rightarrow> ClientIp \<Rightarrow> ClientLog \<Rightarrow> nat \<Rightarrow> bool" where
  "get_spec c ip c' idx \<longleftrightarrow> wf_log c' \<and> hash_seed c' \<noteq> 0 \<and> idx < length (records c') \<and>
     c' = c\<lparr>records := records c', slots := slots c', hash_seed := hash_seed c', rng_pos := rng_pos c',
            total_record_drops := total_record_drops c'\<rparr> \<and>
     (if \<exists>r\<in>clients (records c). ip_addr r = ip
      then ip_addr (records c' ! idx) = ip \<and> clients (records c') = clients (records c) \<and> total_record_drops c' = total_record_drops c
      else records c' ! idx = fresh_record c ip \<and>
        (clients (records c') = insert (fresh_record c ip) (clients (records c)) \<and> total_record_drops c' = total_record_drops c \<or>
         (\<exists>e\<in>clients (records c). clients (records c') = insert (fresh_record c ip) (clients (records c) - {e})) \<and>
           max_slots c < 2 * slots c' \<and> total_record_drops c' = total_record_drops c + 1))"

lemma get_record_seeded:
  assumes "wf_log c" and "hash_seed c \<noteq> 0" and ip: "is_client ip" and "max_slots c < slots c * 2 ^ n"
    and "total_record_drops c < 2 ^ 64 - 1"
  shows "\<exists>c' idx. get_record_fuel (Suc n) c ip = Some (c', Some idx) \<and> get_spec c ip c' idx"
  using assms(1,2,4,5)
proof (induction n arbitrary: c)
  case 0
  then show ?case by (simp add: wf_log_def)
next
  case (Suc n)
  define b where "b = slot_of (hash_seed c) (slots c) ip"
  have ok: "table_ok (hash_seed c) (slots c) (records c)" "slots c \<le> MAX_SLOTS"
    using Suc.prems(1) by (auto simp: wf_log_def)
  obtain r where r: "scan (records c) ip (b * SLOT_SIZE) SLOT_SIZE None 0 = Some r"
      "scan_ok (records c) ip (b * SLOT_SIZE) (b * SLOT_SIZE + SLOT_SIZE) r"
    using scan_slot(2) [OF ok ip b_def] by blast
  have len: "b * SLOT_SIZE + SLOT_SIZE \<le> length (records c)"
    using scan_slot(3) [OF ok ip b_def] .
  note run = get_record_hashed [OF Suc.prems(1,2) ip b_def, of "Suc n"]
  note found = scan_found [OF ok(1) ip b_def r(2) len]
  let ?f = "fresh_record c ip"
  have f: "ip_addr ?f = ip"
    by (simp add: fresh_record_def)
  have wf_set: "wf_log (c\<lparr>records := R, total_record_drops := d\<rparr>)" if "table_ok (hash_seed c) (slots c) R" for R d
    using that Suc.prems(1,2) by (simp add: wf_log_def)
  show ?case
  proof (cases r)
    case (Found i)
    then have "i < length (records c)" "ip_addr (records c ! i) = ip"
      using r(2) len by (auto simp: scan_ok_def)
    then have "get_spec c ip c i"
      using Suc.prems(1,2) found Found unfolding get_spec_def by auto
    then show ?thesis
      using run r(1) Found by (simp del: get_record_fuel.simps)
  next
    case (Empty i)
    note P = place_fresh [OF ok(1) ip b_def f r(2) len, of i]
    let ?c = "c\<lparr>records := (records c)[i := ?f]\<rparr>"
    have i: "i < length (records c)"
      using P(1) Empty by simp
    have "records c ! i \<notin> clients (records c)"
      using r(2) Empty by (simp add: scan_ok_def clients_def)
    then have "clients (records ?c) = insert ?f (clients (records c))"
      using P(3) Empty by simp
    moreover have "wf_log ?c"
      using P(2) Empty wf_log_records [OF Suc.prems(1,2)] by simp
    moreover have "\<not> (\<exists>r\<in>clients (records c). ip_addr r = ip)"
      using found Empty by blast
    ultimately have "get_spec c ip ?c i"
      using i Suc.prems(2) unfolding get_spec_def by simp
    moreover have "get_record_fuel (Suc (Suc n)) c ip = Some (?c, Some i)"
      using run r(1) Empty i by (simp add: set_record_Some del: get_record_fuel.simps)
    ultimately show ?thesis
      by blast
  next
    case (Full old)
    then obtain i where i: "old = Some i"
      using r(2) by (auto simp: scan_ok_def)
    have none: "\<not> (\<exists>r\<in>clients (records c). ip_addr r = ip)"
      using found Full by blast
    obtain R where R: "expand_hashtable (get_record_fuel (Suc n)) c =
        Some (if max_slots c < 2 * slots c then (False, c) else (True, c\<lparr>slots := 2 * slots c, records := R\<rparr>))"
        "2 * slots c \<le> max_slots c \<longrightarrow> table_ok (hash_seed c) (2 * slots c) R \<and> clients R = clients (records c)"
      using expand_hashtable_Some [OF Suc.prems(1,2)] by blast
    show ?thesis
    proof (cases "max_slots c < 2 * slots c")
      case True
      note P = place_fresh [OF ok(1) ip b_def f r(2) len, of i]
      let ?c = "c\<lparr>records := (records c)[i := ?f], total_record_drops := total_record_drops c + 1\<rparr>"
      have il: "i < length (records c)"
        using P(1) Full i by simp
      have "live (records c ! i)"
        using r(2) Full i by (auto simp: scan_ok_def)
      then have "records c ! i \<in> clients (records c)"
        using il by (simp add: clients_def)
      moreover have "clients (records ?c) = insert ?f (clients (records c) - {records c ! i})"
        using P(3) Full i by simp
      moreover have "wf_log ?c"
        using wf_set P(2) Full i by simp
      ultimately have "get_spec c ip ?c i"
        using il none True Suc.prems(2) unfolding get_spec_def by auto
      moreover have "u64_add (total_record_drops c) 1 = Some (total_record_drops c + 1)"
        using Suc.prems(4) by (simp add: u64_add_def)
      then have "get_record_fuel (Suc (Suc n)) c ip = Some (?c, Some i)"
        using run r(1) Full i True R(1) il by (simp add: set_record_def fresh_record_def del: get_record_fuel.simps)
      ultimately show ?thesis
        by blast
    next
      case False
      let ?c = "c\<lparr>slots := 2 * slots c, records := R\<rparr>"
      have wf: "wf_log ?c"
        using R(2) False Suc.prems(1,2) by (simp add: wf_log_def)
      obtain c' idx where c': "get_record_fuel (Suc n) ?c ip = Some (c', Some idx)" "get_spec ?c ip c' idx"
        using Suc.IH [OF wf] Suc.prems(2-4) by auto
      have "get_spec c ip c' idx"
        using c'(2) R(2) False unfolding get_spec_def by (auto simp: fresh_record_def)
      moreover have "get_record_fuel (Suc (Suc n)) c ip = Some (c', Some idx)"
        using run r(1) Full False R(1) c'(1) by (simp del: get_record_fuel.simps)
      ultimately show ?thesis
        by blast
    qed
  qed
qed

lemma get_record_Some:
  assumes "wf_log c" and ip: "is_client ip" and "total_record_drops c < 2 ^ 64 - 1"
  shows "\<exists>c' idx. get_record_clg c ip = Some (c', Some idx) \<and> get_spec c ip c' idx"
proof -
  obtain c1 sd p where c1: "ip_to_hash_clg c ip = Some (seeded_hash (hash_seed c1) ip, c1)" "wf_log c1" "hash_seed c1 \<noteq> 0"
      "c1 = c\<lparr>hash_seed := sd, rng_pos := p\<rparr>"
    using ip_to_hash_Some [OF assms(1,2)] by blast
  have "ip_to_hash_clg c1 ip = Some (seeded_hash (hash_seed c1) ip, c1)"
    using ip_to_hash_Some [OF c1(2) ip] c1(3) by auto
  then have eq: "get_record_fuel (Suc n) c ip = get_record_fuel (Suc n) c1 ip" for n
    using c1(1,4) ip assms(1) by (simp add: wf_log_def)
  have "max_slots c1 \<le> 2 ^ 20" "0 < slots c1"
    using c1(2) table_okD(1) by (auto simp: wf_log_def MAX_SLOTS_def)
  then have "max_slots c1 < slots c1 * 2 ^ 31"
    by simp
  then obtain c' idx where c': "get_record_fuel (Suc 31) c1 ip = Some (c', Some idx)" "get_spec c1 ip c' idx"
    using get_record_seeded [OF c1(2,3) ip] c1(4) assms(3) by fastforce
  have "get_spec c ip c' idx"
    using c'(2) unfolding get_spec_def c1(4) by (auto simp: fresh_record_def)
  moreover have "GET_FUEL = Suc 31"
    by (simp add: GET_FUEL_def)
  ultimately show ?thesis
    using c'(1) eq [of 31] unfolding get_record_clg_def by (simp only:) blast
qed

section \<open>Token buckets\<close>

lemma bucket_shift_range:
  assumes "1 \<le> bst" and "bst \<le> 255" and "interval \<le> 12" and "0 \<le> t" and "t \<le> 8" and "t \<le> max 0 (interval + 4)"
  shows "t \<le> bucket_shift interval bst t \<and> bucket_shift interval bst t \<le> 8 \<and>
    bucket_shift interval bst t \<le> max 0 (interval + 4) \<and>
    (bucket_shift interval bst t < interval + 4 \<longrightarrow> bst * 2 ^ nat (4 + interval - bucket_shift interval bst t) < 2 ^ 16)"
  using assms
proof (induction interval bst t rule: bucket_shift.induct)
  case (1 interval bst t)
  show ?case
  proof (cases "t < interval + 4 \<and> \<not> bst * 2 ^ nat (4 + interval - t) < 2 ^ 16")
    case True
    have "t \<noteq> 8"
    proof
      assume "t = 8"
      then have "bst * 2 ^ nat (4 + interval - t) \<le> 255 * 2 ^ 8"
        using 1(2-4) by (intro mult_mono power_increasing) auto
      then show False
        using True by simp
    qed
    moreover have "bucket_shift interval bst t = bucket_shift interval bst (t + 1)"
      using True by (subst bucket_shift.simps) (simp add: TS_FRAC_def)
    ultimately show ?thesis
      using 1(1) True 1(2-7) by (simp add: TS_FRAC_def)
  next
    case False
    then have "bucket_shift interval bst t = t"
      by (subst bucket_shift.simps) (auto simp: TS_FRAC_def)
    then show ?thesis
      using False 1(5-7) by auto
  qed
qed

text \<open>The bucket of every configuration fits its 16 bits: no truncation, at least one token to a hit.\<close>

lemma set_bucket_params_Some:
  assumes I: "I = clamp_i32 (- 19) interval 12"
  shows "\<exists>mt tph sh bst. set_bucket_params interval bst0 = Some (mt, tph, sh) \<and> mt = tph * bst \<and> mt < 2 ^ 16 \<and>
     1 \<le> tph \<and> clamp_i32 1 bst0 255 \<le> int bst \<and> -15 \<le> sh \<and> sh \<le> 8 \<and>
     (if 0 \<le> sh then tph * 2 ^ nat sh = 2 ^ nat (4 + I) else tph = 1 \<and> sh = 4 + I \<and> 2 ^ nat (- sh) \<le> bst)"
proof -
  have Ir: "-19 \<le> I" "I \<le> 12"
    by (auto simp: I clamp_i32_def)
  define B where "B = clamp_i32 1 bst0 255"
  have Br: "1 \<le> B" "B \<le> 255"
    by (auto simp: B_def clamp_i32_def)
  show ?thesis
  proof (cases "- 4 \<le> I")
    case True
    let ?sh = "bucket_shift I B 0"
    have sh: "0 \<le> ?sh" "?sh \<le> 8" "?sh \<le> I + 4" "?sh < I + 4 \<longrightarrow> B * 2 ^ nat (4 + I - ?sh) < 2 ^ 16"
      using bucket_shift_range [of B I 0] Br Ir True by auto
    have "int (2 ^ nat (4 + I - ?sh) * nat B) < 2 ^ 16"
      using sh Br by (cases "?sh = I + 4") (simp_all add: mult.commute)
    then have lt: "2 ^ nat (4 + I - ?sh) * nat B < 2 ^ 16"
      by (metis of_nat_less_iff of_nat_numeral of_nat_power)
    have "2 ^ nat (4 + I - ?sh) * 1 \<le> 2 ^ nat (4 + I - ?sh) * nat B"
      using Br by (intro mult_left_mono) auto
    with lt have lt': "(2 :: nat) ^ nat (4 + I - ?sh) < 2 ^ 16"
      by linarith
    have "set_bucket_params interval bst0 = Some (2 ^ nat (4 + I - ?sh) * nat B, 2 ^ nat (4 + I - ?sh), ?sh)"
      using True lt lt' unfolding set_bucket_params_def
      by (simp add: u32_mul_def B_def [symmetric] I [symmetric] TS_FRAC_def MIN_LIMIT_INTERVAL_def MAX_LIMIT_INTERVAL_def
          MIN_LIMIT_BURST_def MAX_LIMIT_BURST_def Let_def)
    moreover have "(2 :: nat) ^ nat (4 + I - ?sh) * 2 ^ nat ?sh = 2 ^ nat (4 + I)"
      using sh by (simp flip: power_add add: nat_add_distrib [symmetric])
    ultimately show ?thesis
      using lt sh(1,2) Br by (intro exI [of _ "2 ^ nat (4 + I - ?sh) * nat B"] exI [of _ "2 ^ nat (4 + I - ?sh)"]
          exI [of _ ?sh] exI [of _ "nat B"]) (simp add: B_def)
  next
    case False
    let ?B = "max B (2 ^ nat (- (I + 4)))"
    have "(2 :: int) ^ nat (- (I + 4)) \<le> 2 ^ 15"
      using Ir by (intro power_increasing) auto
    then have b: "1 \<le> ?B" "?B < 2 ^ 16"
      using Br by auto
    then have "nat ?B < 2 ^ 16"
      by (subst nat_less_iff) simp_all
    then have "set_bucket_params interval bst0 = Some (nat ?B, 1, I + 4)"
      using False unfolding set_bucket_params_def
      by (simp add: u32_mul_def B_def [symmetric] I [symmetric] TS_FRAC_def MIN_LIMIT_INTERVAL_def MAX_LIMIT_INTERVAL_def
          MIN_LIMIT_BURST_def MAX_LIMIT_BURST_def Let_def)
    moreover have "2 ^ nat (- (I + 4)) \<le> nat ?B"
      by (simp add: le_nat_iff)
    ultimately show ?thesis
      using b False Ir Br by (intro exI [of _ "nat ?B"] exI [of _ "1 :: nat"] exI [of _ "I + 4"] exI [of _ "nat ?B"])
        (simp add: B_def)
  qed
qed

definition params_ok :: "ClientLog \<Rightarrow> bool" where
  "params_ok c \<longleftrightarrow> (\<forall>s. max_tokens c s < 2 ^ 16 \<and> -15 \<le> token_shift c s \<and> token_shift c s \<le> 8 \<and>
     tokens_per_hit c s \<le> max_tokens c s)"

text \<open>A request rate estimate is the invalid value or between \<open>-56\<close> and \<open>20\<close>, in quarters of log2.\<close>

definition rate_ok :: "int \<Rightarrow> bool" where
  "rate_ok r \<longleftrightarrow> r = -128 \<or> (-56 \<le> r \<and> r \<le> 20)"

definition record_ok :: "ClientLog \<Rightarrow> Record \<Rightarrow> bool" where
  "record_ok c r \<longleftrightarrow> (\<forall>s. tokens r s \<le> max_tokens c s \<and> rate_ok (rate r s)) \<and> rate_ok (ntp_timeout_rate r)"

lemma log2_interval_range:
  "i2 \<le> 56 \<Longrightarrow> 4 dvd 56 - i2 \<Longrightarrow> i2 \<le> log2_interval iv i2 \<and> log2_interval iv i2 \<le> 56"
proof (induction iv i2 rule: log2_interval.induct)
  case (1 iv i2)
  show ?case
  proof (cases "i2 < 56 \<and> \<not> iv \<le> 1")
    case True
    have "i2 + 4 \<le> 56"
      using 1(3) True [THEN conjunct1] by presburger
    moreover have "4 dvd 56 - (i2 + 4)"
      using 1(3) by presburger
    moreover have "log2_interval iv i2 = log2_interval (drop_bit 1 iv) (i2 + 4)"
      using True by (subst log2_interval.simps) (simp add: MIN_RATE_def RATE_SCALE_def)
    ultimately show ?thesis
      using 1(1) True by (simp add: MIN_RATE_def RATE_SCALE_def)
  next
    case False
    then have "log2_interval iv i2 = i2"
      by (subst log2_interval.simps) (auto simp: MIN_RATE_def RATE_SCALE_def)
    then show ?thesis
      using 1(2) by simp
  qed
qed

lemma sdiv_2: "(x :: int) sdiv 2 = (if 0 \<le> x then x div 2 else - ((- x) div 2))"
  by (simp add: signed_divide_int_def sgn_if)

lemma update_rate_ok:
  assumes "rate_ok r" and "-20 \<le> i2" and "i2 \<le> 56"
  shows "rate_ok (update_rate r i2)"
proof -
  have c10: "RATE_SCALE * 5 sdiv 2 = 10"
    by (simp add: RATE_SCALE_def sdiv_2)
  have cast: "i32_as_i8 x = x" if "-128 \<le> x" "x < 128" for x
    using that by (simp add: i32_as_i8_def)
  have half: "-56 \<le> (r - i2 - 1) sdiv 2 \<and> (r - i2 - 1) sdiv 2 \<le> 20" if "- i2 < r" "r \<le> 10 - i2" "r \<le> 20"
    using that assms(2,3) by (auto simp: sdiv_2)
  consider "r = -128" | "-56 \<le> r" "r \<le> 20" "r < - i2" | "-56 \<le> r" "r \<le> 20" "- i2 < r" "10 - i2 < r"
    | "-56 \<le> r" "r \<le> 20" "- i2 < r" "r \<le> 10 - i2" | "-56 \<le> r" "r \<le> 20" "r = - i2"
    using assms(1) by (fastforce simp: rate_ok_def)
  then show ?thesis
    using assms(2,3) half by cases (auto simp: update_rate_def INVALID_RATE_def c10 cast rate_ok_def)
qed

text \<open>The refill cannot overflow the 32-bit sum, even across a wrap of the hit timestamps.\<close>

lemma unat_drop_bit: "unat (drop_bit k w) = unat w div 2 ^ k"
  unfolding unsigned_drop_bit_eq
  using unsigned_less [of w, where 'a = nat] by (simp add: drop_bit_eq_div take_bit_nat_eq_self)

lemma unat_interval:
  fixes now prev :: u32
  assumes "\<not> sint (now - prev) < 0"
  shows "unat (now - prev) < 2 ^ 31" and "unat now < unat prev \<Longrightarrow> unat now + 2 ^ 31 < unat prev"
proof -
  have "uint (now - prev) < 2 ^ 31"
    using assms uint_lt2p [of "now - prev"] by (simp add: sint_split split: if_splits)
  then show lt: "unat (now - prev) < 2 ^ 31"
    by (metis of_nat_less_iff of_nat_numeral of_nat_power uint_nat)
  show "unat now + 2 ^ 31 < unat prev" if "unat now < unat prev"
    using lt that unsigned_less [of prev, where 'a = nat] by (simp add: unat_sub_if' split: if_splits)
qed

lemma div_add_le: "(a + d) div m \<le> a div m + (d :: nat)"
  by (induction d) (auto simp: div_Suc)

lemma refill_less:
  assumes "mt < 2 ^ 16" and "-15 \<le> t" and "t \<le> 8" and "\<not> sint (now_ts - prev) < 0"
  shows "unat (refill t mt now_ts prev) + 2 ^ 16 \<le> 2 ^ 32"
proof (cases "0 \<le> t")
  case True
  define k N P where "k = nat t" and "N = unat now_ts" and "P = unat prev"
  have k: "k \<le> 8"
    using assms(3) by (simp add: k_def)
  have eq: "unat (refill t mt now_ts prev) = (if P div 2 ^ k \<le> N div 2 ^ k then N div 2 ^ k - P div 2 ^ k
      else N div 2 ^ k + 2 ^ 32 - P div 2 ^ k)"
    using True by (simp add: refill_def unat_sub_if' unat_drop_bit k_def N_def P_def)
  show ?thesis
  proof (cases "N < P")
    case True
    then have "N + 2 ^ (31 - k) * 2 ^ k \<le> P"
      using unat_interval(2) [OF assms(4)] k by (simp add: N_def P_def flip: power_add)
    then have "(N + 2 ^ (31 - k) * 2 ^ k) div 2 ^ k \<le> P div 2 ^ k"
      by (rule div_le_mono)
    moreover have "(2 :: nat) ^ 16 \<le> 2 ^ (31 - k)"
      using k by (intro power_increasing) auto
    ultimately show ?thesis
      unfolding eq by simp
  next
    case False
    have "N div 2 ^ k - P div 2 ^ k \<le> N - P"
      using div_add_le [of P "N - P" "2 ^ k"] False by simp
    moreover have "N - P < 2 ^ 31"
      using unat_interval(1) [OF assms(4)] False by (simp add: unat_sub_if' N_def P_def)
    moreover have "P div 2 ^ k \<le> N div 2 ^ k"
      using False by (intro div_le_mono) simp
    ultimately show ?thesis
      unfolding eq by simp
  qed
next
  case False
  define k where "k = nat (- t)"
  have k: "k \<le> 15"
    using assms(2) by (simp add: k_def)
  let ?d = "unat (now_ts - prev)"
  show ?thesis
  proof (cases "mt < ?d")
    case True
    then show ?thesis
      using False assms(1) by (simp add: refill_def unsigned_of_nat take_bit_nat_eq_self)
  next
    case 2: False
    have "unat (push_bit k (now_ts - prev)) \<le> ?d * 2 ^ k"
      unfolding unsigned_push_bit_eq by (metis push_bit_eq_mult take_bit_nat_less_eq_self)
    also have "\<dots> \<le> 2 ^ 16 * 2 ^ 15"
      using 2 assms(1) k by (intro mult_le_mono power_increasing) auto
    finally show ?thesis
      using 2 False by (simp add: refill_def k_def)
  qed
qed

section \<open>One request\<close>

lemma table_ok_ips:
  assumes "map ip_addr recs = map ip_addr recs'" and "table_ok sd n recs"
  shows "table_ok sd n recs'"
proof -
  have len: "length recs = length recs'"
    using assms(1) by (rule map_eq_imp_length_eq)
  have ip: "ip_addr (recs' ! i) = ip_addr (recs ! i)" if "i < length recs'" for i
    using assms(1) len that by (metis nth_map)
  then have lv: "live (recs' ! i) = live (recs ! i)" if "i < length recs'" for i
    using that by (simp add: live_def)
  note D = table_okD [OF assms(2), unfolded len]
  show ?thesis
    unfolding table_ok_def
  proof (intro conjI allI impI)
    fix i
    assume "i < length recs'" "live (recs' ! i)"
    then show "is_client (ip_addr (recs' ! i))" "i div SLOT_SIZE = slot_of sd n (ip_addr (recs' ! i))"
      using D(3) [of i] by (simp_all add: ip lv)
  next
    fix i j
    assume "i < length recs'" "j < length recs'" "live (recs' ! i) \<and> ip_addr (recs' ! i) = ip_addr (recs' ! j)"
    then show "i = j"
      by (intro D(4)) (simp_all add: ip lv)
  next
    fix i j
    assume ij: "i < j \<and> j < length recs' \<and> i div SLOT_SIZE = j div SLOT_SIZE \<and> live (recs' ! j)"
    then have "live (recs ! j)"
      using lv by blast
    with ij have "live (recs ! i)"
      by (intro D(5) [of i j]) simp_all
    then show "live (recs' ! i)"
      using ij by (simp add: lv)
  qed (use D(1,2) in simp_all)
qed

text \<open>The state with one record changed, its address kept.\<close>

lemma wf_log_update:
  assumes "wf_log c" and "idx < length (records c)" and "ip_addr r = ip_addr (records c ! idx)"
    and "records c' = (records c)[idx := r]" and "active c' = active c" and "slots c' = slots c"
    and "max_slots c' = max_slots c" and "hash_seed c' = hash_seed c" and "rng c' = rng c"
  shows "wf_log c'"
proof -
  have "map ip_addr (records c') = map ip_addr (records c)"
    using assms(2-4) by (metis list_update_id map_update)
  then have "table_ok (hash_seed c') (slots c') (records c')"
    using assms(1,6,8) table_ok_ips [of "records c" "records c'"] by (simp add: wf_log_def)
  moreover have "clients (records c') = {}" if "clients (records c) = {}"
  proof -
    have "\<not> live x" if "x \<in> set (records c)" for x
      using \<open>clients (records c) = {}\<close> that by (auto simp: clients_def)
    then have "\<not> live x" if "x \<in> set (records c')" for x
      using that assms(2-4) set_update_subset_insert [of "records c" idx r] by (fastforce simp: live_def)
    then show ?thesis
      by (auto simp: clients_def)
  qed
  ultimately show ?thesis
    using assms by (simp add: wf_log_def)
qed

definition good_log :: "ClientLog \<Rightarrow> bool" where
  "good_log c \<longleftrightarrow> wf_log c \<and> params_ok c \<and> (\<forall>r\<in>clients (records c). record_ok c r)"

lemma scaled_interval_Some:
  assumes "\<not> sint (now - prev) < 0"
  shows "\<exists>i2. scaled_interval (now - prev) = Some i2 \<and> -20 \<le> i2 \<and> i2 \<le> 56"
proof (cases "now = prev")
  case True
  then show ?thesis
    by (simp add: scaled_interval_def RATE_SCALE_def TS_FRAC_def)
next
  case False
  let ?i = "now - prev"
  have "unat (drop_bit 1 ?i) \<le> unat ?i div 2"
    unfolding unat_drop_bit by simp
  then have iv: "u32_add (unat ?i) (unat (drop_bit (Suc 0) ?i)) = Some (unat ?i + unat (drop_bit 1 ?i))"
    using unat_interval(1) [OF assms] by (simp add: u32_add_def)
  have "-16 \<le> log2_interval iv (- 16) \<and> log2_interval iv (- 16) \<le> 56" for iv
    using log2_interval_range [of "-16" iv] by simp
  then have "-20 \<le> log2_interval iv (- 16)" "log2_interval iv (- 16) \<le> 56" for iv
    by (smt (verit))+
  then show ?thesis
    using False iv by (simp add: scaled_interval_def RATE_SCALE_def TS_FRAC_def)
qed

lemma apply_rate_keeps:
  "ip_addr (apply_rate r s i2) = ip_addr r" "last_hit (apply_rate r s i2) = last_hit r" "hits (apply_rate r s i2) = hits r"
  "drops (apply_rate r s i2) = drops r" "drop_flags (apply_rate r s i2) = drop_flags r" "tokens (apply_rate r s i2) = tokens r"
  by (simp_all add: apply_rate_def Let_def)

lemma apply_rate_ok:
  assumes "record_ok c r" and "-20 \<le> i2" and "i2 \<le> 56"
  shows "record_ok c (apply_rate r s i2)"
proof -
  have "rate_ok (update_rate (rate r s) i2)" "rate_ok (update_rate (ntp_timeout_rate r) i2)"
    using assms by (auto simp: record_ok_def intro!: update_rate_ok)
  then show ?thesis
    using assms(1) by (auto simp: apply_rate_def record_ok_def Let_def)
qed

lemma update_record_Some:
  assumes par: "params_ok c" and idx: "idx < length (records c)" and r: "records c ! idx = r" and ok: "record_ok c r"
    and now: "now_ts = get_ts_from_timespec c now"
  shows "\<exists>r'. update_record c s idx now = Some (c\<lparr>records := (records c)[idx := r']\<rparr>) \<and> record_ok c r' \<and>
    ip_addr r' = ip_addr r \<and> last_hit r' = (last_hit r)(s := now_ts) \<and> hits r' = (hits r)(s := hits r s + 1) \<and>
    drops r' = drops r \<and> drop_flags r' = drop_flags r \<and>
    tokens r' = (tokens r)(s := if last_hit r s = INVALID_TS \<or> sint (now_ts - last_hit r s) < 0 then tokens r s
      else min (tokens r s + unat (refill (token_shift c s) (max_tokens c s) now_ts (last_hit r s))) (max_tokens c s))"
proof -
  have get: "index (records c) idx = Some r"
    using idx r by (simp add: index_Some)
  let ?r = "r\<lparr>last_hit := (last_hit r)(s := now_ts), hits := (hits r)(s := hits r s + 1)\<rparr>"
  let ?i = "now_ts - last_hit r s"
  show ?thesis
  proof (cases "last_hit r s = INVALID_TS \<or> sint ?i < 0")
    case True
    then have "update_record c s idx now = Some (c\<lparr>records := (records c)[idx := ?r]\<rparr>)"
      using get idx by (simp add: update_record_def now set_record_def Let_def)
    then show ?thesis
      using True ok by (intro exI [of _ ?r]) (simp add: record_ok_def)
  next
    case False
    let ?f = "refill (token_shift c s) (max_tokens c s) now_ts (last_hit r s)"
    let ?t = "min (tokens r s + unat ?f) (max_tokens c s)"
    have mt: "max_tokens c s < 2 ^ 16" "tokens r s \<le> max_tokens c s"
      using par ok by (simp_all add: params_ok_def record_ok_def)
    have "unat ?f + 2 ^ 16 \<le> 2 ^ 32"
      using par False by (intro refill_less) (auto simp: params_ok_def)
    then have sum: "u32_add (tokens r s) (unat ?f) = Some (tokens r s + unat ?f)"
      using mt by (simp add: u32_add_def)
    have tm: "?t mod 2 ^ 16 = ?t"
      using mt by simp
    obtain i2 where i2: "scaled_interval ?i = Some i2" "-20 \<le> i2" "i2 \<le> 56"
      using scaled_interval_Some [of now_ts "last_hit r s"] False by blast
    let ?r2 = "?r\<lparr>tokens := (tokens r)(s := ?t)\<rparr>"
    have "update_record c s idx now = Some (c\<lparr>records := (records c)[idx := apply_rate ?r2 s i2]\<rparr>)"
      unfolding update_record_def Let_def now [symmetric] get Option.bind.bind_lunit if_not_P [OF False]
      using idx mt by (simp add: sum i2(1) set_record_def)
    moreover have "record_ok c ?r2"
      using ok mt by (simp add: record_ok_def)
    ultimately show ?thesis
      using False apply_rate_ok [OF _ i2(2,3), of c ?r2 s] apply_rate_keeps [of ?r2 s i2]
      by (intro exI [of _ "apply_rate ?r2 s i2"]) simp
  qed
qed

lemma limit_response_random_frame:
  "\<exists>a b p drp. limit_response_random c lr = (c\<lparr>leak_rnd := a, leak_bits_left := b, rng_pos := p\<rparr>, drp)"
proof (cases "leak_bits_left c < lr")
  case True
  then show ?thesis
    by (cases c) (simp add: limit_response_random_def random_u32_def Let_def)
next
  case False
  then show ?thesis
    by (intro exI [of _ "drop_bit (nat lr) (leak_rnd c)"] exI [of _ "leak_bits_left c - lr"] exI [of _ "rng_pos c"]
        exI [of _ "if leak_rnd c mod 2 ^ nat lr \<noteq> 0 then 1 else 0"]) (simp add: limit_response_random_def Let_def)
qed

definition limit_spec :: "ClientLog \<Rightarrow> Service \<Rightarrow> nat \<Rightarrow> Record \<Rightarrow> ClientLog \<Rightarrow> Record \<Rightarrow> int \<Rightarrow> bool" where
  "limit_spec c s idx r c' r' d \<longleftrightarrow> (d = 0 \<or> d = 1) \<and>
    c' = c\<lparr>records := (records c)[idx := r'], leak_rnd := leak_rnd c', leak_bits_left := leak_bits_left c',
           rng_pos := rng_pos c', total_drops := total_drops c'\<rparr> \<and>
    total_drops c' = (total_drops c)(s := total_drops c s + nat d) \<and>
    ip_addr r' = ip_addr r \<and> last_hit r' = last_hit r \<and> rate r' = rate r \<and> ntp_timeout_rate r' = ntp_timeout_rate r \<and>
    (\<forall>s'. s' \<noteq> s \<longrightarrow> tokens r' s' = tokens r s') \<and>
    (if tokens_per_hit c s \<le> tokens r s then d = 0 \<and> tokens r' s = tokens r s - tokens_per_hit c s
     else tokens r' s = (if d = 0 then 0 else tokens r s))"

lemma limit_service_rate_Some:
  assumes idx: "idx < length (records c)" and r: "records c ! idx = r" and "total_drops c s < 2 ^ 64 - 1"
  shows "\<exists>c' r' d. limit_service_rate c s idx = Some (c', d) \<and> limit_spec c s idx r c' r' d"
proof -
  have get: "index (records c) idx = Some r"
    using idx r by (simp add: index_Some)
  let ?r = "r\<lparr>drop_flags := drop_flags r AND NOT (service_bit s)\<rparr>"
  show ?thesis
  proof (cases "tokens_per_hit c s \<le> tokens r s")
    case True
    have same: "(records c)[idx := r] = records c"
      using r by (metis list_update_id)
    show ?thesis
    proof (cases "tokens_per_hit c s = 0")
      case True
      then show ?thesis
        by (intro exI [of _ c] exI [of _ r] exI [of _ 0]) (simp add: limit_service_rate_def limit_spec_def same)
    next
      case False
      let ?r' = "?r\<lparr>tokens := (tokens r)(s := tokens r s - tokens_per_hit c s)\<rparr>"
      have "limit_service_rate c s idx = Some (c\<lparr>records := (records c)[idx := ?r']\<rparr>, 0)"
        using True False idx by (simp add: limit_service_rate_def get set_record_def)
      then show ?thesis
        using True by (intro exI [of _ "c\<lparr>records := (records c)[idx := ?r']\<rparr>"] exI [of _ ?r'] exI [of _ 0]) (simp add: limit_spec_def)
    qed
  next
    case False
    obtain a b p drp where lrr: "limit_response_random c (leak_rate c s)
        = (c\<lparr>leak_rnd := a, leak_bits_left := b, rng_pos := p\<rparr>, drp)"
      using limit_response_random_frame by blast
    let ?c1 = "c\<lparr>leak_rnd := a, leak_bits_left := b, rng_pos := p\<rparr>"
    define d where "d = (if s = Ntp \<and> ntp_timeout_rate r \<noteq> INVALID_RATE \<and> rate r s + RATE_SCALE < ntp_timeout_rate r
      then if drp \<noteq> 0 then 0 else 1 else drp)"
    have n: "u64_add (total_drops c s) (Suc 0) = Some (total_drops c s + 1)"
      using assms(3) by (simp add: u64_add_def)
    have pos: "tokens_per_hit c s \<noteq> 0"
      using False by simp
    show ?thesis
    proof (cases "d = 0")
      case True
      let ?r' = "?r\<lparr>tokens := (tokens r)(s := 0)\<rparr>"
      have "limit_service_rate c s idx = Some (?c1\<lparr>records := (records c)[idx := ?r']\<rparr>, 0)"
        using False pos idx True by (simp add: limit_service_rate_def get lrr set_record_def d_def Let_def split: if_splits)
      then show ?thesis
        using False by (intro exI [of _ "?c1\<lparr>records := (records c)[idx := ?r']\<rparr>"] exI [of _ ?r'] exI [of _ 0]) (simp add: limit_spec_def)
    next
      case nz: False
      let ?r' = "?r\<lparr>drop_flags := drop_flags ?r OR service_bit s, drops := (drops r)(s := drops r s + 1)\<rparr>"
      let ?c' = "?c1\<lparr>records := (records c)[idx := ?r'], total_drops := (total_drops c)(s := total_drops c s + 1)\<rparr>"
      have "limit_service_rate c s idx = Some (?c', 1)"
        using False pos idx nz n by (simp add: limit_service_rate_def get lrr set_record_def d_def Let_def split: if_splits)
      then show ?thesis
        using False by (intro exI [of _ ?c'] exI [of _ ?r'] exI [of _ 1]) (simp add: limit_spec_def)
    qed
  qed
qed

section \<open>The rate limit\<close>

text \<open>
  Requests of one client to one service: each is logged and then granted or dropped. The second result
  counts the responses paid for with tokens; the other responses granted are the random leak.
\<close>

fun serve_all :: "ClientLog \<Rightarrow> Service \<Rightarrow> nat \<Rightarrow> Timespec list \<Rightarrow> (ClientLog \<times> nat) run" where
  "serve_all c s idx [] = ret (c, 0)"
| "serve_all c s idx (now # nows) = do {
     c \<leftarrow> update_record c s idx now;
     r \<leftarrow> index (records c) idx;
     (c', _) \<leftarrow> limit_service_rate c s idx;
     (c'', k) \<leftarrow> serve_all c' s idx nows;
     ret (c'', if tokens_per_hit c s \<le> tokens r s then k + 1 else k)
   }"

lemma refill_mono:
  assumes "0 \<le> t" and "unat prev \<le> unat now"
  shows "unat (refill t mt now prev) = unat now div 2 ^ nat t - unat prev div 2 ^ nat t"
  using assms div_le_mono [OF assms(2), of "2 ^ nat t"] by (simp add: refill_def unat_sub_if' unat_drop_bit)

lemma serve_all_bound:
  assumes "params_ok c" and "idx < length (records c)" and "record_ok c (records c ! idx)" and "0 \<le> token_shift c s"
    and "sorted (unat (last_hit (records c ! idx) s) # map (\<lambda>n. unat (get_ts_from_timespec c n)) nows)"
    and "total_drops c s + length nows < 2 ^ 64"
  shows "\<exists>c' k. serve_all c s idx nows = Some (c', k) \<and>
    k * tokens_per_hit c s \<le> tokens (records c ! idx) s +
      (last (unat (last_hit (records c ! idx) s) # map (\<lambda>n. unat (get_ts_from_timespec c n)) nows) div 2 ^ nat (token_shift c s)
       - unat (last_hit (records c ! idx) s) div 2 ^ nat (token_shift c s))"
  using assms
proof (induction nows arbitrary: c)
  case Nil
  then show ?case by simp
next
  case (Cons now nows)
  define m where "m = (2 :: nat) ^ nat (token_shift c s)"
  define N where "N = get_ts_from_timespec c now"
  define r where "r = records c ! idx"
  let ?h = "unat (last_hit r s)" and ?ts = "\<lambda>n. unat (get_ts_from_timespec c n)" and ?tph = "tokens_per_hit c s"
  obtain r1 where r1: "update_record c s idx now = Some (c\<lparr>records := (records c)[idx := r1]\<rparr>)" "record_ok c r1"
      "last_hit r1 = (last_hit r)(s := N)"
      "tokens r1 = (tokens r)(s := if last_hit r s = INVALID_TS \<or> sint (N - last_hit r s) < 0 then tokens r s
        else min (tokens r s + unat (refill (token_shift c s) (max_tokens c s) N (last_hit r s))) (max_tokens c s))"
    using update_record_Some [OF Cons.prems(1,2) r_def [symmetric] _ N_def, of s] Cons.prems(3) r_def by blast
  let ?c1 = "c\<lparr>records := (records c)[idx := r1]\<rparr>"
  have rec1: "records ?c1 ! idx = r1" "idx < length (records ?c1)"
    using Cons.prems(2) by simp_all
  have hN: "?h \<le> unat N"
    using Cons.prems(5) by (simp add: r_def N_def)
  then have t1: "tokens r1 s \<le> tokens r s + (unat N div m - ?h div m)"
    using refill_mono [OF Cons.prems(4) hN] r1(4) by (simp add: m_def)
  have "total_drops ?c1 s < 2 ^ 64 - 1"
    using Cons.prems(6) by simp
  then obtain c2 r2 d where c2: "limit_service_rate ?c1 s idx = Some (c2, d)" "limit_spec ?c1 s idx r1 c2 r2 d"
    using limit_service_rate_Some [OF rec1(2,1)] by blast
  have D: "d = 0 \<or> d = 1" "c2 = ?c1\<lparr>records := (records ?c1)[idx := r2], leak_rnd := leak_rnd c2, leak_bits_left := leak_bits_left c2,
           rng_pos := rng_pos c2, total_drops := total_drops c2\<rparr>"
      "total_drops c2 = (total_drops ?c1)(s := total_drops ?c1 s + nat d)" "last_hit r2 = last_hit r1"
      "rate r2 = rate r1" "ntp_timeout_rate r2 = ntp_timeout_rate r1" "\<forall>s'. s' \<noteq> s \<longrightarrow> tokens r2 s' = tokens r1 s'"
      "if tokens_per_hit ?c1 s \<le> tokens r1 s then d = 0 \<and> tokens r2 s = tokens r1 s - tokens_per_hit ?c1 s
       else tokens r2 s = (if d = 0 then 0 else tokens r1 s)"
    using c2(2) unfolding limit_spec_def by blast+
  have f: "tokens_per_hit c2 = tokens_per_hit c" "token_shift c2 = token_shift c" "max_tokens c2 = max_tokens c"
      "ts_offset c2 = ts_offset c" "records c2 = (records c)[idx := r2]"
    using arg_cong [OF D(2), of tokens_per_hit] arg_cong [OF D(2), of token_shift] arg_cong [OF D(2), of max_tokens]
      arg_cong [OF D(2), of ts_offset] arg_cong [OF D(2), of records] by simp_all
  have ts: "get_ts_from_timespec c2 = get_ts_from_timespec c"
    by (simp add: fun_eq_iff get_ts_from_timespec_def f(4))
  have rec2: "idx < length (records c2)" "records c2 ! idx = r2"
    using Cons.prems(2) by (simp_all add: f(5))
  have "tokens r2 s \<le> tokens r1 s"
    using D(8) by (auto split: if_splits)
  then have "tokens r2 s' \<le> tokens r1 s'" for s'
    using D(7) by (cases "s' = s") auto
  then have ok2: "record_ok c2 (records c2 ! idx)"
    using r1(2) D(5,6) unfolding rec2(2) record_ok_def f(3) by (metis order_trans)
  have "params_ok c2"
    using Cons.prems(1) by (simp add: params_ok_def f)
  moreover have "sorted (unat (last_hit (records c2 ! idx) s) # map (\<lambda>n. unat (get_ts_from_timespec c2 n)) nows)"
    using Cons.prems(5) by (simp add: rec2 D(4) r1(3) ts N_def)
  moreover have "total_drops c2 s + length nows < 2 ^ 64"
    using Cons.prems(6) D(1,3) by auto
  ultimately obtain c' k where k: "serve_all c2 s idx nows = Some (c', k)"
      "k * ?tph \<le> tokens r2 s + (last (unat N # map ?ts nows) div m - unat N div m)"
    using Cons.IH [of c2] rec2 ok2 Cons.prems(4) by (auto simp: f ts D(4) r1(3) m_def)
  have "unat N \<le> last (unat N # map ?ts nows)"
    using Cons.prems(5) by (auto simp: N_def last_map)
  then have L: "unat N div m \<le> last (unat N # map ?ts nows) div m" "?h div m \<le> unat N div m"
    using hN by (simp_all add: div_le_mono)
  let ?k = "if ?tph \<le> tokens r1 s then k + 1 else k"
  have "?k * ?tph \<le> tokens r1 s + (last (unat N # map ?ts nows) div m - unat N div m)"
    using k(2) D(8) by (auto split: if_splits)
  then have "?k * ?tph \<le> tokens r s + (last (unat N # map ?ts nows) div m - ?h div m)"
    using t1 L by linarith
  moreover have "serve_all c s idx (now # nows) = Some (c', ?k)"
    using r1(1) c2(1) k(1) rec1 by (simp add: index_Some)
  moreover have "last (?h # map ?ts (now # nows)) = last (unat N # map ?ts nows)"
    by (simp add: N_def)
  ultimately show ?case
    unfolding r_def [symmetric] m_def [symmetric] by (intro exI [of _ c'] exI [of _ ?k]) (simp only:)
qed

section \<open>Reachable logs\<close>

lemma fresh_record_ok: "record_ok c (fresh_record c ip)"
  by (simp add: record_ok_def fresh_record_def rate_ok_def INVALID_RATE_def)

lemma record_ok_cong: "max_tokens c = max_tokens c' \<Longrightarrow> record_ok c r = record_ok c' r"
  by (simp add: record_ok_def)

lemma get_spec_good:
  assumes "good_log c" and "get_spec c ip c' idx" and "is_client ip"
  shows "good_log c'" and "records c' ! idx \<in> clients (records c')" and "ip_addr (records c' ! idx) = ip"
proof -
  have frame: "c' = c\<lparr>records := records c', slots := slots c', hash_seed := hash_seed c', rng_pos := rng_pos c',
            total_record_drops := total_record_drops c'\<rparr>"
    and wf: "wf_log c'" and idx: "idx < length (records c')"
    using assms(2) by (auto simp: get_spec_def)
  have f: "max_tokens c' = max_tokens c" "token_shift c' = token_shift c" "tokens_per_hit c' = tokens_per_hit c"
    by (subst frame, simp)+
  have "clients (records c') \<subseteq> insert (fresh_record c ip) (clients (records c))"
    using assms(2) unfolding get_spec_def by (auto split: if_splits)
  then have "record_ok c' r" if "r \<in> clients (records c')" for r
    using that assms(1) fresh_record_ok record_ok_cong [OF f(1)] by (auto simp: good_log_def)
  moreover have "params_ok c'"
    using assms(1) by (simp add: good_log_def params_ok_def f)
  ultimately show "good_log c'"
    using wf by (simp add: good_log_def)
  show ip: "ip_addr (records c' ! idx) = ip"
    using assms(2) unfolding get_spec_def by (auto simp: fresh_record_def split: if_splits)
  show "records c' ! idx \<in> clients (records c')"
    using idx ip assms(3) by (intro client_in) simp_all
qed

lemma get_record_not_client: "\<not> is_client ip \<Longrightarrow> get_record_clg c ip = Some (c, None)"
  by (simp add: get_record_clg_def GET_FUEL_def numeral_eq_Suc)

lemma clients_update: "clients (recs[idx := r]) \<subseteq> insert r (clients recs)"
  using set_update_subset_insert [of recs idx r] by (auto simp: clients_def)

lemma good_log_update:
  assumes good: "good_log c" and idx: "idx < length (records c)" and r: "ip_addr r = ip_addr (records c ! idx)" "record_ok c r"
    and c': "records c' = (records c)[idx := r]" "active c' = active c" "slots c' = slots c"
      "max_slots c' = max_slots c" "hash_seed c' = hash_seed c" "rng c' = rng c"
      "max_tokens c' = max_tokens c" "token_shift c' = token_shift c" "tokens_per_hit c' = tokens_per_hit c"
  shows "good_log c'"
proof -
  have "wf_log c'"
    using wf_log_update [OF _ idx r(1) c'(1-6)] good by (simp add: good_log_def)
  moreover have "params_ok c'"
    using good by (simp add: good_log_def params_ok_def c')
  moreover have "clients (records c') \<subseteq> insert r (clients (records c))"
    unfolding c'(1) by (rule clients_update)
  then have "record_ok c' x" if "x \<in> clients (records c')" for x
    using that good r(2) record_ok_cong [OF c'(7)] by (auto simp: good_log_def)
  ultimately show ?thesis
    by (simp add: good_log_def)
qed

lemma log_service_access_Some:
  assumes good: "good_log c" and ip: "is_client ip" and "total_record_drops c < 2 ^ 64 - 1" and "total_hits c s < 2 ^ 64 - 1"
  shows "\<exists>c' idx. log_service_access c s ip now = Some (c', as_i32 idx) \<and> good_log c' \<and> idx < length (records c') \<and>
    ip_addr (records c' ! idx) = ip \<and> records c' ! idx \<in> clients (records c') \<and>
    last_hit (records c' ! idx) s = get_ts_from_timespec c now \<and> total_hits c' = (total_hits c)(s := total_hits c s + 1)"
proof -
  let ?c = "c\<lparr>total_hits := (total_hits c)(s := total_hits c s + 1)\<rparr>"
  have g: "good_log ?c"
    using good by (simp add: good_log_def wf_log_def params_ok_def record_ok_def)
  then obtain c1 idx where c1: "get_record_clg ?c ip = Some (c1, Some idx)" "get_spec ?c ip c1 idx"
    using get_record_Some [OF _ ip, of ?c] assms(3) by (auto simp: good_log_def)
  note S = get_spec_good [OF g c1(2) ip]
  have frame: "c1 = ?c\<lparr>records := records c1, slots := slots c1, hash_seed := hash_seed c1, rng_pos := rng_pos c1,
            total_record_drops := total_record_drops c1\<rparr>" and idx: "idx < length (records c1)"
    using c1(2) by (auto simp: get_spec_def)
  have f: "ts_offset c1 = ts_offset c" "total_hits c1 = total_hits ?c"
    by (subst frame, simp)+
  obtain r' where r': "update_record c1 s idx now = Some (c1\<lparr>records := (records c1)[idx := r']\<rparr>)" "record_ok c1 r'"
      "ip_addr r' = ip_addr (records c1 ! idx)" "last_hit r' = (last_hit (records c1 ! idx))(s := get_ts_from_timespec c1 now)"
    using update_record_Some [OF _ idx refl _ refl, of s now] S(1,2) by (auto simp: good_log_def)
  let ?c2 = "c1\<lparr>records := (records c1)[idx := r']\<rparr>"
  have "good_log ?c2"
    using good_log_update [OF S(1) idx r'(3,2)] by simp
  moreover have "get_ts_from_timespec c1 now = get_ts_from_timespec c now"
    by (simp add: get_ts_from_timespec_def f(1))
  moreover have "log_service_access c s ip now = Some (?c2, as_i32 idx)"
    using c1(1) r'(1) assms(4) by (simp add: log_service_access_def u64_add_def)
  moreover have "records ?c2 ! idx \<in> clients (records ?c2)"
    using idx ip S(3) r'(3) by (intro client_in) simp_all
  ultimately show ?thesis
    using idx r'(3,4) S(3) f(2) by (intro exI [of _ ?c2] exI [of _ idx]) simp
qed

lemma limit_service_rate_good:
  assumes good: "good_log c" and "idx < length (records c)" and "live (records c ! idx)" and "total_drops c s < 2 ^ 64 - 1"
  shows "\<exists>c' d. limit_service_rate c s idx = Some (c', d) \<and> good_log c'"
proof -
  obtain c' r' d where c': "limit_service_rate c s idx = Some (c', d)" "limit_spec c s idx (records c ! idx) c' r' d"
    using limit_service_rate_Some [OF assms(2) refl assms(4)] by blast
  then have frame: "c' = c\<lparr>records := (records c)[idx := r'], leak_rnd := leak_rnd c', leak_bits_left := leak_bits_left c',
           rng_pos := rng_pos c', total_drops := total_drops c'\<rparr>"
    unfolding limit_spec_def by blast
  let ?r = "records c ! idx"
  have ok: "record_ok c ?r"
    using good assms(2,3) by (auto simp: good_log_def clients_def)
  have L: "tokens r' s \<le> tokens ?r s" "\<forall>s'. s' \<noteq> s \<longrightarrow> tokens r' s' = tokens ?r s'"
      "rate r' = rate ?r" "ntp_timeout_rate r' = ntp_timeout_rate ?r" "ip_addr r' = ip_addr ?r"
    using c'(2) by (auto simp: limit_spec_def split: if_splits)
  then have "tokens r' s' \<le> tokens ?r s'" for s'
    by (cases "s' = s") auto
  then have "record_ok c r'"
    using ok L(3,4) unfolding record_ok_def by (metis order_trans)
  then have "good_log c'"
    by (rule good_log_update [OF good assms(2) L(5)]) (subst frame, simp)+
  then show ?thesis
    using c'(1) by blast
qed

lemma access_report_good:
  assumes good: "good_log c" and "get_client_access_report_by_index c i reset mh now = Some (c', rep)"
  shows "good_log c'"
proof (cases "c' = c")
  case False
  then obtain r where r: "index (records c) (nat i) = Some r" "set_record c (nat i) (r\<lparr>hits := (\<lambda>_. 0), drops := (\<lambda>_. 0)\<rparr>) = Some c'" "live r"
    using assms(2) by (auto simp: get_client_access_report_by_index_def live_def Option.bind_eq_Some_conv Let_def split: if_splits)
  let ?r = "r\<lparr>hits := (\<lambda>_. 0), drops := (\<lambda>_. 0)\<rparr>"
  have i: "nat i < length (records c)" "records c ! nat i = r"
    using r(1) by (auto simp: index_def split: if_splits)
  have c': "c' = c\<lparr>records := (records c)[nat i := ?r]\<rparr>"
    using r(2) i(1) by (simp add: set_record_def)
  have "r \<in> clients (records c)"
    using i r(3) by (auto simp: clients_def)
  then have "record_ok c ?r"
    using good by (auto simp: good_log_def record_ok_def)
  then show ?thesis
    using good_log_update [OF good i(1), of ?r c'] i(2) by (simp add: c')
qed (use good in simp)

lemma u64_add_frame: "u64_add a b = Some n \<Longrightarrow> n = a + b"
  by (simp add: u64_add_def split: if_splits)

text \<open>
  The steps of a log: an access, a rate limit decision for a client's record, a report that may reset
  the counters, and the NTP statistics. Fewer than \<open>2^64 - 1\<close> records have been given up.
\<close>

inductive log_reach :: "ClientLogConfig \<Rightarrow> (nat \<Rightarrow> u8) \<Rightarrow> ClientLog \<Rightarrow> bool" for cfg r where
  init: "new_log cfg r = Some c \<Longrightarrow> log_reach cfg r c"
| index: "log_reach cfg r c \<Longrightarrow> total_record_drops c < 2 ^ 64 - 1 \<Longrightarrow> get_client_index c ip = Some (c', i) \<Longrightarrow> log_reach cfg r c'"
| access: "log_reach cfg r c \<Longrightarrow> total_record_drops c < 2 ^ 64 - 1 \<Longrightarrow> log_service_access c s ip now = Some (c', i) \<Longrightarrow> log_reach cfg r c'"
| limit: "log_reach cfg r c \<Longrightarrow> idx < length (records c) \<Longrightarrow> live (records c ! idx) \<Longrightarrow> total_drops c s < 2 ^ 64 - 1 \<Longrightarrow>
     limit_service_rate c s idx = Some (c', d) \<Longrightarrow> log_reach cfg r c'"
| report: "log_reach cfg r c \<Longrightarrow> get_client_access_report_by_index c j reset mh now = Some (c', rep) \<Longrightarrow> log_reach cfg r c'"
| stats: "log_reach cfg r c \<Longrightarrow> update_ntp_stats c auth src1 src2 = Some c' \<Longrightarrow> log_reach cfg r c'"

lemma init_service_Some:
  assumes "params_ok c"
  shows "\<exists>c'. init_service cfg s c = Some c' \<and> params_ok c' \<and> rng c' = rng c \<and> rng_pos c' = rng_pos c \<and>
    total_record_drops c' = total_record_drops c \<and> hash_seed c' = hash_seed c"
proof (cases "config_limit cfg s")
  case None
  then show ?thesis
    using assms by (simp add: init_service_def)
next
  case (Some rl)
  obtain mt tph sh bst where b: "set_bucket_params (rl_interval rl) (burst rl) = Some (mt, tph, sh)" "mt = tph * bst" "mt < 2 ^ 16"
      "1 \<le> tph" "clamp_i32 1 (burst rl) 255 \<le> int bst" "-15 \<le> sh" "sh \<le> 8"
    using set_bucket_params_Some [OF refl] by blast
  have "1 \<le> bst"
    using b(5) by (auto simp: clamp_i32_def)
  then have "tph \<le> mt"
    using b(2) by simp
  then show ?thesis
    using assms Some b(1,3,6,7) by (simp add: init_service_def params_ok_def)
qed

lemma new_log_good:
  assumes "rng_live r" and "\<not> no_client_log cfg"
  shows "\<exists>c. new_log cfg r = Some c \<and> good_log c \<and> clients (records c) = {} \<and> total_record_drops c = 0"
proof -
  have "params_ok (blank_log r)"
    by (simp add: params_ok_def blank_log_def)
  then obtain c1 where c1: "init_service cfg Ntp (blank_log r) = Some c1" "params_ok c1" "rng c1 = r"
      "total_record_drops c1 = 0" "hash_seed c1 = 0"
    using init_service_Some [of "blank_log r"] by (auto simp: blank_log_def)
  then obtain c2 where c2: "init_service cfg Ntske c1 = Some c2" "params_ok c2" "rng c2 = r" "total_record_drops c2 = 0" "hash_seed c2 = 0"
    using init_service_Some [of c1] by metis
  then obtain c3 where c3: "init_service cfg Cmdmon c2 = Some c3" "params_ok c3" "rng c3 = r" "total_record_drops c3 = 0" "hash_seed c3 = 0"
    using init_service_Some [of c2] by metis
  define mx where "mx = min (max (client_log_limit cfg div ((RECORD_SIZE + NTPTS_SIZE) * SLOT_SIZE * 3 div 2)) MIN_SLOTS) MAX_SLOTS"
  have mx: "1 \<le> mx" "mx \<le> MAX_SLOTS"
    by (auto simp: mx_def MIN_SLOTS_def MAX_SLOTS_def)
  let ?c4 = "c3\<lparr>active := True, max_slots := mx, slots := 0, records := []\<rparr>"
  let ?c5 = "?c4\<lparr>slots := 1, records := replicate SLOT_SIZE empty_record\<rparr>"
  have ex: "expand_hashtable get_record_clg ?c4 = Some (True, ?c5)"
    by (simp add: expand_hashtable_def u32_mul_def MIN_SLOTS_def SLOT_SIZE_def)
  let ?c6 = "?c5\<lparr>rng_pos := rng_pos c3 + 4, ts_offset := word_at r (rng_pos c3) mod 62500000,
    ntp_ts_map := (ntp_ts_map c3)\<lparr>max_size := 2 ^ (slots2_loop mx 0 + 4)\<rparr>\<rparr>"
  have "new_log cfg r = Some ?c6"
    using c1(1) c2(1) c3(1,3) assms(2) ex by (simp add: new_log_def mx_def [symmetric] random_u32_def Let_def)
  moreover have "table_ok 0 1 (replicate SLOT_SIZE empty_record)"
    using table_ok_empty [of 1 0] by simp
  then have "good_log ?c6"
    using c3(2,3,5) assms(1) mx by (auto simp: good_log_def wf_log_def params_ok_def clients_def)
  ultimately show ?thesis
    using c3(4) by (intro exI [of _ ?c6]) (simp add: clients_def)
qed

lemma log_reach_good:
  assumes "log_reach cfg r c" and "rng_live r" and "\<not> no_client_log cfg"
  shows "good_log c"
  using assms(1)
proof (induction rule: log_reach.induct)
  case (init c)
  then show ?case
    using new_log_good [OF assms(2,3)] by auto
next
  case (index c ip c' i)
  then show ?case
    using get_record_Some [of c ip] get_record_not_client [of ip c] get_spec_good(1) [of c ip]
    by (cases "is_client ip") (fastforce simp: get_client_index_def good_log_def)+
next
  case (access c s ip now c' i)
  have h: "total_hits c s < 2 ^ 64 - 1"
    using access.hyps(3) by (auto simp: log_service_access_def u64_add_def split: if_splits)
  show ?case
  proof (cases "is_client ip")
    case True
    then show ?thesis
      using log_service_access_Some [OF access.IH True access.hyps(2) h, of now] access.hyps(3) by auto
  next
    case False
    then have "c' = c\<lparr>total_hits := (total_hits c)(s := total_hits c s + 1)\<rparr>"
      using access.hyps(3) h by (simp add: log_service_access_def u64_add_def get_record_not_client)
    then show ?thesis
      using access.IH by (simp add: good_log_def wf_log_def params_ok_def record_ok_def)
  qed
next
  case (limit c idx s c' d)
  then show ?case
    using limit_service_rate_good [OF limit.IH limit.hyps(2-4)] by auto
next
  case (report c j reset mh now c' rep)
  then show ?case
    using access_report_good by blast
next
  case (stats c auth src1 src2 c')
  then obtain a n m where "c' = c\<lparr>total_ntp_auth_hits := a, total_ntp_rx_timestamps := n, total_ntp_tx_timestamps := m\<rparr>"
    by (auto simp: update_ntp_stats_def Option.bind_eq_Some_conv)
  then show ?case
    using stats.IH by (simp add: good_log_def wf_log_def params_ok_def record_ok_def)
qed

section \<open>Properties\<close>

text \<open>C24. Looking up a client in a well-formed log always returns: a known client gets its record back
  unchanged, also when it is reached after the table has grown, and a new one gets a fresh record. No
  other client is lost, except that at most one is given up, and counted, once the table is at its
  maximum size.\<close>

theorem get_record_correct:
  assumes "wf_log c" and "is_client ip" and "total_record_drops c < 2 ^ 64 - 1"
  shows "\<exists>c' idx. get_record_clg c ip = Some (c', Some idx) \<and> wf_log c' \<and> idx < length (records c') \<and>
    ip_addr (records c' ! idx) = ip \<and>
    (if \<exists>r\<in>clients (records c). ip_addr r = ip
     then clients (records c') = clients (records c) \<and> total_record_drops c' = total_record_drops c
     else records c' ! idx = fresh_record c ip \<and>
       (clients (records c') = insert (fresh_record c ip) (clients (records c)) \<and> total_record_drops c' = total_record_drops c \<or>
        (\<exists>e\<in>clients (records c). clients (records c') = insert (fresh_record c ip) (clients (records c) - {e})) \<and>
          max_slots c < 2 * slots c' \<and> total_record_drops c' = total_record_drops c + 1))"
proof -
  obtain c' idx where c': "get_record_clg c ip = Some (c', Some idx)" "get_spec c ip c' idx"
    using get_record_Some [OF assms] by blast
  have "ip_addr (records c' ! idx) = ip"
    using c'(2) unfolding get_spec_def by (auto simp: fresh_record_def split: if_splits)
  moreover have "wf_log c'" "idx < length (records c')"
    using c'(2) by (simp_all add: get_spec_def)
  moreover note c'(2) [unfolded get_spec_def, THEN conjunct2, THEN conjunct2, THEN conjunct2, THEN conjunct2]
  ultimately show ?thesis
    using c'(1) by (intro exI [of _ c'] exI [of _ idx]) (auto split: if_splits)
qed


text \<open>C26. For every configured interval and burst, the bucket fits its 16-bit fields without truncation, holds
  at least the configured burst, a hit costs at least one token, and tokens per hit and token shift
  together are exactly the configured interval in sixteenths of a second.\<close>

theorem set_bucket_params_fits:
  "\<exists>mt tph sh bst. set_bucket_params interval bst0 = Some (mt, tph, sh) \<and> mt = tph * bst \<and> mt < 2 ^ 16 \<and>
     1 \<le> tph \<and> clamp_i32 MIN_LIMIT_BURST bst0 MAX_LIMIT_BURST \<le> int bst \<and> -15 \<le> sh \<and> sh \<le> 8 \<and>
     (if 0 \<le> sh then tph * 2 ^ nat sh = 2 ^ nat (4 + clamp_i32 MIN_LIMIT_INTERVAL interval MAX_LIMIT_INTERVAL)
      else tph = 1 \<and> sh = 4 + clamp_i32 MIN_LIMIT_INTERVAL interval MAX_LIMIT_INTERVAL \<and> 2 ^ nat (- sh) \<le> bst)"
proof -
  have vals: "MIN_LIMIT_INTERVAL = -19" "MAX_LIMIT_INTERVAL = 12" "MIN_LIMIT_BURST = 1" "MAX_LIMIT_BURST = 255"
    by (simp_all add: clientlog_consts)
  show ?thesis
    unfolding vals by (rule set_bucket_params_Some [OF refl])
qed

text \<open>C27. Every log reachable from a configuration with client logging keeps its types: the table is well
  formed, no client has more tokens than its bucket holds, every rate estimate stays in its range, and
  logging the next access of any client succeeds and returns the index of that client's record.\<close>

theorem log_reach_safe:
  assumes "log_reach cfg r c" and "rng_live r" and "\<not> no_client_log cfg" and "is_client ip"
    and "total_record_drops c < 2 ^ 64 - 1" and "total_hits c s < 2 ^ 64 - 1"
  shows "wf_log c \<and> (\<forall>x\<in>clients (records c). record_ok c x) \<and>
    (\<exists>c' idx. log_service_access c s ip now = Some (c', as_i32 idx) \<and> idx < length (records c') \<and> ip_addr (records c' ! idx) = ip)"
proof -
  have good: "good_log c"
    using log_reach_good [OF assms(1-3)] .
  then show ?thesis
    using log_service_access_Some [OF good assms(4-6), of now] by (auto simp: good_log_def)
qed

text \<open>C28. Drawing the hash seed ends exactly when the random source gives a word that is not zero, or the
  seed was drawn before; then the seed is not zero.\<close>

theorem draw_seed_terminates_iff:
  "(\<exists>c'. draw_seed c = Some c' \<and> hash_seed c' \<noteq> 0) \<longleftrightarrow> hash_seed c \<noteq> 0 \<or> (\<exists>k. word_at (rng c) (rng_pos c + 4 * k) \<noteq> 0)"
proof
  have "hash_seed c \<noteq> 0 \<or> (\<exists>k. word_at (rng c) (rng_pos c + 4 * k) \<noteq> 0)" if "draw_seed c = Some c'" for c'
  proof (rule draw_seed.raw_induct
      [where P = "\<lambda>c y. hash_seed c \<noteq> 0 \<or> (\<exists>k. word_at (rng c) (rng_pos c + 4 * k) \<noteq> 0)", OF _ that])
    fix f c y
    assume IH: "\<And>c y. f c = Some y \<Longrightarrow> hash_seed c \<noteq> 0 \<or> (\<exists>k. word_at (rng c) (rng_pos c + 4 * k) \<noteq> 0)"
      and run: "(if hash_seed c = 0 then let (v, c) = random_u32 c in f (c\<lparr>hash_seed := v\<rparr>) else Some c) = Some y"
    let ?c = "c\<lparr>rng_pos := rng_pos c + 4, hash_seed := word_at (rng c) (rng_pos c)\<rparr>"
    show "hash_seed c \<noteq> 0 \<or> (\<exists>k. word_at (rng c) (rng_pos c + 4 * k) \<noteq> 0)"
    proof (cases "hash_seed c = 0")
      case True
      then have "f ?c = Some y"
        using run by (simp add: random_u32_def)
      then have "word_at (rng c) (rng_pos c + 4 * 0) \<noteq> 0 \<or> (\<exists>k. word_at (rng c) (rng_pos c + 4 * Suc k) \<noteq> 0)"
        using IH [of ?c y] by (simp add: algebra_simps)
      then show ?thesis
        by blast
    qed simp
  qed
  then show "\<exists>c'. draw_seed c = Some c' \<and> hash_seed c' \<noteq> 0 \<Longrightarrow> hash_seed c \<noteq> 0 \<or> (\<exists>k. word_at (rng c) (rng_pos c + 4 * k) \<noteq> 0)"
    by blast
next
  assume "hash_seed c \<noteq> 0 \<or> (\<exists>k. word_at (rng c) (rng_pos c + 4 * k) \<noteq> 0)"
  then obtain sd p where "sd \<noteq> 0" "draw_seed c = Some (c\<lparr>hash_seed := sd, rng_pos := p\<rparr>)"
    using draw_seed_live by blast
  then show "\<exists>c'. draw_seed c = Some c' \<and> hash_seed c' \<noteq> 0"
    by simp
qed


section \<open>Witnesses\<close>

definition sample_rng :: "nat \<Rightarrow> u8" where
  "sample_rng _ = 7"

definition sample_config :: ClientLogConfig where
  "sample_config = \<lparr>ntp_ratelimit = Some \<lparr>rl_interval = 3, burst = 8, rl_leak_rate = 2\<rparr>, nts_ratelimit = None,
     cmd_ratelimit = None, no_client_log = False, client_log_limit = 524288\<rparr>"

lemma sample_rng_live: "rng_live sample_rng"
proof -
  have "word_at sample_rng p \<noteq> 0" for p
    unfolding word_at_def sample_rng_def by code_simp
  then show ?thesis
    by (simp add: rng_live_def)
qed

theorem draw_seed_terminates_iff_witness:
  "\<exists>c'. draw_seed (blank_log sample_rng) = Some c' \<and> hash_seed c' \<noteq> 0"
proof -
  have "word_at (rng (blank_log sample_rng)) (rng_pos (blank_log sample_rng) + 4 * 0) \<noteq> 0"
    unfolding word_at_def sample_rng_def blank_log_def by code_simp
  then show ?thesis
    using draw_seed_terminates_iff [of "blank_log sample_rng"] by blast
qed

lemma sample_log:
  "\<exists>c. new_log sample_config sample_rng = Some c \<and> good_log c \<and> clients (records c) = {} \<and> total_record_drops c = 0"
  by (rule new_log_good) (simp_all add: sample_rng_live sample_config_def)

theorem get_record_correct_witness:
  "\<exists>c c' idx. wf_log c \<and> get_record_clg c (V4 0x0A000001) = Some (c', Some idx) \<and> records c' ! idx = fresh_record c (V4 0x0A000001)"
proof -
  obtain c where c: "good_log c" "clients (records c) = {}" "total_record_drops c = 0"
    using sample_log by blast
  have wf: "wf_log c" "is_client (V4 0x0A000001)" "total_record_drops c < 2 ^ 64 - 1"
    using c by (simp_all add: good_log_def is_client_def)
  show ?thesis
    using get_record_correct [OF wf] wf(1) c(2) by auto
qed

definition bucket_log :: ClientLog where
  "bucket_log = (blank_log sample_rng)\<lparr>records := [(fresh_record (blank_log sample_rng) (V4 1))\<lparr>tokens := (\<lambda>_. 1024)\<rparr>],
     max_tokens := (\<lambda>_. 1024), tokens_per_hit := (\<lambda>_. 128), leak_rate := (\<lambda>_. 2)\<rparr>"


theorem log_reach_safe_witness:
  "\<exists>c. log_reach sample_config sample_rng c \<and> wf_log c \<and>
     (\<exists>c' idx. log_service_access c Ntp (V4 0x0A000001) \<lparr>tv_sec = 100, tv_nsec = 0\<rparr> = Some (c', as_i32 idx) \<and>
        ip_addr (records c' ! idx) = V4 0x0A000001)"
proof -
  obtain c where c: "new_log sample_config sample_rng = Some c" "total_record_drops c = 0"
    using sample_log by blast
  have h: "total_hits c Ntp = 0"
  proof -
    have "total_hits c' = total_hits c0" if "init_service cfg s c0 = Some c'" for cfg s c0 c'
      using that by (auto simp: init_service_def Option.bind_eq_Some_conv split: option.splits)
    then show ?thesis
      using c(1) by (auto simp: new_log_def sample_config_def expand_hashtable_def random_u32_def u32_mul_def blank_log_def
          Option.bind_eq_Some_conv Let_def MIN_SLOTS_def SLOT_SIZE_def)
  qed
  have "log_reach sample_config sample_rng c"
    using c(1) by (rule log_reach.init)
  then show ?thesis
    using log_reach_safe [of sample_config sample_rng c "V4 0x0A000001" Ntp "\<lparr>tv_sec = 100, tv_nsec = 0\<rparr>"] sample_rng_live c(2) h
    by (auto simp: sample_config_def is_client_def)
qed


end
