(* ===== verification/DynArray.thy ===== *)
theory DynArray
  imports Prelude
begin

text \<open>
  The growable array of fixed-size elements, \<open>crates/chrony-rs-core/src/array.rs\<close>: a flat byte
  vector with an element size, a count of elements in use and a capacity that follows the policy of
  \<open>realloc_array\<close>. The array refines a list of elements, for every operation, with the capacity kept
  between the count and twice the count. \<open>usize\<close> has 64 bits.
\<close>

section \<open>The array\<close>

record Array =
  data :: bytes
  elem_size :: nat
  used :: nat
  allocated :: nat

definition new_array :: "nat \<Rightarrow> Array run" where
  "new_array es =
     (if 0 < es then ret \<lparr>data = [], elem_size = es, used = 0, allocated = 0\<rparr> else panic)"

text \<open>The doubling loop of \<open>realloc_array\<close>.\<close>

function grow_loop :: "nat \<Rightarrow> nat \<Rightarrow> nat run" where
  "grow_loop alloc min_size =
     (if alloc < min_size then do {
        a \<leftarrow> (if alloc \<noteq> 0 then u64_mul 2 alloc else ret 1);
        grow_loop a min_size
      } else ret alloc)"
  by pat_completeness auto
termination
  by (relation "measure (\<lambda>(alloc, min_size). min_size - alloc)") (auto simp: u64_mul_def split: if_splits)

declare grow_loop.simps [simp del]

text \<open>\<open>Vec::resize(n, 0)\<close>: a vector never holds more than \<open>isize::MAX\<close> bytes.\<close>

definition resize :: "bytes \<Rightarrow> nat \<Rightarrow> bytes run" where
  "resize d n = (if n < 2 ^ 63 then ret (take n d @ replicate (n - length d) 0) else panic)"

definition realloc_array :: "Array \<Rightarrow> nat \<Rightarrow> Array run" where
  "realloc_array a min_size = do {
     keep \<leftarrow> (if min_size \<le> allocated a then do { d \<leftarrow> u64_mul 2 min_size; ret (allocated a \<le> d) }
             else ret False);
     if keep then ret a
     else do {
       n \<leftarrow> (if allocated a < min_size then grow_loop (allocated a) min_size else ret min_size);
       len \<leftarrow> u64_mul n (elem_size a);
       d \<leftarrow> resize (data a) len;
       ret (a\<lparr>data := d, allocated := n\<rparr>)
     }
   }"

text \<open>A mutable slice into the array is its offset; the slice has \<open>elem_size\<close> bytes.\<close>

definition get_new_element :: "Array \<Rightarrow> (Array \<times> nat) run" where
  "get_new_element a = do {
     u \<leftarrow> u64_add (used a) 1;
     a \<leftarrow> realloc_array (a\<lparr>used := u\<rparr>) u;
     off \<leftarrow> u64_mul (used a - 1) (elem_size a);
     e \<leftarrow> u64_add off (elem_size a);
     s \<leftarrow> slice (data a) off e;
     ret (a, off)
   }"

definition get_element :: "Array \<Rightarrow> nat \<Rightarrow> bytes run" where
  "get_element a i =
     (if i < used a then do {
        off \<leftarrow> u64_mul i (elem_size a);
        e \<leftarrow> u64_add off (elem_size a);
        slice (data a) off e
      } else panic)"

text \<open>The mutable slice is again given by its offset.\<close>

definition get_element_mut :: "Array \<Rightarrow> nat \<Rightarrow> nat run" where
  "get_element_mut a i =
     (if i < used a then do {
        off \<leftarrow> u64_mul i (elem_size a);
        e \<leftarrow> u64_add off (elem_size a);
        s \<leftarrow> slice (data a) off e;
        ret off
      } else panic)"

definition get_elements :: "Array \<Rightarrow> bytes run" where
  "get_elements a = do { e \<leftarrow> u64_mul (used a) (elem_size a); slice (data a) 0 e }"

definition append_element :: "Array \<Rightarrow> bytes \<Rightarrow> Array run" where
  "append_element a element =
     (if length element = elem_size a then do {
        (a, off) \<leftarrow> get_new_element a;
        d \<leftarrow> put (data a) off element;
        ret (a\<lparr>data := d\<rparr>)
      } else panic)"

definition remove_element :: "Array \<Rightarrow> nat \<Rightarrow> Array run" where
  "remove_element a i =
     (if i < used a then do {
        let es = elem_size a;
        a \<leftarrow> (if i < used a - 1 then do {
            from \<leftarrow> u64_mul (i + 1) es;
            upto \<leftarrow> u64_mul (used a) es;
            dest \<leftarrow> u64_mul i es;
            s \<leftarrow> slice (data a) from upto;
            d \<leftarrow> put (data a) dest s;
            ret (a\<lparr>data := d\<rparr>)
          } else ret a);
        let a = a\<lparr>used := used a - 1\<rparr>;
        realloc_array a (used a)
      } else panic)"

definition set_size :: "Array \<Rightarrow> nat \<Rightarrow> Array run" where
  "set_size a n = do { a \<leftarrow> realloc_array a n; ret (a\<lparr>used := n\<rparr>) }"

section \<open>Elements and the invariant\<close>

text \<open>The first \<open>k\<close> elements of a byte vector.\<close>

definition chunk :: "nat \<Rightarrow> bytes \<Rightarrow> nat \<Rightarrow> bytes" where
  "chunk es d i = take es (drop (i * es) d)"

definition chunks :: "nat \<Rightarrow> nat \<Rightarrow> bytes \<Rightarrow> bytes list" where
  "chunks es k d = map (chunk es d) [0..<k]"

definition elements :: "Array \<Rightarrow> bytes list" where
  "elements a = chunks (elem_size a) (used a) (data a)"

text \<open>The storage is as long as the capacity says, and a vector can hold it.\<close>

definition storage_ok :: "Array \<Rightarrow> bool" where
  "storage_ok a \<longleftrightarrow> 0 < elem_size a \<and> length (data a) = allocated a * elem_size a \<and> length (data a) < 2 ^ 63"

definition wf_array :: "Array \<Rightarrow> bool" where
  "wf_array a \<longleftrightarrow> storage_ok a \<and> used a \<le> allocated a \<and> allocated a \<le> 2 * used a"

text \<open>The array can hold \<open>n\<close> elements: twice their bytes stay below \<open>isize::MAX\<close>.\<close>

definition fits :: "Array \<Rightarrow> nat \<Rightarrow> bool" where
  "fits a n \<longleftrightarrow> 2 * n * elem_size a < 2 ^ 63"

lemma length_chunks [simp]: "length (chunks es k d) = k"
  by (simp add: chunks_def)

lemma chunks_Suc: "chunks es (Suc k) d = chunks es k d @ [chunk es d k]"
  by (simp add: chunks_def)

lemma chunks_0 [simp]: "chunks es 0 d = []"
  by (simp add: chunks_def)

lemma nth_chunks [simp]: "i < k \<Longrightarrow> chunks es k d ! i = chunk es d i"
  by (simp add: chunks_def)

lemma take_chunks [simp]: "j \<le> k \<Longrightarrow> take j (chunks es k d) = chunks es j d"
  by (simp add: chunks_def take_map)

lemma Suc_mult_le: "i < k \<Longrightarrow> i * es + es \<le> k * (es :: nat)"
  by (metis Suc_leI add.commute mult_Suc mult_le_mono1)

lemma mult_split: "i < k \<Longrightarrow> (i + 1) * es + (k - 1 - i) * es = k * (es :: nat)"
  by (metis Suc_eq_plus1 Suc_leI add_mult_distrib diff_diff_left le_add_diff_inverse plus_1_eq_Suc)

lemma chunk_take: "i < k \<Longrightarrow> k * es \<le> n \<Longrightarrow> chunk es (take n d) i = chunk es d i"
  using Suc_mult_le [of i k es] by (simp add: chunk_def drop_take)

text \<open>Vectors with the same first \<open>k * es\<close> bytes have the same first \<open>k\<close> elements.\<close>

lemma chunks_cong:
  assumes "take (k * es) d = take (k * es) d'"
  shows "chunks es k d = chunks es k d'"
proof -
  have "chunk es d i = chunk es d' i" if "i < k" for i
    using chunk_take [OF that order_refl, of es d] chunk_take [OF that order_refl, of es d'] assms by simp
  then show ?thesis
    by (simp add: chunks_def)
qed

lemma concat_chunks: "k * es \<le> length d \<Longrightarrow> concat (chunks es k d) = take (k * es) d"
proof (induction k)
  case (Suc k)
  then show ?case
    by (simp add: chunks_Suc chunk_def add.commute [of es] take_add)
qed simp

section \<open>Reallocation\<close>

lemma fits_mono: "fits a n \<Longrightarrow> m \<le> n \<Longrightarrow> fits a m"
  unfolding fits_def by (meson le_less_trans mult_le_mono1 mult_le_mono2)

text \<open>The loop ends with the capacity between the wanted size and twice that size.\<close>

lemma grow_loop_Some:
  assumes "alloc < min_size" and "2 * min_size < 2 ^ 64"
  shows "\<exists>n. grow_loop alloc min_size = Some n \<and> min_size \<le> n \<and> n < 2 * min_size"
  using assms
proof (induction alloc min_size rule: grow_loop.induct)
  case (1 alloc min_size)
  let ?a = "if alloc \<noteq> 0 then 2 * alloc else 1"
  have step: "(if alloc \<noteq> 0 then u64_mul 2 alloc else ret 1) = Some ?a"
    using 1(2,3) by (simp add: u64_mul_Some)
  have run: "grow_loop alloc min_size = grow_loop ?a min_size"
    using 1(2) step by (subst grow_loop.simps) simp
  show ?case
  proof (cases "?a < min_size")
    case True
    from 1(1) [OF 1(2) step True 1(3)] show ?thesis
      by (simp only: run)
  next
    case False
    then have "grow_loop ?a min_size = Some ?a"
      by (subst grow_loop.simps) simp
    then show ?thesis
      using False 1(2) by (auto simp: run)
  qed
qed

lemma fits_elem: "fits a n \<Longrightarrow> 0 < elem_size a \<Longrightarrow> 2 * n < 2 ^ 63"
  unfolding fits_def by (metis Suc_leI le_less_trans mult.right_neutral mult_le_mono2 One_nat_def)

lemma resize_Some:
  assumes "n < 2 ^ 63" and "k \<le> length d" and "k \<le> n"
  shows "\<exists>d'. resize d n = Some d' \<and> length d' = n \<and> take k d' = take k d"
  using assms by (simp add: resize_def min_def)

text \<open>Reallocation for \<open>n\<close> elements keeps every element that is both in the old and in the wanted range.\<close>

lemma realloc_array_Some:
  assumes ok: "storage_ok a" and fits: "fits a n" and k: "k \<le> allocated a" "k \<le> n"
  shows "\<exists>d m. realloc_array a n = Some (a\<lparr>data := d, allocated := m\<rparr>) \<and> n \<le> m \<and> m \<le> 2 * n \<and>
    length d = m * elem_size a \<and> length d < 2 ^ 63 \<and> chunks (elem_size a) k d = chunks (elem_size a) k (data a)"
proof -
  let ?es = "elem_size a"
  have es: "0 < ?es" and len: "length (data a) = allocated a * ?es" "length (data a) < 2 ^ 63"
    using ok by (simp_all add: storage_ok_def)
  have small: "2 * n < 2 ^ 63"
    using fits_elem [OF fits es] .
  show ?thesis
  proof (cases "n \<le> allocated a \<and> allocated a \<le> 2 * n")
    case True
    then have "realloc_array a n = Some (a\<lparr>data := data a, allocated := allocated a\<rparr>)"
      using small by (simp add: realloc_array_def u64_mul_Some)
    then show ?thesis
      using True len by blast
  next
    case False
    obtain m where m: "(if allocated a < n then grow_loop (allocated a) n else ret n) = Some m" "n \<le> m" "m \<le> 2 * n"
      using grow_loop_Some [of "allocated a" n] small by (cases "allocated a < n") force+
    have bytes: "m * ?es < 2 ^ 63"
      using m(3) fits unfolding fits_def by (meson le_less_trans mult_le_mono1)
    obtain d where d: "resize (data a) (m * ?es) = Some d" "length d = m * ?es" "take (k * ?es) d = take (k * ?es) (data a)"
      using resize_Some [OF bytes, of "k * ?es" "data a"] len k m(2) by auto
    have "(if n \<le> allocated a then do { x \<leftarrow> u64_mul 2 n; ret (allocated a \<le> x) } else ret False) = Some False"
      using False small by (auto simp: u64_mul_Some)
    then have "realloc_array a n = Some (a\<lparr>data := d, allocated := m\<rparr>)"
      using m(1) d(1) bytes by (simp add: realloc_array_def u64_mul_Some del: if_split_asm)
    then show ?thesis
      using m(2,3) d(2) bytes chunks_cong [OF d(3)] by (intro exI [of _ d] exI [of _ m]) simp
  qed
qed

section \<open>The operations on elements\<close>

lemma wf_array_used: "wf_array a \<Longrightarrow> used a * elem_size a \<le> length (data a)"
  by (auto simp: wf_array_def storage_ok_def)

lemma less_exp_63: "(2 :: nat) ^ 63 < 2 ^ 64"
  by simp

lemma wf_array_small: "wf_array a \<Longrightarrow> length (data a) < 2 ^ 63"
  by (simp add: wf_array_def storage_ok_def)

lemma wf_array_offset:
  assumes "wf_array a" and "i < used a"
  shows "i * elem_size a + elem_size a \<le> length (data a)" "i * elem_size a + elem_size a < 2 ^ 63"
    "i * elem_size a < 2 ^ 64"
  using Suc_mult_le [OF assms(2), of "elem_size a"] wf_array_used [OF assms(1)] wf_array_small [OF assms(1)]
    less_exp_63
  by linarith+

lemma get_element_nth: "wf_array a \<Longrightarrow> i < used a \<Longrightarrow> get_element a i = Some (elements a ! i)"
  using wf_array_offset [of a i]
  by (simp add: get_element_def elements_def u64_mul_Some u64_add_Some slice_def chunk_def)

lemma get_elements_concat: "wf_array a \<Longrightarrow> get_elements a = Some (concat (elements a))"
  using wf_array_used [of a] wf_array_small [of a]
  by (simp add: get_elements_def elements_def concat_chunks u64_mul_Some slice_def)

lemma new_array_empty: "0 < es \<Longrightarrow> \<exists>a. new_array es = Some a \<and> wf_array a \<and> elements a = [] \<and> elem_size a = es"
  by (simp add: new_array_def wf_array_def storage_ok_def elements_def)

lemma get_new_element_Some:
  assumes wf: "wf_array a" and fits: "fits a (Suc (used a))"
  shows "\<exists>a'. get_new_element a = Some (a', used a * elem_size a) \<and> wf_array a' \<and> used a' = Suc (used a) \<and>
    elem_size a' = elem_size a \<and> chunks (elem_size a) (used a) (data a') = elements a"
proof -
  let ?b = "a\<lparr>used := Suc (used a)\<rparr>"
  have "storage_ok ?b" "fits ?b (Suc (used a))" "used a \<le> allocated ?b" "used a \<le> Suc (used a)"
    using wf fits by (simp_all add: wf_array_def storage_ok_def fits_def)
  from realloc_array_Some [OF this] obtain d m where
    b: "realloc_array ?b (Suc (used a)) = Some (?b\<lparr>data := d, allocated := m\<rparr>)" "Suc (used a) \<le> m" "m \<le> 2 * Suc (used a)"
      "length d = m * elem_size a" "length d < 2 ^ 63" "chunks (elem_size a) (used a) d = chunks (elem_size a) (used a) (data a)"
    by auto
  let ?a = "?b\<lparr>data := d, allocated := m\<rparr>"
  have wf': "wf_array ?a"
    using b(2-5) wf by (simp add: wf_array_def storage_ok_def)
  have "used a + 1 < 2 ^ 64"
    using fits_elem [OF fits] wf by (simp add: wf_array_def storage_ok_def)
  then have "get_new_element a = Some (?a, used a * elem_size a)"
    using wf_array_offset [OF wf', of "used a"] b(1)
    by (simp add: get_new_element_def u64_add_Some u64_mul_Some slice_def)
  with wf' b(6) show ?thesis
    by (intro exI [of _ ?a]) (simp add: elements_def)
qed

lemma append_element_Some:
  assumes wf: "wf_array a" and fits: "fits a (Suc (used a))" and len: "length e = elem_size a"
  shows "\<exists>a'. append_element a e = Some a' \<and> wf_array a' \<and> elem_size a' = elem_size a \<and> elements a' = elements a @ [e]"
proof -
  obtain b where b: "get_new_element a = Some (b, used a * elem_size a)" "wf_array b" "used b = Suc (used a)"
      "elem_size b = elem_size a" "chunks (elem_size a) (used a) (data b) = elements a"
    using get_new_element_Some [OF wf fits] by blast
  have room: "used a * elem_size a + length e \<le> length (data b)"
    using wf_array_offset(1) [OF b(2), of "used a"] b(3,4) len by simp
  let ?d = "take (used a * elem_size a) (data b) @ e @ drop (used a * elem_size a + length e) (data b)"
  have "append_element a e = Some (b\<lparr>data := ?d\<rparr>)"
    using b(1) len room by (simp add: append_element_def put_def)
  moreover have "wf_array (b\<lparr>data := ?d\<rparr>)"
    using b(2) room by (simp add: wf_array_def storage_ok_def)
  moreover have "chunks (elem_size a) (used a) ?d = elements a" "chunk (elem_size a) ?d (used a) = e"
    using chunks_cong [of "used a" "elem_size a" ?d "data b"] b(5) room len by (simp_all add: chunk_def)
  ultimately show ?thesis
    by (simp add: elements_def b(3,4) chunks_Suc)
qed

text \<open>Moving the tail of the storage down by one element removes the element from the list.\<close>

lemma chunks_shift:
  assumes "k * es \<le> length d" and "i < k"
  shows "chunks es (k - 1) (take (i * es) d @ take ((k - 1 - i) * es) (drop ((i + 1) * es) d) @ r) =
    take i (chunks es k d) @ drop (Suc i) (chunks es k d)"
proof (rule nth_equalityI)
  let ?m = "take ((k - 1 - i) * es) (drop ((i + 1) * es) d)"
  fix j assume "j < length (chunks es (k - 1) (take (i * es) d @ ?m @ r))"
  then have j: "j < k - 1"
    by simp
  have i: "i * es \<le> length d"
    using Suc_mult_le [OF assms(2), of es] assms(1) by linarith
  show "chunks es (k - 1) (take (i * es) d @ ?m @ r) ! j = (take i (chunks es k d) @ drop (Suc i) (chunks es k d)) ! j"
  proof (cases "j < i")
    case True
    then show ?thesis
      using chunk_take [OF True order_refl, of es d] Suc_mult_le [OF True, of es] i j assms(2)
      by (simp add: chunk_def nth_append)
  next
    case False
    then have ji: "j - i < k - 1 - i" "Suc i + (j - i) = Suc j"
      using j by simp_all
    have len: "length ?m = (k - 1 - i) * es"
      using mult_split [OF assms(2), of es] assms(1) by simp
    have "chunk es (take (i * es) d @ ?m @ r) j = chunk es (?m @ r) (j - i)"
      using False i by (simp add: chunk_def diff_mult_distrib)
    also have "\<dots> = chunk es ?m (j - i)"
      using Suc_mult_le [OF ji(1), of es] len by (simp add: chunk_def del: length_take)
    also have "\<dots> = chunk es (drop ((i + 1) * es) d) (j - i)"
      by (rule chunk_take [OF ji(1) order_refl])
    also have "\<dots> = chunk es d (Suc j)"
      using False by (simp add: chunk_def add.commute flip: add_mult_distrib mult_Suc)
    finally show ?thesis
      using False j assms(2) ji(2) by (simp add: nth_append)
  qed
qed (use assms(2) in simp)

text \<open>The move of the tail, as the source computes its offsets.\<close>

lemma move_tail_Some:
  assumes wf: "wf_array a" and i: "i < used a"
  shows "\<exists>d. (if i < used a - 1 then do {
      from \<leftarrow> u64_mul (i + 1) (elem_size a); upto \<leftarrow> u64_mul (used a) (elem_size a); dest \<leftarrow> u64_mul i (elem_size a);
      s \<leftarrow> slice (data a) from upto; d \<leftarrow> put (data a) dest s; ret (a\<lparr>data := d\<rparr>) } else ret a) = Some (a\<lparr>data := d\<rparr>) \<and>
    length d = length (data a) \<and>
    chunks (elem_size a) (used a - 1) d = take i (elements a) @ drop (Suc i) (elements a)"
proof (cases "i < used a - 1")
  case True
  let ?es = "elem_size a" and ?n = "used a - 1"
  let ?s = "take ((?n - i) * ?es) (drop ((i + 1) * ?es) (data a))"
  let ?d = "take (i * ?es) (data a) @ ?s @ drop (?n * ?es) (data a)"
  have used: "used a * ?es \<le> length (data a)" "used a * ?es < 2 ^ 64"
    using wf_array_used [OF wf] wf_array_small [OF wf] by simp_all
  have tail: "(i + 1) * ?es + (?n - i) * ?es = used a * ?es" and sum: "i * ?es + (?n - i) * ?es = ?n * ?es"
    and le: "i * ?es \<le> used a * ?es" "?n * ?es \<le> used a * ?es"
    using i mult_split [OF i, of ?es] by (simp_all flip: add_mult_distrib)
  have muls: "u64_mul (i + 1) ?es = Some ((i + 1) * ?es)" "u64_mul (used a) ?es = Some (used a * ?es)" "u64_mul i ?es = Some (i * ?es)"
    using used tail le by (simp_all add: u64_mul_def)
  have len: "length ?s = (?n - i) * ?es"
    using used(1) tail unfolding length_take length_drop by linarith
  have "used a * ?es - (i + 1) * ?es = (?n - i) * ?es" "(i + 1) * ?es \<le> used a * ?es"
    using tail by linarith+
  then have "slice (data a) ((i + 1) * ?es) (used a * ?es) = Some ?s"
    using used(1) by (simp only: slice_def simp_thms if_True)
  moreover have "put (data a) (i * ?es) ?s = Some ?d"
    using order_trans [OF le(2) used(1)] by (simp only: put_def len sum if_True)
  ultimately have "(if i < used a - 1 then do {
      from \<leftarrow> u64_mul (i + 1) ?es; upto \<leftarrow> u64_mul (used a) ?es; dest \<leftarrow> u64_mul i ?es;
      s \<leftarrow> slice (data a) from upto; d \<leftarrow> put (data a) dest s; ret (a\<lparr>data := d\<rparr>) } else ret a) = Some (a\<lparr>data := ?d\<rparr>)"
    by (simp only: if_P [OF True] muls bind.bind_lunit)
  moreover have "length ?d = length (data a)"
    using used(1) le sum unfolding length_append len length_take [of "i * ?es"] length_drop [of "?n * ?es"] by linarith
  ultimately show ?thesis
    using chunks_shift [OF used(1) i, of "drop (?n * ?es) (data a)"] unfolding elements_def by blast
next
  case False
  then have "used a - 1 = i"
    using i by simp
  then show ?thesis
    using False i by (intro exI [of _ "data a"]) (simp add: elements_def)
qed

lemma remove_element_Some:
  assumes wf: "wf_array a" and fits: "fits a (used a)" and i: "i < used a"
  shows "\<exists>a'. remove_element a i = Some a' \<and> wf_array a' \<and> elem_size a' = elem_size a \<and>
    elements a' = take i (elements a) @ drop (Suc i) (elements a)"
proof -
  let ?es = "elem_size a" and ?n = "used a - 1"
  obtain e where e: "(if i < used a - 1 then do {
      from \<leftarrow> u64_mul (i + 1) ?es; upto \<leftarrow> u64_mul (used a) ?es; dest \<leftarrow> u64_mul i ?es;
      s \<leftarrow> slice (data a) from upto; d \<leftarrow> put (data a) dest s; ret (a\<lparr>data := d\<rparr>) } else ret a) = Some (a\<lparr>data := e\<rparr>)"
    "length e = length (data a)" "chunks ?es ?n e = take i (elements a) @ drop (Suc i) (elements a)"
    using move_tail_Some [OF wf i] by blast
  let ?b = "a\<lparr>data := e, used := ?n\<rparr>"
  have "storage_ok ?b" "fits ?b ?n" "?n \<le> allocated ?b" "?n \<le> ?n"
    using wf fits_mono [OF fits, of ?n] e(2) by (auto simp: wf_array_def storage_ok_def fits_def)
  from realloc_array_Some [OF this] obtain d m where
    r: "realloc_array ?b ?n = Some (?b\<lparr>data := d, allocated := m\<rparr>)" "?n \<le> m" "m \<le> 2 * ?n"
      "length d = m * ?es" "length d < 2 ^ 63" "chunks ?es ?n d = chunks ?es ?n e"
    by auto
  have "remove_element a i = Some (?b\<lparr>data := d, allocated := m\<rparr>)"
    using i e(1) r(1) by (simp only: remove_element_def Let_def if_True bind.bind_lunit) simp
  moreover have "wf_array (?b\<lparr>data := d, allocated := m\<rparr>)"
    using r wf by (simp add: wf_array_def storage_ok_def)
  ultimately show ?thesis
    using r(6) e(3) by (simp add: elements_def)
qed

lemma set_size_Some:
  assumes wf: "wf_array a" and fits: "fits a n"
  shows "\<exists>a' new. set_size a n = Some a' \<and> wf_array a' \<and> elem_size a' = elem_size a \<and>
    elements a' = take n (elements a) @ new \<and> length new = n - used a"
proof -
  let ?k = "min n (used a)" and ?es = "elem_size a"
  have "storage_ok a" "?k \<le> allocated a" "?k \<le> n"
    using wf by (auto simp: wf_array_def)
  from realloc_array_Some [OF this(1) fits this(2,3)] obtain d m where
    r: "realloc_array a n = Some (a\<lparr>data := d, allocated := m\<rparr>)" "n \<le> m" "m \<le> 2 * n"
      "length d = m * ?es" "length d < 2 ^ 63" "chunks ?es ?k d = chunks ?es ?k (data a)"
    by blast
  let ?a = "a\<lparr>data := d, allocated := m, used := n\<rparr>"
  have "set_size a n = Some ?a" "wf_array ?a"
    using r wf by (simp_all add: set_size_def wf_array_def storage_ok_def)
  moreover have "take n (elements a) = chunks ?es ?k d"
    using r(6) by (cases "n \<le> used a") (simp_all add: elements_def min_def)
  moreover have "take ?k (elements ?a) = chunks ?es ?k d"
    by (simp add: elements_def)
  then have "elements ?a = chunks ?es ?k d @ drop ?k (elements ?a)"
    using append_take_drop_id [of ?k "elements ?a"] by simp
  ultimately show ?thesis
    by (intro exI [of _ ?a] exI [of _ "drop ?k (elements ?a)"]) (simp add: elements_def)
qed

section \<open>Sequences of operations\<close>

text \<open>A run of operations, stopped by the first panic.\<close>

fun run_all :: "('s \<Rightarrow> 'op \<Rightarrow> 's run) \<Rightarrow> 'op list \<Rightarrow> 's \<Rightarrow> 's run" where
  "run_all step [] s = ret s"
| "run_all step (x # xs) s = do { s \<leftarrow> step s x; run_all step xs s }"

fun all_ok :: "('a \<Rightarrow> 'op \<Rightarrow> bool) \<Rightarrow> ('a \<Rightarrow> 'op \<Rightarrow> 'a) \<Rightarrow> 'op list \<Rightarrow> 'a \<Rightarrow> bool" where
  "all_ok ok spec [] a \<longleftrightarrow> True"
| "all_ok ok spec (x # xs) a \<longleftrightarrow> ok a x \<and> all_ok ok spec xs (spec a x)"

text \<open>A store whose operations return and refine the operations of an abstract store.\<close>

locale store_refinement =
  fixes inv :: "'s \<Rightarrow> bool" and view :: "'s \<Rightarrow> 'a" and step :: "'s \<Rightarrow> 'op \<Rightarrow> 's run"
    and spec :: "'a \<Rightarrow> 'op \<Rightarrow> 'a" and ok :: "'a \<Rightarrow> 'op \<Rightarrow> bool"
  assumes step_refines: "inv s \<Longrightarrow> ok (view s) x \<Longrightarrow> \<exists>s'. step s x = Some s' \<and> inv s' \<and> view s' = spec (view s) x"
begin

lemma run_refines:
  "inv s \<Longrightarrow> all_ok ok spec xs (view s) \<Longrightarrow>
    \<exists>s'. run_all step xs s = Some s' \<and> inv s' \<and> view s' = foldl spec (view s) xs"
proof (induction xs arbitrary: s)
  case (Cons x xs)
  then obtain s' where "step s x = Some s'" "inv s'" "view s' = spec (view s) x"
    using step_refines [of s x] by auto
  with Cons.IH [of s'] Cons.prems(2) show ?case
    by simp
qed simp

end

datatype ArrayOp = Append bytes | Remove nat

fun array_step :: "Array \<Rightarrow> ArrayOp \<Rightarrow> Array run" where
  "array_step a (Append e) = append_element a e"
| "array_step a (Remove i) = remove_element a i"

fun list_step :: "bytes list \<Rightarrow> ArrayOp \<Rightarrow> bytes list" where
  "list_step xs (Append e) = xs @ [e]"
| "list_step xs (Remove i) = take i xs @ drop (Suc i) xs"

text \<open>An operation that the array of \<open>es\<close>-byte elements can perform: the element has the right size and
  there is room for it; the removed index is in range.\<close>

fun array_op_ok :: "nat \<Rightarrow> bytes list \<Rightarrow> ArrayOp \<Rightarrow> bool" where
  "array_op_ok es xs (Append e) \<longleftrightarrow> length e = es \<and> 2 * Suc (length xs) * es < 2 ^ 63"
| "array_op_ok es xs (Remove i) \<longleftrightarrow> i < length xs \<and> 2 * length xs * es < 2 ^ 63"

lemma length_elements [simp]: "length (elements a) = used a"
  by (simp add: elements_def)

interpretation arr: store_refinement "\<lambda>a. wf_array a \<and> elem_size a = es" elements array_step list_step "array_op_ok es" for es
proof (unfold_locales, elim conjE)
  fix a x
  assume "wf_array a" "elem_size a = es" "array_op_ok es (elements a) x"
  then show "\<exists>a'. array_step a x = Some a' \<and> (wf_array a' \<and> elem_size a' = es) \<and> elements a' = list_step (elements a) x"
    using append_element_Some [of a] remove_element_Some [of a] by (cases x) (auto simp: fits_def)
qed

text \<open>
  C30. The array is a list of elements. From a new array, every sequence of appended elements of the
  right size and removals in range returns without a panic; the elements are then those of the list after the
  same operations, an element is read at every index in range and a read elsewhere panics, all elements are the
  concatenated bytes, and the capacity is between the count and twice the count.
\<close>

theorem array_refines_list:
  assumes "0 < es" and "all_ok (array_op_ok es) list_step ops []"
  shows "\<exists>a0 a. new_array es = Some a0 \<and> run_all array_step ops a0 = Some a \<and>
    elements a = foldl list_step [] ops \<and> get_elements a = Some (concat (elements a)) \<and>
    (\<forall>i. get_element a i = (if i < used a then Some (elements a ! i) else None)) \<and>
    used a = length (elements a) \<and> used a \<le> allocated a \<and> allocated a \<le> 2 * used a"
proof -
  obtain a0 where a0: "new_array es = Some a0" "wf_array a0" "elements a0 = []" "elem_size a0 = es"
    using new_array_empty [OF assms(1)] by blast
  then obtain a where a: "run_all array_step ops a0 = Some a" "wf_array a" "elements a = foldl list_step [] ops"
    using arr.run_refines [of a0 es ops] assms(2) by auto
  moreover have "get_element a i = (if i < used a then Some (elements a ! i) else None)" for i
    using get_element_nth [OF a(2)] by (simp add: get_element_def)
  ultimately show ?thesis
    using a0(1) get_elements_concat [OF a(2)] by (auto simp: wf_array_def)
qed

theorem array_refines_list_witness:
  "\<exists>a0 a. new_array 2 = Some a0 \<and> run_all array_step [Append [1, 2], Append [3, 4], Remove 0] a0 = Some a \<and> elements a = [[3, 4]]"
  using array_refines_list [of 2 "[Append [1, 2], Append [3, 4], Remove 0]"] by auto

text \<open>
  C31. Setting the size keeps the elements below both sizes, gives the wanted count and keeps the capacity
  within its bounds.
\<close>

theorem set_size_keeps_elements:
  assumes "wf_array a" and "fits a n"
  shows "\<exists>a' new. set_size a n = Some a' \<and> wf_array a' \<and> elements a' = take n (elements a) @ new \<and> length new = n - used a"
  using set_size_Some [OF assms] by blast

theorem set_size_keeps_elements_witness:
  "\<exists>a' new. set_size \<lparr>data = [1, 2], elem_size = 1, used = 2, allocated = 2\<rparr> 3 = Some a' \<and> elements a' = [[1], [2]] @ new \<and> length new = 1"
proof -
  let ?a = "\<lparr>data = [1, 2], elem_size = 1, used = 2, allocated = 2\<rparr> :: Array"
  have "wf_array ?a" "fits ?a 3" "elements ?a = [[1], [2]]"
    by (simp_all add: wf_array_def storage_ok_def fits_def elements_def chunks_def chunk_def upt_rec)
  with set_size_keeps_elements [of ?a 3] show ?thesis
    by auto
qed

end
