(* ===== verification/Digest.thy ===== *)
theory Digest
  imports Prelude
begin

text \<open>
  Message digests: the streaming MD5 of \<open>crates/chrony-rs-core/src/md5.rs\<close> and the hash backend
  built on it, \<open>hash_intmd5.rs\<close>. The streaming context, whatever the pieces it is fed, computes the digest
  that RFC 1321 defines on the whole padded message.
\<close>

section \<open>The compression function\<close>

definition SHIFTS :: "nat list list" where
  "SHIFTS = [[7, 12, 17, 22], [5, 9, 14, 20], [4, 11, 16, 23], [6, 10, 15, 21]]"

definition K :: "u32 list" where
  "K =
    [0xd76aa478, 0xe8c7b756, 0x242070db, 0xc1bdceee, 0xf57c0faf, 0x4787c62a, 0xa8304613, 0xfd469501,
     0x698098d8, 0x8b44f7af, 0xffff5bb1, 0x895cd7be, 0x6b901122, 0xfd987193, 0xa679438e, 0x49b40821,
     0xf61e2562, 0xc040b340, 0x265e5a51, 0xe9b6c7aa, 0xd62f105d, 0x02441453, 0xd8a1e681, 0xe7d3fbc8,
     0x21e1cde6, 0xc33707d6, 0xf4d50d87, 0x455a14ed, 0xa9e3e905, 0xfcefa3f8, 0x676f02d9, 0x8d2a4c8a,
     0xfffa3942, 0x8771f681, 0x6d9d6122, 0xfde5380c, 0xa4beea44, 0x4bdecfa9, 0xf6bb4b60, 0xbebfbc70,
     0x289b7ec6, 0xeaa127fa, 0xd4ef3085, 0x04881d05, 0xd9d4d039, 0xe6db99e5, 0x1fa27cf8, 0xc4ac5665,
     0xf4292244, 0x432aff97, 0xab9423a7, 0xfc93a039, 0x655b59c3, 0x8f0ccc92, 0xffeff47d, 0x85845dd1,
     0x6fa87e4f, 0xfe2ce6e0, 0xa3014314, 0x4e0811a1, 0xf7537e82, 0xbd3af235, 0x2ad7d2bb, 0xeb86d391]"

type_synonym state4 = "u32 \<times> u32 \<times> u32 \<times> u32"

record Md5 =
  state :: state4
  bits :: u64
  buffer :: bytes
  buflen :: nat

definition new_md5 :: Md5 where
  "new_md5 = \<lparr>state = (0x67452301, 0xefcdab89, 0x98badcfe, 0x10325476), bits = 0, buffer = replicate 64 0, buflen = 0\<rparr>"

text \<open>The mixing function and the message word of a step.\<close>

definition mix :: "nat \<Rightarrow> u32 \<Rightarrow> u32 \<Rightarrow> u32 \<Rightarrow> u32 \<times> nat" where
  "mix i b c d =
     (if i \<le> 15 then ((b AND c) OR (NOT b AND d), i)
      else if i \<le> 31 then ((d AND b) OR (NOT d AND c), (5 * i + 1) mod 16)
      else if i \<le> 47 then (b XOR c XOR d, (3 * i + 5) mod 16)
      else (c XOR (b OR NOT d), (7 * i) mod 16))"

definition step :: "u32 list \<Rightarrow> nat \<Rightarrow> state4 \<Rightarrow> state4" where
  "step m i = (\<lambda>(a, b, c, d).
     let (f, g) = mix i b c d;
         sum = a + f + K ! i + m ! g
     in (d, b + word_rotl (SHIFTS ! (i div 16) ! (i mod 4)) sum, b, c))"

text \<open>The block as sixteen little-endian words.\<close>

definition block_words :: "bytes \<Rightarrow> u32 list" where
  "block_words block = map (\<lambda>i. le_word (take 4 (drop (i * 4) block))) [0..<16]"

definition compress :: "state4 \<Rightarrow> bytes \<Rightarrow> state4" where
  "compress s block = (case s of (s0, s1, s2, s3) \<Rightarrow>
     (case fold (step (block_words block)) [0..<64] s of (a, b, c, d) \<Rightarrow> (s0 + a, s1 + b, s2 + c, s3 + d)))"

definition transform :: "Md5 \<Rightarrow> bytes \<Rightarrow> Md5" where
  "transform ctx block = ctx\<lparr>state := compress (state ctx) block\<rparr>"

section \<open>Streaming\<close>

text \<open>The end of a turn of the loop of \<open>update\<close>: a full buffer is compressed.\<close>

definition flush :: "Md5 \<Rightarrow> Md5" where
  "flush ctx = (if buflen ctx = 64 then (transform ctx (buffer ctx))\<lparr>buflen := 0\<rparr> else ctx)"

text \<open>One turn: the context after it and the number of bytes taken.\<close>

definition absorb_some :: "Md5 \<Rightarrow> bytes \<Rightarrow> (Md5 \<times> nat) run" where
  "absorb_some ctx d =
     (if 64 < buflen ctx then panic
      else do {
        let n = min (64 - buflen ctx) (length d);
        buf \<leftarrow> put (buffer ctx) (buflen ctx) (take n d);
        ret (flush (ctx\<lparr>buffer := buf, buflen := buflen ctx + n\<rparr>), n)
      })"

lemma buflen_flush: "buflen (flush ctx) \<noteq> 64"
  by (simp add: flush_def)

lemma bits_flush [simp]: "bits (flush ctx) = bits ctx"
  by (simp add: flush_def transform_def)

text \<open>Each turn takes a byte or empties a full buffer.\<close>

lemma absorb_some_progress:
  assumes "absorb_some ctx d = Some (ctx', n)" and "d \<noteq> []"
  shows "2 * length (drop n d) + (if buflen ctx' = 64 then 1 else 0) < 2 * length d + (if buflen ctx = 64 then 1 else 0)"
proof -
  have n: "n = min (64 - buflen ctx) (length d)" and le: "buflen ctx \<le> 64" and "\<exists>c. ctx' = flush c"
    using assms(1) unfolding absorb_some_def by (auto simp: Let_def bind_eq_Some_conv split: if_split_asm)
  then have "buflen ctx' \<noteq> 64"
    using buflen_flush by blast
  moreover have "0 < length d"
    using assms(2) by simp
  ultimately show ?thesis
    using n le by auto
qed

function update_loop :: "Md5 \<Rightarrow> bytes \<Rightarrow> Md5 run" where
  "update_loop ctx d =
     (if d = [] then ret ctx
      else case absorb_some ctx d of
        None \<Rightarrow> panic
      | Some (ctx', n) \<Rightarrow> update_loop ctx' (drop n d))"
  by pat_completeness auto
termination
  by (relation "measure (\<lambda>(ctx, d). 2 * length d + (if buflen ctx = 64 then 1 else 0))")
    (simp_all only: in_measure split_conv absorb_some_progress not_False_eq_True wf_measure)

declare update_loop.simps [simp del]

definition update :: "Md5 \<Rightarrow> bytes \<Rightarrow> Md5 run" where
  "update ctx d = update_loop (ctx\<lparr>bits := bits ctx + push_bit 3 (word_of_nat (length d))\<rparr>) d"

fun state_bytes :: "state4 \<Rightarrow> bytes" where
  "state_bytes (a, b, c, d) = le_bytes 4 a @ le_bytes 4 b @ le_bytes 4 c @ le_bytes 4 d"

definition finalize :: "Md5 \<Rightarrow> bytes run" where
  "finalize ctx = do {
     let bs = bits ctx;
     let pad = 0x80 # replicate 71 0;
     let padlen = (if buflen ctx < 56 then 56 - buflen ctx else 120 - buflen ctx);
     p \<leftarrow> slice pad 0 padlen;
     ctx \<leftarrow> update ctx p;
     ctx \<leftarrow> update ctx (le_bytes 8 bs);
     if buflen ctx = 0 then ret (state_bytes (state ctx)) else panic
   }"

definition digest :: "bytes \<Rightarrow> bytes run" where
  "digest d = do { ctx \<leftarrow> update new_md5 d; finalize ctx }"

text \<open>The pieces of a message, one after the other.\<close>

fun update_all :: "bytes list \<Rightarrow> Md5 \<Rightarrow> Md5 run" where
  "update_all [] ctx = ret ctx"
| "update_all (d # ds) ctx = do { ctx \<leftarrow> update ctx d; update_all ds ctx }"

section \<open>The hash backend\<close>

datatype HshAlgorithm = Invalid | Md5 | Sha1 | Sha256 | Sha384 | Sha512 | Sha3_224 | Sha3_256 | Sha3_384 | Sha3_512
  | Tiger | Whirlpool | Md5NonCrypto

definition get_hash_id :: "HshAlgorithm \<Rightarrow> int option" where
  "get_hash_id algorithm = (if algorithm = Md5 \<or> algorithm = Md5NonCrypto then Some 0 else None)"

text \<open>The output buffer and the number of bytes written into it.\<close>

definition hash :: "bytes \<Rightarrow> bytes \<Rightarrow> bytes \<Rightarrow> (bytes \<times> nat) run" where
  "hash in1 in2 out = do {
     ctx \<leftarrow> update new_md5 in1;
     ctx \<leftarrow> update ctx in2;
     d \<leftarrow> finalize ctx;
     let n = min (length out) 16;
     s \<leftarrow> slice d 0 n;
     out \<leftarrow> put out 0 s;
     ret (out, n)
   }"

section \<open>The digest of a whole message\<close>

text \<open>The reference: pad to whole blocks, then compress block after block.\<close>

definition init_state :: state4 where
  "init_state = (0x67452301, 0xefcdab89, 0x98badcfe, 0x10325476)"

function absorb :: "state4 \<Rightarrow> bytes \<Rightarrow> state4" where
  "absorb s msg = (if length msg < 64 then s else absorb (compress s (take 64 msg)) (drop 64 msg))"
  by pat_completeness auto
termination
  by (relation "measure (\<lambda>(s, msg). length msg)") auto

declare absorb.simps [simp del]

definition pad_message :: "bytes \<Rightarrow> bytes" where
  "pad_message msg = msg @ 0x80 # replicate ((119 - length msg mod 64) mod 64) 0 @ le_bytes 8 (word_of_nat (8 * length msg) :: u64)"

definition md5_ref :: "bytes \<Rightarrow> bytes" where
  "md5_ref msg = state_bytes (absorb init_state (pad_message msg))"

text \<open>The message pads to whole blocks.\<close>

lemma zeros_eq: "r < 64 \<Longrightarrow> (119 - r) mod 64 = (if r < 56 then 55 - r else 119 - (r :: nat))"
  by (cases "r < 56") (simp_all add: mod_if)

lemma pad_message_blocks: "64 dvd length (pad_message msg)"
proof -
  let ?r = "length msg mod 64"
  have "64 dvd ?r + 9 + (119 - ?r) mod 64"
    using zeros_eq [of ?r] by (cases "?r < 56") simp_all
  then have "64 dvd 64 * (length msg div 64) + (?r + 9 + (119 - ?r) mod 64)"
    by (rule dvd_add [OF dvd_triv_left])
  also have "64 * (length msg div 64) + (?r + 9 + (119 - ?r) mod 64) = length (pad_message msg)"
    unfolding pad_message_def by simp
  finally show ?thesis .
qed

lemma absorb_append:
  "64 dvd length p \<Longrightarrow> absorb s (p @ r) = absorb (absorb s p) r"
proof (induction s p rule: absorb.induct)
  case (1 s p)
  show ?case
  proof (cases "length p < 64")
    case True
    then have "p = []"
      using 1(2) nat_dvd_not_less by blast
    then show ?thesis
      by (simp add: absorb.simps [of s "[]"])
  next
    case False
    then have "absorb s (p @ r) = absorb (compress s (take 64 p)) (drop 64 p @ r)"
      by (subst absorb.simps) simp
    also have "\<dots> = absorb (absorb (compress s (take 64 p)) (drop 64 p)) r"
      using False 1(2) by (intro 1(1)) (auto simp: dvd_diff_nat)
    also have "absorb (compress s (take 64 p)) (drop 64 p) = absorb s p"
      using False by (subst (2) absorb.simps) simp
    finally show ?thesis .
  qed
qed

lemma absorb_block: "length b = 64 \<Longrightarrow> absorb s b = compress s b"
  by (simp add: absorb.simps [of s b] absorb.simps [of _ "[]"])

text \<open>What a context holds after it has been fed \<open>msg\<close>: whole blocks in the state, the rest in the buffer.\<close>

definition fed :: "Md5 \<Rightarrow> bytes \<Rightarrow> bool" where
  "fed ctx msg \<longleftrightarrow> length (buffer ctx) = 64 \<and> buflen ctx < 64 \<and>
     (\<exists>p. msg = p @ take (buflen ctx) (buffer ctx) \<and> 64 dvd length p \<and> state ctx = absorb init_state p)"

lemma fed_buflen: "fed ctx msg \<Longrightarrow> buflen ctx = length msg mod 64"
  by (auto simp: fed_def min_def dvd_def)

lemma fed_absorb:
  assumes "fed ctx msg" and "64 dvd length msg"
  shows "buflen ctx = 0" "state ctx = absorb init_state msg"
proof -
  show 0: "buflen ctx = 0"
    using fed_buflen [OF assms(1)] assms(2) by simp
  obtain p where "msg = p @ take (buflen ctx) (buffer ctx)" "state ctx = absorb init_state p"
    using assms(1) unfolding fed_def by blast
  then show "state ctx = absorb init_state msg"
    using 0 by simp
qed

lemma fed_new: "fed new_md5 []"
  by (simp add: fed_def new_md5_def init_state_def absorb.simps [of _ "[]"])

lemma absorb_some_fed:
  assumes "fed ctx msg" and "d \<noteq> []"
  shows "\<exists>ctx' n. absorb_some ctx d = Some (ctx', n) \<and> fed ctx' (msg @ take n d) \<and> 0 < n \<and> n \<le> length d \<and> bits ctx' = bits ctx"
proof -
  let ?n = "min (64 - buflen ctx) (length d)"
  let ?buf = "take (buflen ctx) (buffer ctx) @ take ?n d @ drop (buflen ctx + ?n) (buffer ctx)"
  let ?ctx = "ctx\<lparr>buffer := ?buf, buflen := buflen ctx + ?n\<rparr>"
  obtain p where p: "length (buffer ctx) = 64" "buflen ctx < 64" "msg = p @ take (buflen ctx) (buffer ctx)"
      "64 dvd length p" "state ctx = absorb init_state p"
    using assms(1) by (auto simp: fed_def)
  have n: "0 < ?n" "?n \<le> length d" "buflen ctx + ?n \<le> 64" "length (take ?n d) = ?n"
    using p(2) assms(2) by auto
  have run: "absorb_some ctx d =
      Some (flush ?ctx, ?n)"
    using p(1,2) n(3,4) unfolding absorb_some_def Let_def put_def by (simp only: if_False if_True bind.bind_lunit) simp
  have len: "length ?buf = 64" "take (buflen ctx + ?n) ?buf = take (buflen ctx) (buffer ctx) @ take ?n d"
    using p(1) n(3,4) by simp_all
  have "fed (flush ?ctx) (msg @ take ?n d)"
  proof (cases "buflen ctx + ?n = 64")
    case True
    then have "msg @ take ?n d = p @ ?buf"
      using len p(3) by simp
    moreover have "absorb init_state (p @ ?buf) = compress (state ctx) ?buf"
      using absorb_append [OF p(4)] absorb_block [OF len(1)] p(5) by simp
    ultimately show ?thesis
      using True len(1) p(4) by (auto simp: fed_def flush_def transform_def)
  next
    case False
    then have "flush ?ctx = ?ctx" "buflen ctx + ?n < 64"
      using n(3) by (simp_all add: flush_def)
    moreover have "msg @ take ?n d = p @ take (buflen ctx + ?n) ?buf"
      using len(2) p(3) by simp
    ultimately show ?thesis
      using len(1) p(4,5) by (auto simp: fed_def)
  qed
  moreover have "bits (flush ?ctx) = bits ctx"
    by simp
  ultimately show ?thesis
    using run n(1,2) by blast
qed

lemma update_loop_fed:
  "fed ctx msg \<Longrightarrow> \<exists>ctx'. update_loop ctx d = Some ctx' \<and> fed ctx' (msg @ d) \<and> bits ctx' = bits ctx"
proof (induction ctx d arbitrary: msg rule: update_loop.induct)
  case (1 ctx d)
  show ?case
  proof (cases "d = []")
    case True
    then show ?thesis
      using 1(2) by (simp add: update_loop.simps)
  next
    case False
    obtain c n where c: "absorb_some ctx d = Some (c, n)" "fed c (msg @ take n d)" "bits c = bits ctx"
      using absorb_some_fed [OF 1(2) False] by blast
    have "update_loop ctx d = update_loop c (drop n d)"
      using False c(1) by (subst update_loop.simps) simp
    then show ?thesis
      using 1(1) [OF False c(1) refl c(2)] c(3) by simp
  qed
qed

text \<open>A context fed \<open>msg\<close> that has also counted its bits.\<close>

definition holds :: "Md5 \<Rightarrow> bytes \<Rightarrow> bool" where
  "holds ctx msg \<longleftrightarrow> fed ctx msg \<and> bits ctx = word_of_nat (8 * length msg)"

lemma holds_new: "holds new_md5 []"
  using fed_new by (simp add: holds_def new_md5_def)

lemma update_holds:
  assumes "holds ctx msg"
  shows "\<exists>ctx'. update ctx d = Some ctx' \<and> holds ctx' (msg @ d)"
proof -
  let ?c = "ctx\<lparr>bits := bits ctx + push_bit 3 (word_of_nat (length d))\<rparr>"
  have "fed ?c msg"
    using assms by (simp add: holds_def fed_def)
  moreover have "bits ?c = word_of_nat (8 * length (msg @ d))"
    using assms by (simp add: holds_def push_bit_eq_mult algebra_simps)
  ultimately show ?thesis
    using update_loop_fed [of ?c msg d] unfolding update_def holds_def by metis
qed

lemma update_all_holds:
  "holds ctx msg \<Longrightarrow> \<exists>ctx'. update_all ds ctx = Some ctx' \<and> holds ctx' (msg @ concat ds)"
proof (induction ds arbitrary: ctx msg)
  case (Cons d ds)
  obtain c where "update ctx d = Some c" "holds c (msg @ d)"
    using update_holds [OF Cons.prems] by blast
  then show ?case
    using Cons.IH [of c "msg @ d"] by simp
qed simp

lemma take_pad: "0 < n \<Longrightarrow> n \<le> 72 \<Longrightarrow> take n ((0x80 :: u8) # replicate 71 0) = 0x80 # replicate (n - 1) 0"
  by (cases n) simp_all

lemma padlen_eq:
  assumes "r < 64"
  shows "0 < (if r < 56 then 56 - r else 120 - r)" "(if r < 56 then 56 - r else 120 - r) \<le> 72"
    "(if r < 56 then 56 - r else 120 - r) - 1 = (119 - r) mod (64 :: nat)"
  using zeros_eq [OF assms] assms by auto

lemma finalize_holds:
  assumes "holds ctx msg"
  shows "finalize ctx = Some (md5_ref msg)"
proof -
  let ?r = "length msg mod 64"
  let ?n = "if ?r < 56 then 56 - ?r else 120 - ?r"
  have r: "buflen ctx = ?r" "?r < 64" and bits: "bits ctx = word_of_nat (8 * length msg)"
    using assms fed_buflen by (simp_all add: holds_def)
  have n: "0 < ?n" "?n \<le> 72" "?n - 1 = (119 - ?r) mod 64"
    using padlen_eq [OF r(2)] by simp_all
  have pad: "slice ((0x80 :: u8) # replicate 71 0) 0 ?n = Some (0x80 # replicate ((119 - ?r) mod 64) 0)"
    using take_pad [OF n(1,2)] n(2,3) by (simp add: slice_def split del: if_split)
  obtain c where c: "update ctx (0x80 # replicate ((119 - ?r) mod 64) 0) = Some c"
      "holds c (msg @ 0x80 # replicate ((119 - ?r) mod 64) 0)"
    using update_holds [OF assms] by blast
  obtain e where e: "update c (le_bytes 8 (bits ctx)) = Some e"
      "holds e ((msg @ 0x80 # replicate ((119 - ?r) mod 64) 0) @ le_bytes 8 (bits ctx))"
    using update_holds [OF c(2)] by blast
  have "fed e (pad_message msg)"
    using e(2) by (simp add: holds_def pad_message_def bits)
  then have "buflen e = 0" "state e = absorb init_state (pad_message msg)"
    using fed_absorb pad_message_blocks by blast+
  then show ?thesis
    using pad c(1) e(1) unfolding finalize_def Let_def r(1) by (simp add: md5_ref_def split del: if_split)
qed

lemma update_all_finalize: "do { ctx \<leftarrow> update_all ds new_md5; finalize ctx } = Some (md5_ref (concat ds))"
  using update_all_holds [OF holds_new, of ds] finalize_holds by auto

lemma length_md5_ref [simp]: "length (md5_ref msg) = 16"
  by (cases "absorb init_state (pad_message msg)") (simp add: md5_ref_def)

text \<open>The hash backend writes the digest of both inputs, cut to the output buffer.\<close>

lemma hash_eq:
  "hash in1 in2 out = Some (take (length out) (md5_ref (in1 @ in2)) @ drop 16 out, min (length out) 16)"
proof -
  obtain c where c: "update new_md5 in1 = Some c" "holds c in1"
    using update_holds [OF holds_new, of in1] by auto
  obtain e where e: "update c in2 = Some e" "holds e (in1 @ in2)"
    using update_holds [OF c(2)] by auto
  show ?thesis
    using c(1) e(1) finalize_holds [OF e(2)] by (simp add: hash_def Let_def slice_def put_def min_def)
qed

section \<open>Properties\<close>

text \<open>
  C32. However a message is cut into pieces, feeding the pieces to a new context and finishing it returns
  without a panic, and the result is the digest of the whole message: padded with \<open>0x80\<close>, zeros and
  the bit length to whole blocks, compressed block by block.
\<close>

theorem md5_streaming_correct:
  "do { ctx \<leftarrow> update_all ds new_md5; finalize ctx } = Some (md5_ref (concat ds))"
  by (rule update_all_finalize)

end
