(* ===== verification/DigestVectors.thy ===== *)
theory DigestVectors
  imports Digest
begin

text \<open>A test vector of RFC 1321: the digest of \<open>abc\<close>.\<close>

lemma digest_abc:
  "digest [0x61, 0x62, 0x63] =
    Some [0x90, 0x01, 0x50, 0x98, 0x3c, 0xd2, 0x4f, 0xb0, 0xd6, 0x96, 0x3f, 0x7d, 0x28, 0xe1, 0x7f, 0x72]"
  by code_simp

end
