(* ===== verification/Keys.thy ===== *)
theory Keys
  imports Digest
begin

text \<open>
  The symmetric key store, \<open>crates/chrony-rs-core/src/keys.rs\<close>, with the words of the key file
  (\<open>cmdparse.rs\<close>) and the hexadecimal codec (\<open>util.rs\<close>) it relies on. A Rust string is the list of its
  UTF-8 bytes. The lookup through the cache agrees with the keys of the file, and a message authenticates exactly
  with the truncated digest of key and message.
\<close>

section \<open>Words of a line\<close>

definition ascii :: "string \<Rightarrow> bytes" where
  "ascii s = map of_char s"

definition is_c_space :: "u8 \<Rightarrow> bool" where
  "is_c_space b \<longleftrightarrow> b = 0x20 \<or> b = 0x09 \<or> b = 0x0a \<or> b = 0x0b \<or> b = 0x0c \<or> b = 0x0d"

text \<open>The word, and what follows it without its leading white space.\<close>

definition split_word :: "bytes \<Rightarrow> bytes \<times> bytes" where
  "split_word line =
     (let b = dropWhile is_c_space line
      in (takeWhile (\<lambda>c. \<not> is_c_space c) b, dropWhile is_c_space (dropWhile (\<lambda>c. \<not> is_c_space c) b)))"

text \<open>\<open>String::push(p as char)\<close>: the byte is read as the code point of the same number and encoded in UTF-8.\<close>

definition push_char :: "u8 \<Rightarrow> bytes" where
  "push_char p = (if p < 0x80 then [p] else [0xC0 OR drop_bit 6 p, 0x80 OR (p AND 0x3F)])"

definition is_comment :: "u8 \<Rightarrow> bool" where
  "is_comment p \<longleftrightarrow> p = 0x21 \<or> p = 0x3b \<or> p = 0x23 \<or> p = 0x25"

fun normalize_loop :: "bytes \<Rightarrow> bool \<Rightarrow> bool \<Rightarrow> bytes \<Rightarrow> bytes" where
  "normalize_loop out space first [] = out"
| "normalize_loop out space first (p # ps) =
     (if is_c_space p then normalize_loop (if space then out else out @ [0x20]) True first ps
      else if first \<and> is_comment p then out
      else normalize_loop (out @ push_char p) False False ps)"

definition normalize_line :: "bytes \<Rightarrow> bytes" where
  "normalize_line line =
     (let out = normalize_loop [] True True line
      in if out \<noteq> [] \<and> last out = 0x20 then butlast out else out)"

definition is_ascii_digit :: "u8 \<Rightarrow> bool" where
  "is_ascii_digit b \<longleftrightarrow> 0x30 \<le> b \<and> b \<le> 0x39"

text \<open>\<open>parse::<u32>\<close> of a run of digits fails on no digits and on overflow.\<close>

definition scan_leading_u32 :: "bytes \<Rightarrow> u32 option" where
  "scan_leading_u32 s =
     (let digits = takeWhile is_ascii_digit s;
          v = foldl (\<lambda>a c. 10 * a + (unat c - 0x30)) 0 digits
      in if digits = [] \<or> 2 ^ 32 \<le> v then None else Some (word_of_nat v))"

definition parse_key :: "bytes \<Rightarrow> (u32 \<times> bytes \<times> bytes) option" where
  "parse_key line =
     (let (w1, r1) = split_word line;
          (w2, r2) = split_word r1;
          (w3, r3) = split_word r2;
          (w4, _) = split_word r3
      in if w2 = [] \<or> w4 \<noteq> [] then None
         else case scan_leading_u32 w1 of
           None \<Rightarrow> None
         | Some kid \<Rightarrow> Some (if w3 \<noteq> [] then (kid, w2, w3) else (kid, ascii ''MD5'', w2)))"

section \<open>Hexadecimal\<close>

text \<open>\<open>char::to_digit(16)\<close>.\<close>

definition to_digit16 :: "u8 \<Rightarrow> nat option" where
  "to_digit16 b =
     (if 0x30 \<le> b \<and> b \<le> 0x39 then Some (unat b - 0x30)
      else if 0x41 \<le> b \<and> b \<le> 0x46 then Some (unat b - 0x41 + 10)
      else if 0x61 \<le> b \<and> b \<le> 0x66 then Some (unat b - 0x61 + 10)
      else None)"

fun hex_pairs :: "bytes \<Rightarrow> bytes option" where
  "hex_pairs (a # b # rest) =
     (case to_digit16 a of
        None \<Rightarrow> None
      | Some hi \<Rightarrow> (case to_digit16 b of
          None \<Rightarrow> None
        | Some lo \<Rightarrow> map_option ((#) (word_of_nat (hi * 16 + lo))) (hex_pairs rest)))"
| "hex_pairs _ = Some []"

definition hex_to_bytes :: "bytes \<Rightarrow> bytes option" where
  "hex_to_bytes h = (if length h mod 2 \<noteq> 0 then None else hex_pairs h)"

definition hex_digit :: "nat \<Rightarrow> u8" where
  "hex_digit n = word_of_nat (if n < 10 then 0x30 + n else 0x41 + (n - 10))"

definition bytes_to_hex :: "bytes \<Rightarrow> bytes" where
  "bytes_to_hex buf = concat (map (\<lambda>b. [hex_digit (unat b div 16), hex_digit (unat b mod 16)]) buf)"

section \<open>Keys\<close>

definition MIN_SECURE_KEY_LENGTH :: nat where "MIN_SECURE_KEY_LENGTH = 10"

definition MAX_HASH_LENGTH_KEYS :: nat where "MAX_HASH_LENGTH_KEYS = 64"

datatype CmacAlgorithm = Invalid | Aes128 | Aes256

datatype KeyMac = NtpMac bytes int | Cmac CmacAlgorithm bytes

record Key =
  id_key :: u32
  type_key :: int
  length_key :: nat
  mac :: KeyMac

text \<open>The backend: a hash writes into the given buffer and returns it with the number of bytes written.\<close>

record CryptoBackend =
  hash_id :: "HshAlgorithm \<Rightarrow> int"
  hash_fn :: "int \<Rightarrow> bytes \<Rightarrow> bytes \<Rightarrow> bytes \<Rightarrow> (bytes \<times> nat) run"
  cmac_key_length :: "CmacAlgorithm \<Rightarrow> nat"
  cmac_hash :: "CmacAlgorithm \<Rightarrow> bytes \<Rightarrow> bytes \<Rightarrow> bytes \<Rightarrow> (bytes \<times> nat) run"

definition InternalMd5Backend :: CryptoBackend where
  "InternalMd5Backend =
     \<lparr>hash_id = (\<lambda>algorithm. case get_hash_id algorithm of None \<Rightarrow> - 1 | Some i \<Rightarrow> i),
      hash_fn = (\<lambda>_. hash),
      cmac_key_length = (\<lambda>_. 0),
      cmac_hash = (\<lambda>_ _ _ out. ret (out, 0))\<rparr>"

definition hash_name_to_algorithm :: "bytes \<Rightarrow> HshAlgorithm" where
  "hash_name_to_algorithm name =
     (if name = ascii ''MD5'' then Md5
      else if name = ascii ''SHA1'' then Sha1
      else if name = ascii ''SHA256'' then Sha256
      else if name = ascii ''SHA384'' then Sha384
      else if name = ascii ''SHA512'' then Sha512
      else if name = ascii ''SHA3-224'' then Sha3_224
      else if name = ascii ''SHA3-256'' then Sha3_256
      else if name = ascii ''SHA3-384'' then Sha3_384
      else if name = ascii ''SHA3-512'' then Sha3_512
      else if name = ascii ''TIGER'' then Tiger
      else if name = ascii ''WHIRLPOOL'' then Whirlpool
      else HshAlgorithm.Invalid)"

definition cmac_name_to_algorithm :: "bytes \<Rightarrow> CmacAlgorithm" where
  "cmac_name_to_algorithm name =
     (if name = ascii ''AES128'' then Aes128
      else if name = ascii ''AES256'' then Aes256
      else CmacAlgorithm.Invalid)"

text \<open>The casts \<open>hash_algorithm as i32\<close> and \<open>cmac_algorithm as i32\<close>.\<close>

fun hsh_as_i32 :: "HshAlgorithm \<Rightarrow> int" where
  "hsh_as_i32 HshAlgorithm.Invalid = 0"
| "hsh_as_i32 Md5 = 1"
| "hsh_as_i32 Sha1 = 2"
| "hsh_as_i32 Sha256 = 3"
| "hsh_as_i32 Sha384 = 4"
| "hsh_as_i32 Sha512 = 5"
| "hsh_as_i32 Sha3_224 = 6"
| "hsh_as_i32 Sha3_256 = 7"
| "hsh_as_i32 Sha3_384 = 8"
| "hsh_as_i32 Sha3_512 = 9"
| "hsh_as_i32 Tiger = 10"
| "hsh_as_i32 Whirlpool = 11"
| "hsh_as_i32 Md5NonCrypto = 10000"

fun cmac_as_i32 :: "CmacAlgorithm \<Rightarrow> int" where
  "cmac_as_i32 CmacAlgorithm.Invalid = 0"
| "cmac_as_i32 Aes128 = 13"
| "cmac_as_i32 Aes256 = 14"

definition strip_prefix :: "bytes \<Rightarrow> bytes \<Rightarrow> bytes option" where
  "strip_prefix pre s = (if take (length pre) s = pre then Some (drop (length pre) s) else None)"

definition decode_key :: "bytes \<Rightarrow> bytes option" where
  "decode_key key =
     (case strip_prefix (ascii ''ASCII:'') key of
        Some rest \<Rightarrow> Some rest
      | None \<Rightarrow>
          (case strip_prefix (ascii ''HEX:'') key of
             Some rest \<Rightarrow> (case hex_to_bytes rest of None \<Rightarrow> None | Some b \<Rightarrow> if b \<noteq> [] then Some b else None)
           | None \<Rightarrow> Some key))"

section \<open>The key store\<close>

text \<open>The warnings, one constructor for each message.\<close>

datatype Warning = CouldNotParse bytes | CouldNotDecode u32 | UnsupportedHash u32 | UnsupportedCipher u32
  | InvalidLength bytes u32 nat | InvalidType u32 | DuplicateKey u32

record KeyStore =
  keys :: "Key list"
  backend :: CryptoBackend
  cache_valid :: bool
  cache_key_id :: u32
  cache_key_pos :: nat
  warnings :: "Warning list"

definition free_keys :: "KeyStore \<Rightarrow> KeyStore" where
  "free_keys s = s\<lparr>keys := [], cache_valid := False\<rparr>"

text \<open>The key of a parsed and decoded line, by the class of its type.\<close>

definition make_key :: "CryptoBackend \<Rightarrow> u32 \<Rightarrow> bytes \<Rightarrow> bytes \<Rightarrow> Warning + Key" where
  "make_key be kid ktype decoded =
     (let hash_algorithm = hash_name_to_algorithm ktype;
          cmac_algorithm = cmac_name_to_algorithm ktype
      in if hash_algorithm \<noteq> HshAlgorithm.Invalid then
           (let hid = hash_id be hash_algorithm
            in if hid < 0 then Inl (UnsupportedHash kid)
               else Inr \<lparr>id_key = kid, type_key = hsh_as_i32 hash_algorithm, length_key = length decoded,
                         mac = NtpMac decoded hid\<rparr>)
         else if cmac_algorithm \<noteq> CmacAlgorithm.Invalid then
           (let len = cmac_key_length be cmac_algorithm
            in if len = 0 then Inl (UnsupportedCipher kid)
               else if len \<noteq> length decoded then Inl (InvalidLength ktype kid (8 * len))
               else Inr \<lparr>id_key = kid, type_key = cmac_as_i32 cmac_algorithm, length_key = length decoded,
                         mac = Cmac cmac_algorithm decoded\<rparr>)
         else Inl (InvalidType kid))"

text \<open>One line of the file: nothing, a warning, or a key.\<close>

definition load_line :: "CryptoBackend \<Rightarrow> bytes \<Rightarrow> (Warning + Key) option" where
  "load_line be raw =
     (let line = normalize_line raw
      in if line = [] then None
         else Some (case parse_key line of
             None \<Rightarrow> Inl (CouldNotParse raw)
           | Some (kid, ktype, kvalue) \<Rightarrow>
               (case decode_key kvalue of
                  None \<Rightarrow> Inl (CouldNotDecode kid)
                | Some decoded \<Rightarrow>
                    if decoded = [] then Inl (CouldNotDecode kid) else make_key be kid ktype decoded)))"

fun load_lines :: "bytes list \<Rightarrow> KeyStore \<Rightarrow> KeyStore" where
  "load_lines [] s = s"
| "load_lines (raw # raws) s =
     load_lines raws (case load_line (backend s) raw of
         None \<Rightarrow> s
       | Some (Inl w) \<Rightarrow> s\<lparr>warnings := warnings s @ [w]\<rparr>
       | Some (Inr k) \<Rightarrow> s\<lparr>keys := keys s @ [k]\<rparr>)"

text \<open>\<open>str::lines\<close>: lines end with a newline, which may follow a carriage return; a last line may lack it.\<close>

definition strip_cr :: "bytes \<Rightarrow> bytes" where
  "strip_cr l = (if l \<noteq> [] \<and> last l = 0x0d then butlast l else l)"

function str_lines :: "bytes \<Rightarrow> bytes list" where
  "str_lines s =
     (if s = [] then []
      else if 0x0a \<in> set s
      then strip_cr (takeWhile (\<lambda>c. c \<noteq> 0x0a) s) # str_lines (drop 1 (dropWhile (\<lambda>c. c \<noteq> 0x0a) s))
      else [s])"
  by pat_completeness auto
termination
  by (relation "measure length") (auto simp: length_dropWhile_le less_Suc_eq_le diff_le_mono2
      intro: order.strict_trans1 [OF diff_le_mono [OF length_dropWhile_le]])

declare str_lines.simps [simp del]

fun duplicates :: "Key list \<Rightarrow> Warning list" where
  "duplicates (a # b # ks) = (if id_key a = id_key b then [DuplicateKey (id_key a)] else []) @ duplicates (b # ks)"
| "duplicates _ = []"

definition reload :: "KeyStore \<Rightarrow> bytes option \<Rightarrow> KeyStore" where
  "reload s keyfile =
     (let s = (free_keys s)\<lparr>warnings := []\<rparr>
      in case keyfile of
           None \<Rightarrow> s
         | Some contents \<Rightarrow>
             let s = load_lines (str_lines contents) s;
                 s = s\<lparr>keys := sort_key id_key (keys s)\<rparr>
             in s\<lparr>warnings := warnings s @ duplicates (keys s)\<rparr>)"

definition initialise_with_backend :: "CryptoBackend \<Rightarrow> bytes option \<Rightarrow> KeyStore" where
  "initialise_with_backend be keyfile =
     reload \<lparr>keys = [], backend = be, cache_valid = False, cache_key_id = 0, cache_key_pos = 0, warnings = []\<rparr> keyfile"

definition initialise :: "bytes option \<Rightarrow> KeyStore" where
  "initialise keyfile = initialise_with_backend InternalMd5Backend keyfile"

text \<open>\<open>binary_search_by\<close> of the standard library, on the part of the slice that can still hold the key.\<close>

function search_base :: "Key list \<Rightarrow> u32 \<Rightarrow> nat \<Rightarrow> nat \<Rightarrow> nat" where
  "search_base ks kid base n =
     (if 1 < n then
        let half = n div 2; mid = base + half
        in search_base ks kid (if kid < id_key (ks ! mid) then base else mid) (n - half)
      else base)"
  by pat_completeness auto
termination
  by (relation "measure (\<lambda>(ks, kid, base, n). n)") auto

declare search_base.simps [simp del]

definition lookup_key :: "KeyStore \<Rightarrow> u32 \<Rightarrow> nat option" where
  "lookup_key s kid =
     (if keys s = [] then None
      else let base = search_base (keys s) kid 0 (length (keys s))
           in if id_key (keys s ! base) = kid then Some base else None)"

definition get_key_by_id :: "KeyStore \<Rightarrow> u32 \<Rightarrow> KeyStore \<times> nat option" where
  "get_key_by_id s kid =
     (if cache_valid s \<and> kid = cache_key_id s then (s, Some (cache_key_pos s))
      else case lookup_key s kid of
        None \<Rightarrow> (s, None)
      | Some pos \<Rightarrow> (s\<lparr>cache_valid := True, cache_key_pos := pos, cache_key_id := kid\<rparr>, Some pos))"

definition key_known :: "KeyStore \<Rightarrow> u32 \<Rightarrow> KeyStore \<times> bool" where
  "key_known s kid = (let (s, r) = get_key_by_id s kid in (s, r \<noteq> None))"

definition generate_auth :: "KeyStore \<Rightarrow> nat \<Rightarrow> bytes \<Rightarrow> bytes \<Rightarrow> (bytes \<times> nat) run" where
  "generate_auth s idx d out = do {
     k \<leftarrow> index (keys s) idx;
     case mac k of
       NtpMac val hid \<Rightarrow> hash_fn (backend s) hid val d out
     | Cmac algorithm key \<Rightarrow> cmac_hash (backend s) algorithm key d out
   }"

definition get_auth_length :: "KeyStore \<Rightarrow> u32 \<Rightarrow> (KeyStore \<times> int) run" where
  "get_auth_length s kid = (case get_key_by_id s kid of
       (s, None) \<Rightarrow> ret (s, 0)
     | (s, Some idx) \<Rightarrow> do {
         k \<leftarrow> index (keys s) idx;
         (buf, n) \<leftarrow> (case mac k of
             NtpMac val hid \<Rightarrow> hash_fn (backend s) hid [] [] (replicate MAX_HASH_LENGTH_KEYS 0)
           | Cmac algorithm key \<Rightarrow> cmac_hash (backend s) algorithm key [] (replicate MAX_HASH_LENGTH_KEYS 0));
         ret (s, as_i32 n)
       })"

definition check_key_length :: "KeyStore \<Rightarrow> u32 \<Rightarrow> (KeyStore \<times> bool) run" where
  "check_key_length s kid = (case get_key_by_id s kid of
       (s, None) \<Rightarrow> ret (s, False)
     | (s, Some idx) \<Rightarrow> do { k \<leftarrow> index (keys s) idx; ret (s, MIN_SECURE_KEY_LENGTH \<le> length_key k) })"

definition get_key_info :: "KeyStore \<Rightarrow> u32 \<Rightarrow> (KeyStore \<times> (int \<times> int) option) run" where
  "get_key_info s kid = (case get_key_by_id s kid of
       (s, None) \<Rightarrow> ret (s, None)
     | (s, Some idx) \<Rightarrow> do {
         k \<leftarrow> index (keys s) idx;
         n \<leftarrow> i32_mul 8 (as_i32 (length_key k));
         ret (s, Some (type_key k, n))
       })"

definition generate_key_auth :: "KeyStore \<Rightarrow> u32 \<Rightarrow> bytes \<Rightarrow> bytes \<Rightarrow> (KeyStore \<times> bytes \<times> nat) run" where
  "generate_key_auth s kid d auth = (case get_key_by_id s kid of
       (s, None) \<Rightarrow> ret (s, auth, 0)
     | (s, Some idx) \<Rightarrow> do { (auth, n) \<leftarrow> generate_auth s idx d auth; ret (s, auth, n) })"

definition check_key_auth :: "KeyStore \<Rightarrow> u32 \<Rightarrow> bytes \<Rightarrow> bytes \<Rightarrow> nat \<Rightarrow> (KeyStore \<times> bool) run" where
  "check_key_auth s kid d auth trunc_len = (case get_key_by_id s kid of
       (s, None) \<Rightarrow> ret (s, False)
     | (s, Some idx) \<Rightarrow> do {
         (buf, hash_len) \<leftarrow> generate_auth s idx d (replicate MAX_HASH_LENGTH_KEYS 0);
         if min hash_len trunc_len = length auth then do {
           b \<leftarrow> slice buf 0 (length auth);
           ret (s, b = auth)
         } else ret (s, False)
       })"

section \<open>Hexadecimal round trip\<close>

lemma unat_u8_less: "unat (b :: u8) < 256"
  using unsigned_less [of b, where 'a = nat] by simp

lemma to_digit16_hex_digit: "n < 16 \<Longrightarrow> to_digit16 (hex_digit n) = Some n"
proof -
  have "\<forall>n\<in>set [0..<16]. to_digit16 (hex_digit n) = Some n"
    by code_simp
  then show "n < 16 \<Longrightarrow> to_digit16 (hex_digit n) = Some n"
    by simp
qed

lemma hex_pairs_bytes_to_hex: "hex_pairs (bytes_to_hex buf) = Some buf"
proof (induction buf)
  case (Cons b buf)
  have "unat b div 16 < 16" "unat b mod 16 < 16"
    using unat_u8_less [of b] by simp_all
  with Cons show ?case
    by (simp add: bytes_to_hex_def to_digit16_hex_digit del: of_nat_add of_nat_mult)
qed (simp add: bytes_to_hex_def)

lemma even_bytes_to_hex: "even (length (bytes_to_hex buf))"
  by (induction buf) (simp_all add: bytes_to_hex_def)

section \<open>Lookup\<close>

text \<open>The keys of a file, in its order.\<close>

definition line_key :: "CryptoBackend \<Rightarrow> bytes \<Rightarrow> Key option" where
  "line_key be raw = (case load_line be raw of Some (Inr k) \<Rightarrow> Some k | _ \<Rightarrow> None)"

fun file_keys :: "CryptoBackend \<Rightarrow> bytes option \<Rightarrow> Key list" where
  "file_keys be None = []"
| "file_keys be (Some contents) = List.map_filter (line_key be) (str_lines contents)"

definition wf_store :: "KeyStore \<Rightarrow> bool" where
  "wf_store s \<longleftrightarrow> sorted (map id_key (keys s)) \<and>
     (cache_valid s \<longrightarrow> cache_key_pos s < length (keys s) \<and> id_key (keys s ! cache_key_pos s) = cache_key_id s)"

lemma load_lines_eq:
  "keys (load_lines raws s) = keys s @ List.map_filter (line_key (backend s)) raws \<and>
   backend (load_lines raws s) = backend s \<and> cache_valid (load_lines raws s) = cache_valid s"
proof (induction raws arbitrary: s)
  case (Cons raw raws)
  then show ?case
    by (cases "load_line (backend s) raw")
      (auto simp: line_key_def map_filter_simps split: sum.split option.split)
qed (simp add: map_filter_simps)

lemma reload_keys:
  "keys (reload s f) = sort_key id_key (file_keys (backend s) f)" "backend (reload s f) = backend s"
  "\<not> cache_valid (reload s f)"
  by (cases f; simp add: reload_def free_keys_def Let_def load_lines_eq)+

lemma wf_store_reload: "wf_store (reload s f)"
  by (simp add: wf_store_def reload_keys)

text \<open>The search narrows to a position that no later key matches.\<close>

lemma search_base_correct:
  assumes "sorted (map id_key ks)" and "0 < n" and "base + n \<le> length ks"
    and "\<forall>i. base + n \<le> i \<and> i < length ks \<longrightarrow> kid < id_key (ks ! i)" and "base = 0 \<or> id_key (ks ! base) \<le> kid"
  shows "search_base ks kid base n < length ks \<and>
    (\<forall>i. search_base ks kid base n < i \<and> i < length ks \<longrightarrow> kid < id_key (ks ! i)) \<and>
    (search_base ks kid base n = 0 \<or> id_key (ks ! search_base ks kid base n) \<le> kid)"
  using assms
proof (induction ks kid base n rule: search_base.induct)
  case (1 ks kid base n)
  show ?case
  proof (cases "1 < n")
    case False
    then have "n = 1"
      using 1(3) by simp
    moreover have "search_base ks kid base n = base"
      using False by (simp add: search_base.simps)
    ultimately show ?thesis
      using 1(4-6) by auto
  next
    case True
    let ?mid = "base + n div 2"
    let ?b = "if kid < id_key (ks ! ?mid) then base else ?mid"
    have run: "search_base ks kid base n = search_base ks kid ?b (n - n div 2)"
      using True by (subst search_base.simps) (simp add: Let_def)
    have mid: "?mid < length ks" "n - n div 2 < n" "0 < n - n div 2"
      using True 1(4) by auto
    have above: "\<forall>i. ?b + (n - n div 2) \<le> i \<and> i < length ks \<longrightarrow> kid < id_key (ks ! i)"
    proof (intro allI impI)
      fix i assume i: "?b + (n - n div 2) \<le> i \<and> i < length ks"
      show "kid < id_key (ks ! i)"
      proof (cases "kid < id_key (ks ! ?mid)")
        case True
        then have "base + (n - n div 2) \<le> i"
          using i by simp
        then have "?mid \<le> i"
          by linarith
        then have "id_key (ks ! ?mid) \<le> id_key (ks ! i)"
          using sorted_nth_mono [OF 1(2), of ?mid i] i by simp
        with True show ?thesis
          by simp
      next
        case False
        then show ?thesis
          using i 1(5) by simp
      qed
    qed
    have fits: "?b + (n - n div 2) \<le> length ks"
      using 1(4) mid(1) by auto
    have below: "?b = 0 \<or> id_key (ks ! ?b) \<le> kid"
      using 1(6) by (auto simp: not_less)
    show ?thesis
      unfolding run by (rule 1(1) [OF True refl refl 1(2) mid(3) fits above below])
  qed
qed

lemma lookup_key_correct:
  assumes "sorted (map id_key (keys s))"
  shows "case lookup_key s kid of
      None \<Rightarrow> kid \<notin> id_key ` set (keys s)
    | Some i \<Rightarrow> i < length (keys s) \<and> id_key (keys s ! i) = kid"
proof (cases "keys s = []")
  case True
  then show ?thesis
    by (simp add: lookup_key_def)
next
  case False
  let ?r = "search_base (keys s) kid 0 (length (keys s))"
  have "?r < length (keys s) \<and> (\<forall>i. ?r < i \<and> i < length (keys s) \<longrightarrow> kid < id_key (keys s ! i)) \<and>
      (?r = 0 \<or> id_key (keys s ! ?r) \<le> kid)"
    using False by (intro search_base_correct [OF assms]) auto
  then have r: "?r < length (keys s)" "\<And>i. ?r < i \<Longrightarrow> i < length (keys s) \<Longrightarrow> kid < id_key (keys s ! i)"
      "?r = 0 \<or> id_key (keys s ! ?r) \<le> kid"
    by blast+
  have "id_key (keys s ! ?r) = kid" if mem: "kid \<in> id_key ` set (keys s)"
  proof -
    obtain i where i: "i < length (keys s)" "id_key (keys s ! i) = kid"
      using mem by (auto simp: in_set_conv_nth)
    have "\<not> ?r < i"
      using r(2) [OF _ i(1)] i(2) by auto
    then have "i \<le> ?r"
      by simp
    then have "kid \<le> id_key (keys s ! ?r)"
      using sorted_nth_mono [OF assms, of i ?r] i r(1) by simp
    moreover have "id_key (keys s ! ?r) \<le> kid"
      using r(3) i(2) \<open>i \<le> ?r\<close> by (cases "?r = 0") auto
    ultimately show ?thesis
      by simp
  qed
  then show ?thesis
    using False r(1) by (auto simp: lookup_key_def Let_def)
qed

lemma get_key_by_id_correct:
  assumes "wf_store s"
  shows "\<exists>s' r. get_key_by_id s kid = (s', r) \<and> wf_store s' \<and> keys s' = keys s \<and> backend s' = backend s \<and>
    (case r of None \<Rightarrow> kid \<notin> id_key ` set (keys s)
     | Some i \<Rightarrow> i < length (keys s) \<and> id_key (keys s ! i) = kid \<and> get_key_by_id s' kid = (s', Some i))"
proof (cases "cache_valid s \<and> kid = cache_key_id s")
  case True
  then show ?thesis
    using assms by (simp add: get_key_by_id_def wf_store_def)
next
  case False
  then show ?thesis
    using assms lookup_key_correct [of s kid]
    by (auto simp: get_key_by_id_def wf_store_def split: option.splits)
qed

section \<open>Reachable stores\<close>

text \<open>The stores that hold the keys of file \<open>f\<close>: fresh, reloaded, or after lookups.\<close>

inductive key_reach :: "CryptoBackend \<Rightarrow> bytes option \<Rightarrow> KeyStore \<Rightarrow> bool" for be where
  fresh: "key_reach be f (initialise_with_backend be f)"
| reloaded: "key_reach be f s \<Longrightarrow> key_reach be f' (reload s f')"
| looked_up: "key_reach be f s \<Longrightarrow> key_reach be f (fst (get_key_by_id s kid))"

lemma key_reach_store:
  "key_reach be f s \<Longrightarrow> wf_store s \<and> backend s = be \<and> keys s = sort_key id_key (file_keys be f)"
proof (induction rule: key_reach.induct)
  case (fresh f)
  show ?case
    by (simp add: initialise_with_backend_def wf_store_reload reload_keys)
next
  case (reloaded f s f')
  then show ?case
    by (simp add: wf_store_reload reload_keys)
next
  case (looked_up f s kid)
  then show ?case
    using get_key_by_id_correct [of s kid] by auto
qed

lemma key_reach_lookup:
  assumes "key_reach be f s"
  shows "\<exists>s' r. get_key_by_id s kid = (s', r) \<and> key_reach be f s' \<and>
    (case r of None \<Rightarrow> kid \<notin> id_key ` set (file_keys be f)
     | Some i \<Rightarrow> i < length (keys s') \<and> keys s' ! i \<in> set (file_keys be f) \<and> id_key (keys s' ! i) = kid \<and>
         get_key_by_id s' kid = (s', Some i))"
proof -
  have s: "wf_store s" "keys s = sort_key id_key (file_keys be f)"
    using key_reach_store [OF assms] by simp_all
  obtain s' r where g: "get_key_by_id s kid = (s', r)" "keys s' = keys s"
      "case r of None \<Rightarrow> kid \<notin> id_key ` set (keys s)
       | Some i \<Rightarrow> i < length (keys s) \<and> id_key (keys s ! i) = kid \<and> get_key_by_id s' kid = (s', Some i)"
    using get_key_by_id_correct [OF s(1)] by blast
  have "set (keys s) = set (file_keys be f)"
    by (simp add: s(2))
  moreover have "keys s ! i \<in> set (keys s)" if "i < length (keys s)" for i
    using that by simp
  moreover have "key_reach be f s'"
    using looked_up [OF assms, of kid] g(1) by simp
  ultimately show ?thesis
    using g by (auto split: option.splits)
qed

text \<open>The internal backend stores keyed hashes only.\<close>

lemma make_key_internal: "make_key InternalMd5Backend kid t v = Inr k \<Longrightarrow> mac k = NtpMac v 0"
  by (auto simp: make_key_def InternalMd5Backend_def get_hash_id_def Let_def split: if_splits option.splits)

lemma file_keys_internal:
  assumes "k \<in> set (file_keys InternalMd5Backend f)"
  shows "\<exists>val. mac k = NtpMac val 0"
proof -
  obtain raw where "line_key InternalMd5Backend raw = Some k"
    using assms by (cases f) (auto simp: List.map_filter_def)
  then obtain kid t v where "make_key InternalMd5Backend kid t v = Inr k"
    by (auto simp: line_key_def load_line_def Let_def split: option.splits sum.splits if_splits)
  then show ?thesis
    using make_key_internal by blast
qed

lemma generate_auth_internal:
  assumes "backend s = InternalMd5Backend" and "i < length (keys s)" and "mac (keys s ! i) = NtpMac val 0"
  shows "generate_auth s i d out = Some (take (length out) (md5_ref (val @ d)) @ drop 16 out, min (length out) 16)"
  using assms by (simp add: generate_auth_def index_Some InternalMd5Backend_def hash_eq)

text \<open>The lookup of a key under the internal backend, with the MAC its entry computes.\<close>

lemma internal_lookup:
  assumes "key_reach InternalMd5Backend f s"
  obtains s' where "get_key_by_id s kid = (s', None)" "kid \<notin> id_key ` set (file_keys InternalMd5Backend f)"
  | s' i k val where "get_key_by_id s kid = (s', Some i)" "get_key_by_id s' kid = (s', Some i)"
      "k \<in> set (file_keys InternalMd5Backend f)" "id_key k = kid" "mac k = NtpMac val 0"
      "\<And>d out. generate_auth s' i d out = Some (take (length out) (md5_ref (val @ d)) @ drop 16 out, min (length out) 16)"
proof -
  obtain s' r where g: "get_key_by_id s kid = (s', r)" "key_reach InternalMd5Backend f s'"
      "case r of None \<Rightarrow> kid \<notin> id_key ` set (file_keys InternalMd5Backend f)
       | Some i \<Rightarrow> i < length (keys s') \<and> keys s' ! i \<in> set (file_keys InternalMd5Backend f) \<and> id_key (keys s' ! i) = kid \<and>
         get_key_by_id s' kid = (s', Some i)"
    using key_reach_lookup [OF assms] by blast
  show thesis
  proof (cases r)
    case None
    then show thesis
      using g(1,3) that(1) by simp
  next
    case (Some i)
    then have i: "i < length (keys s')" "keys s' ! i \<in> set (file_keys InternalMd5Backend f)" "id_key (keys s' ! i) = kid"
        "get_key_by_id s' kid = (s', Some i)"
      using g(3) by simp_all
    obtain val where val: "mac (keys s' ! i) = NtpMac val 0"
      using file_keys_internal [OF i(2)] by blast
    have "backend s' = InternalMd5Backend"
      using key_reach_store [OF g(2)] by simp
    note mac = generate_auth_internal [OF this i(1) val]
    show thesis
      using that(2) [OF _ i(4) i(2,3) val mac] g(1) Some by simp
  qed
qed

section \<open>Properties\<close>

text \<open>C33. The hexadecimal form of a byte string reads back as the byte string.\<close>

theorem hex_roundtrip: "hex_to_bytes (bytes_to_hex buf) = Some buf"
  using even_bytes_to_hex [of buf] by (simp add: hex_to_bytes_def hex_pairs_bytes_to_hex even_iff_mod_2_eq_zero)

text \<open>
  C34. Looking up a key, through the cache and the binary search, in any store reached by loading,
  reloading and earlier lookups: it finds nothing exactly when no line of the current file gives a key with the id,
  and otherwise the position of such a key.
\<close>

theorem key_lookup_correct:
  assumes "key_reach be f s"
  shows "\<exists>s' r. get_key_by_id s kid = (s', r) \<and> key_reach be f s' \<and>
    (case r of None \<Rightarrow> kid \<notin> id_key ` set (file_keys be f)
     | Some i \<Rightarrow> i < length (keys s') \<and> keys s' ! i \<in> set (file_keys be f) \<and> id_key (keys s' ! i) = kid)"
  using key_reach_lookup [OF assms, of kid] by (fastforce split: option.splits)

text \<open>
  C35. Checking a MAC returns without a panic, and accepts it exactly when the file has a key with the id
  and the MAC is the digest of that key and the message, cut to the given length.
\<close>

theorem check_key_auth_exact:
  assumes "key_reach InternalMd5Backend f s"
  shows "\<exists>s' ok. check_key_auth s kid d auth trunc_len = Some (s', ok) \<and>
    (if kid \<in> id_key ` set (file_keys InternalMd5Backend f)
     then \<exists>k\<in>set (file_keys InternalMd5Backend f). \<exists>val. id_key k = kid \<and> mac k = NtpMac val 0 \<and>
       (ok \<longleftrightarrow> auth = take trunc_len (md5_ref (val @ d)))
     else ok = False)"
proof (cases rule: internal_lookup [OF assms, of kid])
  case (1 s')
  then show ?thesis
    by (auto simp: check_key_auth_def)
next
  case (2 s' i k val)
  let ?h = "md5_ref (val @ d)"
  have run: "check_key_auth s kid d auth trunc_len = Some (s', min 16 trunc_len = length auth \<and> take (length auth) ?h = auth)"
    using 2(1) by (simp add: check_key_auth_def 2(6) MAX_HASH_LENGTH_KEYS_def slice_def min_def)
  have "min 16 trunc_len = length auth \<and> take (length auth) ?h = auth \<longleftrightarrow> auth = take trunc_len ?h"
    by (auto simp: min_def)
  with run show ?thesis
    using 2(3-5) by force
qed

text \<open>
  C36. A generated MAC is accepted: with any key of the file and an output buffer of any length, the bytes
  that generation writes pass the check of the same message, also when ids are duplicated.
\<close>

theorem generate_then_check:
  assumes "key_reach InternalMd5Backend f s" and "kid \<in> id_key ` set (file_keys InternalMd5Backend f)"
  shows "\<exists>s' out' n. generate_key_auth s kid d out = Some (s', out', n) \<and> n = min (length out) 16 \<and>
    check_key_auth s' kid d (take n out') n = Some (s', True)"
proof (cases rule: internal_lookup [OF assms(1), of kid])
  case (1 s')
  then show ?thesis
    using assms(2) by simp
next
  case (2 s' i k val)
  then show ?thesis
    by (simp add: generate_key_auth_def check_key_auth_def 2(6) MAX_HASH_LENGTH_KEYS_def slice_def min_def)
qed


section \<open>Witnesses\<close>

definition sample_keyfile :: "bytes option" where
  "sample_keyfile = Some (ascii ''2 ab'' @ [0x0a] @ ascii ''# comment'' @ [0x0a] @ ascii ''1 MD5 HEX:4142'')"

lemma sample_file_keys:
  "map (\<lambda>k. (id_key k, mac k)) (file_keys InternalMd5Backend sample_keyfile) = [(2, NtpMac [0x61, 0x62] 0), (1, NtpMac [0x41, 0x42] 0)]"
  by code_simp

lemma sample_ids: "id_key ` set (file_keys InternalMd5Backend sample_keyfile) = {2, 1}"
  using arg_cong [OF sample_file_keys, of "\<lambda>xs. set (map fst xs)"] by (simp add: image_image)

lemma sample_key_reach: "key_reach InternalMd5Backend sample_keyfile (initialise sample_keyfile)"
  unfolding initialise_def by (rule fresh)

theorem key_lookup_correct_witness:
  "\<exists>s' i. get_key_by_id (initialise sample_keyfile) 1 = (s', Some i) \<and> id_key (keys s' ! i) = 1"
  using key_lookup_correct [OF sample_key_reach, of 1] sample_ids by (auto split: option.splits)

theorem check_key_auth_exact_witness:
  "\<exists>s'. check_key_auth (initialise sample_keyfile) 3 [] [1, 2, 3, 4] 4 = Some (s', False)"
  using check_key_auth_exact [OF sample_key_reach, of 3 "[]" "[1, 2, 3, 4]" 4] sample_ids by auto

theorem generate_then_check_witness:
  "\<exists>s' out'. generate_key_auth (initialise sample_keyfile) 2 [9] (replicate 20 0) = Some (s', out', 16) \<and>
    check_key_auth s' 2 [9] (take 16 out') 16 = Some (s', True)"
  using generate_then_check [OF sample_key_reach, of 2 "[9]" "replicate 20 0"] sample_ids by auto

end
