(* ===== verification/NtsAuth.thy ===== *)
theory NtsAuth
  imports Ext
begin

text \<open>
  The authenticator extension field of NTS, \<open>crates/chrony-rs-core/src/nts_ntp_auth.rs\<close>: its
  layout (header, nonce, ciphertext and their padding) written by \<open>generate_auth_ef\<close> and read by \<open>decrypt_auth_ef\<close>,
  over the extension fields of theory \<open>Ext\<close>. The cipher is the trait \<open>Siv\<close>, a parameter: what the code
  relies on is \<open>siv_ok\<close>.
\<close>

section \<open>The cipher\<close>

text \<open>Encryption and decryption fill the output slice they are given and report success with it.\<close>

record Siv =
  max_nonce_length :: int
  tag_length :: int
  encrypt :: "bytes \<Rightarrow> bytes \<Rightarrow> bytes \<Rightarrow> bytes \<Rightarrow> bool \<times> bytes"
  decrypt :: "bytes \<Rightarrow> bytes \<Rightarrow> bytes \<Rightarrow> bytes \<Rightarrow> bool \<times> bytes"

text \<open>The documented contract: a slice keeps its length, and what was encrypted into a slice of
  \<open>tag_length + plaintext.len()\<close> bytes decrypts with the same nonce and associated data.\<close>

definition siv_ok :: "Siv \<Rightarrow> bool" where
  "siv_ok siv \<longleftrightarrow> 0 \<le> tag_length siv \<and>
     (\<forall>n a p out. length (snd (encrypt siv n a p out)) = length out) \<and>
     (\<forall>n a c out. length (snd (decrypt siv n a c out)) = length out) \<and>
     (\<forall>n a p out c out'. int (length out) = tag_length siv + int (length p) \<longrightarrow> encrypt siv n a p out = (True, c) \<longrightarrow>
        length out' = length p \<longrightarrow> decrypt siv n a c out' = (True, p))"

lemma encrypt_length: "siv_ok siv \<Longrightarrow> encrypt siv n a p out = (b, c) \<Longrightarrow> length c = length out"
  unfolding siv_ok_def by (metis snd_conv)

lemma decrypt_encrypted:
  "siv_ok siv \<Longrightarrow> int (length out) = tag_length siv + int (length p) \<Longrightarrow> encrypt siv n a p out = (True, c) \<Longrightarrow>
    length out' = length p \<Longrightarrow> decrypt siv n a c out' = (True, p)"
  unfolding siv_ok_def by blast

text \<open>Sizes of a real cipher: a tag of sixteen bytes or more and a nonce.\<close>

definition siv_sizes :: "Siv \<Rightarrow> bool" where
  "siv_sizes siv \<longleftrightarrow> 16 \<le> tag_length siv \<and> tag_length siv < 2 ^ 16 \<and> 0 < max_nonce_length siv \<and> max_nonce_length siv < 2 ^ 16"

section \<open>Lengths\<close>

definition NTP_EF_NTS_AUTH_AND_EEF_nna :: int where "NTP_EF_NTS_AUTH_AND_EEF_nna = 0x0404"
definition NTS_MIN_UNPADDED_NONCE_LENGTH :: int where "NTS_MIN_UNPADDED_NONCE_LENGTH = 16"
definition AUTH_HEADER_LEN :: int where "AUTH_HEADER_LEN = 4"

text \<open>The remainder of Rust has the sign of the dividend.\<close>

definition rem4 :: "int \<Rightarrow> int" where
  "rem4 x = (if x < 0 then - ((- x) mod 4) else x mod 4)"

definition get_padding_length :: "int \<Rightarrow> int" where
  "get_padding_length len = (if rem4 len \<noteq> 0 then 4 - rem4 len else 0)"

definition get_padded_length :: "int \<Rightarrow> int run" where
  "get_padded_length len = i32_add len (get_padding_length len)"

text \<open>The cast \<open>as usize\<close> of an \<open>i32\<close>.\<close>

definition as_usize :: "int \<Rightarrow> nat" where
  "as_usize x = nat (x mod 2 ^ 64)"

record AuthLayout =
  nonce_length :: int
  nonce_padding :: int
  ciphertext_length :: int
  ciphertext_padding :: int
  additional_padding :: int
  auth_length :: int

definition auth_layout :: "Siv \<Rightarrow> int \<Rightarrow> int \<Rightarrow> int \<Rightarrow> AuthLayout run" where
  "auth_layout siv max_len plaintext_length min_ef_length = do {
     let nl = min max_len (max_nonce_length siv);
     cl \<leftarrow> i32_add (tag_length siv) plaintext_length;
     let np = get_padding_length nl;
     let cp = get_padding_length cl;
     min_ef \<leftarrow> get_padded_length min_ef_length;
     a \<leftarrow> i32_add AUTH_HEADER_LEN nl;
     a \<leftarrow> i32_add a np;
     a \<leftarrow> i32_add a cl;
     a \<leftarrow> i32_add a cp;
     e \<leftarrow> i32_sub min_ef a;
     e \<leftarrow> i32_sub e 4;
     u \<leftarrow> i32_sub (min NTS_MIN_UNPADDED_NONCE_LENGTH (max_nonce_length siv)) nl;
     u \<leftarrow> i32_sub u np;
     let ap = max u (max e 0);
     a \<leftarrow> i32_add a ap;
     ret \<lparr>nonce_length = nl, nonce_padding = np, ciphertext_length = cl, ciphertext_padding = cp,
          additional_padding = ap, auth_length = a\<rparr>
   }"

section \<open>Writing the field\<close>

text \<open>The loop that sets \<open>buf[a..b]\<close> to zero.\<close>

definition zero_range :: "bytes \<Rightarrow> nat \<Rightarrow> nat \<Rightarrow> bytes run" where
  "zero_range buf a b = do { s \<leftarrow> slice buf a b; put buf a (replicate (b - a) 0) }"

text \<open>The header, the nonce and its padding; the packet and the offset of the ciphertext.\<close>

definition write_nonce :: "NtpPacketBuf \<Rightarrow> AuthLayout \<Rightarrow> nat \<Rightarrow> bytes \<Rightarrow> (NtpPacketBuf \<times> nat) run" where
  "write_nonce packet l header_off nonce = do {
     packet \<leftarrow> put packet header_off (be_bytes 2 (word_of_int (nonce_length l) :: u16));
     packet \<leftarrow> put packet (header_off + 2) (be_bytes 2 (word_of_int (ciphertext_length l) :: u16));
     let body_off = header_off + nat AUTH_HEADER_LEN;
     np \<leftarrow> i32_add (nonce_length l) (nonce_padding l);
     ciphertext_off \<leftarrow> u64_add body_off (as_usize np);
     e1 \<leftarrow> u64_add header_off (as_usize (auth_length l));
     t \<leftarrow> i32_add (ciphertext_length l) (ciphertext_padding l);
     t \<leftarrow> i32_add t (additional_padding l);
     e2 \<leftarrow> u64_add ciphertext_off (as_usize t);
     if e1 \<noteq> e2 then panic
     else do {
       n \<leftarrow> slice nonce 0 (as_usize (nonce_length l));
       nonce_end \<leftarrow> u64_add body_off (as_usize (nonce_length l));
       packet \<leftarrow> put packet body_off n;
       packet \<leftarrow> zero_range packet nonce_end ciphertext_off;
       ret (packet, ciphertext_off)
     }
   }"

text \<open>The ciphertext and the padding behind it.\<close>

definition write_ciphertext ::
  "Siv \<Rightarrow> NtpPacketBuf \<Rightarrow> AuthLayout \<Rightarrow> nat \<Rightarrow> int \<Rightarrow> bytes \<Rightarrow> bytes \<Rightarrow> (NtpPacketBuf \<times> bool) run" where
  "write_ciphertext siv packet l ciphertext_off assoc_length nonce plaintext = do {
     lft \<leftarrow> slice packet 0 ciphertext_off;
     assoc \<leftarrow> slice lft 0 (as_usize assoc_length);
     right \<leftarrow> slice packet ciphertext_off (length packet);
     out \<leftarrow> slice right 0 (as_usize (ciphertext_length l));
     n \<leftarrow> slice nonce 0 (as_usize (nonce_length l));
     let (ok, c) = encrypt siv n assoc plaintext out;
     packet \<leftarrow> put packet ciphertext_off c;
     if \<not> ok then ret (packet, False)
     else do {
       pad_start \<leftarrow> u64_add ciphertext_off (as_usize (ciphertext_length l));
       t \<leftarrow> i32_add (ciphertext_padding l) (additional_padding l);
       pad_end \<leftarrow> u64_add pad_start (as_usize t);
       packet \<leftarrow> zero_range packet pad_start pad_end;
       ret (packet, True)
     }
   }"

definition generate_auth_ef ::
  "Siv \<Rightarrow> NtpPacketBuf \<Rightarrow> NtpPacketInfo \<Rightarrow> bytes \<Rightarrow> int \<Rightarrow> bytes \<Rightarrow> int \<Rightarrow> (NtpPacketBuf \<times> NtpPacketInfo \<times> bool) run" where
  "generate_auth_ef siv packet info nonce max_len plaintext min_ef_length =
     (let plaintext_length = as_i32 (length plaintext) in
      if max_len \<le> 0 \<or> plaintext_length < 0 then ret (packet, info, False)
      else do {
        let assoc_length = info_length info;
        l \<leftarrow> auth_layout siv max_len plaintext_length min_ef_length;
        (packet, info, r) \<leftarrow> add_blank_field packet info NTP_EF_NTS_AUTH_AND_EEF_nna (auth_length l);
        case r of
          None \<Rightarrow> ret (packet, info, False)
        | Some header_off \<Rightarrow> do {
            (packet, ciphertext_off) \<leftarrow> write_nonce packet l header_off nonce;
            (packet, ok) \<leftarrow> write_ciphertext siv packet l ciphertext_off assoc_length nonce plaintext;
            if ok then ret (packet, info, True)
            else do {
              n \<leftarrow> i32_sub (ext_fields info) 1;
              ret (packet, info\<lparr>info_length := assoc_length, ext_fields := n\<rparr>, False)
            }
          }
      })"

section \<open>Reading the field\<close>

text \<open>The checks of the two lengths against the cipher and the output buffer.\<close>

definition lengths_ok :: "Siv \<Rightarrow> int \<Rightarrow> int \<Rightarrow> int \<Rightarrow> int \<Rightarrow> bool run" where
  "lengths_ok siv nl cl buffer_length blen =
     (if nl < 1 \<or> cl < tag_length siv then ret False
      else do {
        d \<leftarrow> i32_sub cl (tag_length siv);
        if d > buffer_length then ret False
        else do {
          pc \<leftarrow> get_padded_length cl;
          t \<leftarrow> i32_add AUTH_HEADER_LEN (min NTS_MIN_UNPADDED_NONCE_LENGTH (max_nonce_length siv));
          t \<leftarrow> i32_add t pc;
          ret (\<not> t > blen)
        }
      })"

text \<open>The decryption of a field whose lengths passed: the output buffer and the plaintext length.\<close>

definition decrypt_body ::
  "Siv \<Rightarrow> NtpPacketBuf \<Rightarrow> int \<Rightarrow> nat \<Rightarrow> nat \<Rightarrow> int \<Rightarrow> int \<Rightarrow> bytes \<Rightarrow> (bytes \<times> nat option) run" where
  "decrypt_body siv packet ef_start nonce_off ciphertext_off nl cl out = do {
     let plaintext_length = as_usize (cl - tag_length siv);
     nonce \<leftarrow> slice packet nonce_off (nonce_off + as_usize nl);
     assoc \<leftarrow> slice packet 0 (as_usize ef_start);
     ciphertext \<leftarrow> slice packet ciphertext_off (ciphertext_off + as_usize cl);
     dst \<leftarrow> slice out 0 plaintext_length;
     let (ok, p) = decrypt siv nonce assoc ciphertext dst;
     out \<leftarrow> put out 0 p;
     ret (out, if ok then Some plaintext_length else None)
   }"

definition decrypt_auth_ef ::
  "Siv \<Rightarrow> NtpPacketBuf \<Rightarrow> NtpPacketInfo \<Rightarrow> int \<Rightarrow> bytes \<Rightarrow> (bytes \<times> nat option) run" where
  "decrypt_auth_ef siv packet info ef_start out =
     (let buffer_length = as_i32 (length out) in
      if buffer_length < 0 then ret (out, None)
      else do {
        r \<leftarrow> parse_field packet (info_length info) ef_start;
        case r of
          None \<Rightarrow> ret (out, None)
        | Some pf \<Rightarrow>
            if field_type pf \<noteq> NTP_EF_NTS_AUTH_AND_EEF_nna \<or> body_length pf < AUTH_HEADER_LEN then ret (out, None)
            else do {
              let h = body_offset pf;
              nl \<leftarrow> rd_u16 packet h;
              cl \<leftarrow> rd_u16 packet (h + 2);
              pn \<leftarrow> get_padded_length nl;
              pc \<leftarrow> get_padded_length cl;
              t \<leftarrow> i32_add pn pc;
              if t > body_length pf then ret (out, None)
              else do {
                let nonce_off = h + nat AUTH_HEADER_LEN;
                let ciphertext_off = nonce_off + as_usize pn;
                ok \<leftarrow> lengths_ok siv nl cl buffer_length (body_length pf);
                if \<not> ok then ret (out, None)
                else decrypt_body siv packet ef_start nonce_off ciphertext_off nl cl out
              }
            }
      })"

lemmas auth_consts = NTP_EF_NTS_AUTH_AND_EEF_nna_def NTS_MIN_UNPADDED_NONCE_LENGTH_def AUTH_HEADER_LEN_def

section \<open>Padding and layout\<close>

lemma as_usize_nat [simp]: "0 \<le> x \<Longrightarrow> x < 2 ^ 64 \<Longrightarrow> as_usize x = nat x"
  by (simp add: as_usize_def)

lemma padding_range: "0 \<le> x \<Longrightarrow> 0 \<le> get_padding_length x \<and> get_padding_length x < 4 \<and> (x + get_padding_length x) mod 4 = 0"
  unfolding get_padding_length_def rem4_def by (auto; presburger)

lemma get_padded_length_Some:
  "0 \<le> x \<Longrightarrow> x < 2 ^ 30 \<Longrightarrow> get_padded_length x = Some (x + get_padding_length x)"
  using padding_range [of x] by (simp add: get_padded_length_def i32_add_def in_i32_def)

text \<open>The layout of a nonce and a plaintext in range: the field has room for all parts, and for a nonce that
  another implementation would not pad.\<close>

definition layout_ok :: "Siv \<Rightarrow> int \<Rightarrow> int \<Rightarrow> AuthLayout \<Rightarrow> bool" where
  "layout_ok siv max_len p l \<longleftrightarrow>
     nonce_length l = min max_len (max_nonce_length siv) \<and> 0 < nonce_length l \<and>
     nonce_padding l = get_padding_length (nonce_length l) \<and> ciphertext_length l = tag_length siv + p \<and>
     0 \<le> ciphertext_length l \<and> ciphertext_padding l = get_padding_length (ciphertext_length l) \<and>
     0 \<le> additional_padding l \<and>
     auth_length l = 4 + nonce_length l + nonce_padding l + ciphertext_length l + ciphertext_padding l + additional_padding l \<and>
     min 16 (max_nonce_length siv) \<le> nonce_length l + nonce_padding l + additional_padding l \<and>
     auth_length l < 2 ^ 30"

lemma auth_layout_Some:
  assumes "0 < max_len" "max_len < 2 ^ 16" "0 < max_nonce_length siv" "max_nonce_length siv < 2 ^ 16"
    and "0 \<le> tag_length siv" "tag_length siv < 2 ^ 16" "0 \<le> p" "p < 2 ^ 16" "0 \<le> min_ef" "min_ef < 2 ^ 16"
  shows "\<exists>l. auth_layout siv max_len p min_ef = Some l \<and> layout_ok siv max_len p l"
proof -
  define nl where "nl = min max_len (max_nonce_length siv)"
  define cl where "cl = tag_length siv + p"
  define np where "np = get_padding_length nl"
  define cp where "cp = get_padding_length cl"
  define mp where "mp = min_ef + get_padding_length min_ef"
  define m16 where "m16 = min 16 (max_nonce_length siv)"
  define ap where "ap = max (m16 - nl - np) (max (mp - (4 + nl + np + cl + cp) - 4) 0)"
  have nl: "0 < nl" "nl < 2 ^ 16" and cl: "0 \<le> cl" "cl < 2 ^ 17" and m16: "0 < m16" "m16 \<le> 16"
    using assms by (simp_all add: nl_def cl_def m16_def)
  have np: "0 \<le> np" "np < 4" and cp: "0 \<le> cp" "cp < 4" and mp: "0 \<le> mp" "mp < 2 ^ 17"
    using nl cl assms padding_range [of nl] padding_range [of cl] padding_range [of min_ef]
    by (simp_all add: np_def cp_def mp_def)
  have ap: "0 \<le> ap" "ap < 2 ^ 18" "m16 \<le> nl + np + ap"
    using nl cl m16 np cp mp by (auto simp: ap_def)
  have small: "in_i32 x" if "- (2 ^ 20) < x" "x < 2 ^ 20" for x :: int
    using that by (simp add: in_i32_def)
  have steps: "i32_add (tag_length siv) p = Some cl" "get_padded_length min_ef = Some mp" "i32_add 4 nl = Some (4 + nl)"
      "i32_add (4 + nl) np = Some (4 + nl + np)" "i32_add (4 + nl + np) cl = Some (4 + nl + np + cl)"
      "i32_add (4 + nl + np + cl) cp = Some (4 + nl + np + cl + cp)"
      "i32_sub mp (4 + nl + np + cl + cp) = Some (mp - (4 + nl + np + cl + cp))"
      "i32_sub (mp - (4 + nl + np + cl + cp)) 4 = Some (mp - (4 + nl + np + cl + cp) - 4)"
      "i32_sub m16 nl = Some (m16 - nl)" "i32_sub (m16 - nl) np = Some (m16 - nl - np)"
      "i32_add (4 + nl + np + cl + cp) ap = Some (4 + nl + np + cl + cp + ap)"
    using nl cl m16 np cp mp ap assms unfolding cl_def [symmetric]
    by (simp_all add: i32_add_Some i32_sub_Some small get_padded_length_Some mp_def cl_def)
  have "auth_layout siv max_len p min_ef = Some \<lparr>nonce_length = nl, nonce_padding = np, ciphertext_length = cl,
      ciphertext_padding = cp, additional_padding = ap, auth_length = 4 + nl + np + cl + cp + ap\<rparr>"
    unfolding auth_layout_def Let_def auth_consts nl_def [symmetric] m16_def [symmetric]
    by (simp only: steps bind.bind_lunit np_def [symmetric] cp_def [symmetric] ap_def [symmetric])
  then show ?thesis
    using nl cl np cp ap by (simp add: layout_ok_def nl_def np_def cl_def cp_def m16_def)
qed

section \<open>The written field\<close>

text \<open>A write right behind the part that is done.\<close>

lemma put_next:
  "off = length done \<Longrightarrow> length src \<le> length rest \<Longrightarrow>
    put (done @ rest) off src = Some ((done @ src) @ drop (length src) rest)"
  by (simp add: put_def)

lemma zero_next:
  "off = length done \<Longrightarrow> e = off + n \<Longrightarrow> n \<le> length rest \<Longrightarrow>
    zero_range (done @ rest) off e = Some ((done @ replicate n 0) @ drop n rest)"
  by (simp add: zero_range_def slice_def put_def)

definition auth_head :: "AuthLayout \<Rightarrow> bytes \<Rightarrow> bytes" where
  "auth_head l nonce = be_bytes 2 (word_of_int (nonce_length l) :: u16) @ be_bytes 2 (word_of_int (ciphertext_length l) :: u16) @
     take (nat (nonce_length l)) nonce @ replicate (nat (nonce_padding l)) 0"

lemma layout_parts:
  assumes "layout_ok siv max_len p l"
  shows "0 < nonce_length l" "0 \<le> nonce_padding l" "nonce_padding l < 4" "0 \<le> ciphertext_length l" "0 \<le> ciphertext_padding l"
    "ciphertext_padding l < 4" "0 \<le> additional_padding l"
    "auth_length l = 4 + nonce_length l + nonce_padding l + ciphertext_length l + ciphertext_padding l + additional_padding l"
    "auth_length l < 2 ^ 30"
  using assms padding_range [of "nonce_length l"] padding_range [of "ciphertext_length l"] by (auto simp: layout_ok_def)

lemma length_auth_head:
  assumes "layout_ok siv max_len p l" and "nat (nonce_length l) \<le> length nonce"
  shows "length (auth_head l nonce) = 4 + nat (nonce_length l) + nat (nonce_padding l)"
  using assms(2) by (simp add: auth_head_def)

lemma write_nonce_Some:
  assumes l: "layout_ok siv max_len p l" and n: "nat (nonce_length l) \<le> length nonce"
    and off: "off = length d" "off < 2 ^ 30" and room: "nat (auth_length l) \<le> length r"
  shows "write_nonce (d @ r) l off nonce =
    Some ((d @ auth_head l nonce) @ drop (4 + nat (nonce_length l) + nat (nonce_padding l)) r,
      off + 4 + nat (nonce_length l) + nat (nonce_padding l))"
proof -
  note parts = layout_parts [OF l]
  let ?n = "nat (nonce_length l)" and ?np = "nat (nonce_padding l)" and ?c = "nat (ciphertext_length l)"
  let ?nb = "be_bytes 2 (word_of_int (nonce_length l) :: u16)" and ?cb = "be_bytes 2 (word_of_int (ciphertext_length l) :: u16)"
  have size: "4 + ?n + ?np \<le> length r" "?n + ?np < 2 ^ 30"
    using parts room by auto
  have p1: "put (d @ r) off ?nb = Some ((d @ ?nb) @ drop 2 r)"
    using put_next [OF off(1), of ?nb r] size by simp
  have p2: "put ((d @ ?nb) @ drop 2 r) (off + 2) ?cb = Some (((d @ ?nb) @ ?cb) @ drop 4 r)"
    using put_next [of "off + 2" "d @ ?nb" ?cb "drop 2 r"] size off by simp
  have p3: "put (((d @ ?nb) @ ?cb) @ drop 4 r) (off + 4) (take ?n nonce) = Some ((((d @ ?nb) @ ?cb) @ take ?n nonce) @ drop (4 + ?n) r)"
    using put_next [of "off + 4" "(d @ ?nb) @ ?cb" "take ?n nonce" "drop 4 r"] size off n by (simp add: add.commute min_def)
  have p4: "zero_range ((((d @ ?nb) @ ?cb) @ take ?n nonce) @ drop (4 + ?n) r) (off + 4 + ?n) (off + 4 + ?n + ?np) =
      Some (((((d @ ?nb) @ ?cb) @ take ?n nonce) @ replicate ?np 0) @ drop (4 + ?n + ?np) r)"
    using zero_next [of "off + 4 + ?n" "((d @ ?nb) @ ?cb) @ take ?n nonce" "off + 4 + ?n + ?np" ?np "drop (4 + ?n) r"] size off n
    by (simp add: add.commute min_def)
  have adds: "i32_add (nonce_length l) (nonce_padding l) = Some (nonce_length l + nonce_padding l)"
      "i32_add (ciphertext_length l) (ciphertext_padding l) = Some (ciphertext_length l + ciphertext_padding l)"
      "i32_add (ciphertext_length l + ciphertext_padding l) (additional_padding l) =
        Some (ciphertext_length l + ciphertext_padding l + additional_padding l)"
    using parts by (simp_all add: i32_add_def in_i32_def)
  have usize: "as_usize (nonce_length l) = ?n" "as_usize (nonce_length l + nonce_padding l) = ?n + ?np"
      "as_usize (auth_length l) = nat (auth_length l)"
      "as_usize (ciphertext_length l + ciphertext_padding l + additional_padding l) =
        nat (ciphertext_length l + ciphertext_padding l + additional_padding l)"
    using parts by (simp_all add: nat_add_distrib)
  have offs: "u64_add (off + 4) (?n + ?np) = Some (off + 4 + ?n + ?np)" "u64_add (off + 4) ?n = Some (off + 4 + ?n)"
      "u64_add off (nat (auth_length l)) = Some (off + nat (auth_length l))"
      "u64_add (off + 4 + ?n + ?np) (nat (ciphertext_length l + ciphertext_padding l + additional_padding l)) =
        Some (off + nat (auth_length l))"
    using parts off(2) by (simp_all add: u64_add_def nat_add_distrib)
  have "slice nonce 0 ?n = Some (take ?n nonce)"
    using n by (simp add: slice_def)
  then show ?thesis
    unfolding write_nonce_def Let_def auth_consts
    by (simp only: p1 [unfolded append_assoc] p2 [unfolded append_assoc] p3 [unfolded append_assoc] p4 [unfolded append_assoc]
        adds usize offs bind.bind_lunit refl not_True_eq_False if_False nat_numeral auth_head_def append_assoc simp_thms)
qed

lemma write_ciphertext_Some:
  assumes l: "layout_ok siv max_len p l" and n: "nat (nonce_length l) \<le> length nonce" and siv: "siv_ok siv"
    and off: "off = length d" "off < 2 ^ 31" and a: "0 \<le> a" "nat a \<le> length d" "a < 2 ^ 31"
    and room: "nat (ciphertext_length l + ciphertext_padding l + additional_padding l) \<le> length r"
    and enc: "encrypt siv (take (nat (nonce_length l)) nonce) (take (nat a) d) plaintext (take (nat (ciphertext_length l)) r) = (True, c)"
  shows "write_ciphertext siv (d @ r) l off a nonce plaintext =
    Some ((d @ c @ replicate (nat (ciphertext_padding l + additional_padding l)) 0) @
      drop (nat (ciphertext_length l + ciphertext_padding l + additional_padding l)) r, True)"
proof -
  note parts = layout_parts [OF l]
  let ?c = "nat (ciphertext_length l)" and ?z = "nat (ciphertext_padding l + additional_padding l)"
  have sum: "nat (ciphertext_length l + ciphertext_padding l + additional_padding l) = ?c + ?z"
    using parts by (simp add: nat_add_distrib)
  have "length (snd (encrypt siv (take (nat (nonce_length l)) nonce) (take (nat a) d) plaintext (take ?c r))) = length (take ?c r)"
    using siv by (simp add: siv_ok_def)
  then have len: "length c = ?c"
    using room sum by (simp add: enc min_def)
  have slices: "slice (d @ r) 0 off = Some d" "slice d 0 (nat a) = Some (take (nat a) d)"
      "slice (d @ r) off (length (d @ r)) = Some r" "slice r 0 ?c = Some (take ?c r)"
      "slice nonce 0 (nat (nonce_length l)) = Some (take (nat (nonce_length l)) nonce)"
    using off a room sum n by (simp_all add: slice_def)
  have usize: "as_usize a = nat a" "as_usize (ciphertext_length l) = ?c" "as_usize (nonce_length l) = nat (nonce_length l)"
      "as_usize (ciphertext_padding l + additional_padding l) = ?z"
    using a parts by simp_all
  have adds: "u64_add off ?c = Some (off + ?c)" "u64_add (off + ?c) ?z = Some (off + ?c + ?z)"
      "i32_add (ciphertext_padding l) (additional_padding l) = Some (ciphertext_padding l + additional_padding l)"
    using off(2) parts by (simp_all add: u64_add_def i32_add_def in_i32_def)
  have p1: "put (d @ r) off c = Some ((d @ c) @ drop ?c r)"
    using put_next [OF off(1), of c r] room sum len by simp
  have p2: "zero_range ((d @ c) @ drop ?c r) (off + ?c) (off + ?c + ?z) = Some (((d @ c) @ replicate ?z 0) @ drop (?c + ?z) r)"
    using zero_next [of "off + ?c" "d @ c" "off + ?c + ?z" ?z "drop ?c r"] room sum len off(1) by (simp add: add.commute)
  show ?thesis
    unfolding write_ciphertext_def Let_def
    by (simp only: usize slices enc split_conv p1 [unfolded append_assoc] p2 [unfolded append_assoc] adds sum bind.bind_lunit not_True_eq_False if_False append_assoc)
qed

section \<open>The round trip\<close>

lemma add_blank_field_ok:
  assumes "version info = 4" "48 \<le> info_length info" "in_i32 (ext_fields info + 1)" "12 \<le> blen"
    and fits: "field_fits packet NTP_PACKET_SIZE (info_length info) blen"
  shows "add_blank_field packet info ftype blen =
    Some ((take (nat (info_length info)) packet @ field_header ftype (4 + blen)) @ drop (nat (info_length info) + 4) packet,
      info\<lparr>info_length := info_length info + (4 + blen), ext_fields := ext_fields info + 1\<rparr>, Some (nat (info_length info) + 4))"
proof -
  have "info_length info < NTP_PACKET_SIZE" "info_length info mod 4 = 0"
    and "i32_add (info_length info) (4 + blen) = Some (info_length info + (4 + blen))" "i32_add (ext_fields info) 1 = Some (ext_fields info + 1)"
    using assms by (auto simp: field_fits_def i32_add_def in_i32_def ext_consts)
  then show ?thesis
    using assms(1,2,4) format_field_ok [OF fits, of ftype]
    by (simp add: add_blank_field_def Let_def NTP_HEADER_LENGTH_def NTP_MIN_EF_LENGTH_def)
qed

lemma length_field_header [simp]: "length (field_header t n) = 4"
  by (simp add: field_header_def)

text \<open>The packet with the field: what was there, the field header, the parts of the field, what follows.\<close>

definition auth_packet :: "NtpPacketBuf \<Rightarrow> nat \<Rightarrow> AuthLayout \<Rightarrow> bytes \<Rightarrow> bytes \<Rightarrow> NtpPacketBuf" where
  "auth_packet packet s l nonce c =
     take s packet @ field_header NTP_EF_NTS_AUTH_AND_EEF_nna (4 + auth_length l) @ auth_head l nonce @
     c @ replicate (nat (ciphertext_padding l + additional_padding l)) 0 @ drop (s + 4 + nat (auth_length l)) packet"

lemma generate_auth_ef_Some:
  assumes info: "version info = 4" "48 \<le> info_length info" "in_i32 (ext_fields info + 1)"
    and l: "auth_layout siv max_len (int (length plaintext)) min_ef = Some l" "layout_ok siv max_len (int (length plaintext)) l"
    and siv: "siv_ok siv" and sizes: "0 < max_len" "length plaintext < 2 ^ 16" "20 \<le> auth_length l"
    and fits: "field_fits packet NTP_PACKET_SIZE (info_length info) (auth_length l)" and n: "nat (nonce_length l) \<le> length nonce"
    and enc: "\<And>out. fst (encrypt siv (take (nat (nonce_length l)) nonce) (take (nat (info_length info)) packet) plaintext out)"
  shows "\<exists>c out. generate_auth_ef siv packet info nonce max_len plaintext min_ef =
      Some (auth_packet packet (nat (info_length info)) l nonce c,
        info\<lparr>info_length := info_length info + (4 + auth_length l), ext_fields := ext_fields info + 1\<rparr>, True) \<and>
    encrypt siv (take (nat (nonce_length l)) nonce) (take (nat (info_length info)) packet) plaintext out = (True, c) \<and>
    length out = nat (ciphertext_length l)"
proof -
  note parts = layout_parts [OF l(2)]
  let ?s = "nat (info_length info)" and ?n = "nat (nonce_length l)" and ?np = "nat (nonce_padding l)"
  let ?t = "nat (ciphertext_length l + ciphertext_padding l + additional_padding l)"
  let ?h = "take ?s packet @ field_header NTP_EF_NTS_AUTH_AND_EEF_nna (4 + auth_length l)"
  let ?r = "drop (?s + 4) packet" and ?r' = "drop (4 + ?n + ?np) (drop (?s + 4) packet)"
  have len: "?s + 4 + nat (auth_length l) \<le> length packet" "?s + 4 < 2 ^ 30"
    using fits by (auto simp: field_fits_def ext_consts)
  have start: "info_length info < 2 ^ 31"
    using fits by (auto simp: field_fits_def ext_consts)
  have auth: "nat (auth_length l) = 4 + ?n + ?np + ?t"
    using parts by (simp add: nat_add_distrib)
  have h: "?s + 4 = length ?h" and room: "nat (auth_length l) \<le> length ?r" "?t \<le> length ?r'"
    using len auth unfolding length_drop by (simp, linarith, linarith)
  let ?out = "take (nat (ciphertext_length l)) ?r'"
  obtain c where c: "encrypt siv (take ?n nonce) (take ?s packet) plaintext ?out = (True, c)"
    using enc [of ?out] by (metis prod.collapse)
  have assoc: "take (nat (info_length info)) (?h @ auth_head l nonce) = take ?s packet"
    using len by simp
  have enc': "encrypt siv (take ?n nonce) (take (nat (info_length info)) (?h @ auth_head l nonce)) plaintext ?out = (True, c)"
    by (simp only: assoc c)
  have a0: "0 \<le> info_length info" and a1: "?s \<le> length (?h @ auth_head l nonce)"
    using info(2) len by simp_all
  have off: "?s + 4 + 4 + ?n + ?np = length (?h @ auth_head l nonce)"
    using length_auth_head [OF l(2) n] h by simp
  have "nat (auth_length l) < 2 ^ 30"
    using parts(9) by simp
  then have small: "?s + 4 + 4 + ?n + ?np < 2 ^ 31"
    using len(2) unfolding auth by simp
  note nonce = write_nonce_Some [OF l(2) n h len(2) room(1)]
  have "write_ciphertext siv ((?h @ auth_head l nonce) @ ?r') l (?s + 4 + 4 + ?n + ?np) (info_length info) nonce plaintext =
      Some (((?h @ auth_head l nonce) @ c @ replicate (nat (ciphertext_padding l + additional_padding l)) 0) @ drop ?t ?r', True)"
    by (rule write_ciphertext_Some [OF l(2) n siv off small a0 a1 start room(2) enc'])
  moreover have "drop ?t ?r' = drop (?s + 4 + nat (auth_length l)) packet"
    unfolding auth drop_drop by (rule arg_cong [where f = "\<lambda>k. drop k packet"]) linarith
  moreover have "as_i32 (length plaintext) = int (length plaintext)"
    using sizes(2) by simp
  ultimately have "generate_auth_ef siv packet info nonce max_len plaintext min_ef =
      Some (auth_packet packet ?s l nonce c,
        info\<lparr>info_length := info_length info + (4 + auth_length l), ext_fields := ext_fields info + 1\<rparr>, True)"
    using sizes(1,3) l(1) nonce add_blank_field_ok [OF info, of "auth_length l" packet NTP_EF_NTS_AUTH_AND_EEF_nna] fits
    by (simp add: generate_auth_ef_def Let_def auth_packet_def)
  moreover have "nat (ciphertext_length l) \<le> ?t"
    using parts by simp
  then have "length ?out = nat (ciphertext_length l)"
    using order_trans [OF _ room(2)] by (simp only: length_take min_absorb2)
  ultimately show ?thesis
    using c by blast
qed

text \<open>The parts of the written field, read back.\<close>

lemma slice_at: "b = x @ y @ z \<Longrightarrow> i = length x \<Longrightarrow> j = i + length y \<Longrightarrow> slice b i j = Some y"
  by (simp add: slice_def)

lemma rd_u16_split:
  assumes "b = x @ be_bytes 2 (word_of_int v :: u16) @ z" and "i = length x" and "0 \<le> v" "v < 65536"
  shows "rd_u16 b i = Some v"
proof -
  have "rd_u16 b i = Some (uint (word_of_int v :: u16))"
    using assms(1,2) by (intro rd_u16_at) simp
  then show ?thesis
    using assms(3,4) by (simp add: take_bit_int_eq_self unsigned_of_int)
qed

lemma auth_packet_parts:
  assumes l: "layout_ok siv max_len p l" and n: "nat (nonce_length l) \<le> length nonce" and s: "s \<le> length packet"
    and c: "length c = nat (ciphertext_length l)" and range: "auth_length l < 65536"
  shows "slice (auth_packet packet s l nonce c) 0 s = Some (take s packet)"
    "take 4 (drop s (auth_packet packet s l nonce c)) = field_header NTP_EF_NTS_AUTH_AND_EEF_nna (4 + auth_length l)"
    "rd_u16 (auth_packet packet s l nonce c) (s + 4) = Some (nonce_length l)"
    "rd_u16 (auth_packet packet s l nonce c) (s + 4 + 2) = Some (ciphertext_length l)"
    "slice (auth_packet packet s l nonce c) (s + 8) (s + 8 + nat (nonce_length l)) = Some (take (nat (nonce_length l)) nonce)"
    "slice (auth_packet packet s l nonce c) (s + 8 + nat (nonce_length l + nonce_padding l))
      (s + 8 + nat (nonce_length l + nonce_padding l) + nat (ciphertext_length l)) = Some c"
proof -
  note parts = layout_parts [OF l]
  let ?b = "auth_packet packet s l nonce c"
  let ?h = "field_header NTP_EF_NTS_AUTH_AND_EEF_nna (4 + auth_length l)" and ?n = "nat (nonce_length l)"
  let ?nb = "be_bytes 2 (word_of_int (nonce_length l) :: u16)" and ?cb = "be_bytes 2 (word_of_int (ciphertext_length l) :: u16)"
  let ?zn = "replicate (nat (nonce_padding l)) 0"
  let ?z = "replicate (nat (ciphertext_padding l + additional_padding l)) 0 @ drop (s + 4 + nat (auth_length l)) packet"
  have b: "?b = take s packet @ ?h @ ?nb @ ?cb @ take ?n nonce @ ?zn @ c @ ?z"
    by (simp add: auth_packet_def auth_head_def)
  have u16: "0 \<le> nonce_length l" "nonce_length l < 65536" "0 \<le> ciphertext_length l" "ciphertext_length l < 65536"
    using parts range by simp_all
  show "slice ?b 0 s = Some (take s packet)"
    using s by (intro slice_at [of _ "[]"]) (simp_all add: b)
  show "take 4 (drop s ?b) = ?h"
    using s by (simp add: b)
  show "rd_u16 ?b (s + 4) = Some (nonce_length l)"
    using s u16 by (intro rd_u16_split [of _ "take s packet @ ?h"]) (simp_all add: b del: be_bytes.simps)
  show "rd_u16 ?b (s + 4 + 2) = Some (ciphertext_length l)"
    using s u16 by (intro rd_u16_split [of _ "take s packet @ ?h @ ?nb"]) (simp_all add: b del: be_bytes.simps)
  show "slice ?b (s + 8) (s + 8 + ?n) = Some (take ?n nonce)"
    using s n by (intro slice_at [of _ "take s packet @ ?h @ ?nb @ ?cb"]) (simp_all add: b del: be_bytes.simps)
  show "slice ?b (s + 8 + nat (nonce_length l + nonce_padding l)) (s + 8 + nat (nonce_length l + nonce_padding l) + nat (ciphertext_length l)) = Some c"
    using s n c parts
    by (intro slice_at [of _ "take s packet @ ?h @ ?nb @ ?cb @ take ?n nonce @ ?zn"])
      (simp_all add: b nat_add_distrib del: be_bytes.simps)
qed

lemma length_auth_packet:
  assumes "layout_ok siv max_len p l" "nat (nonce_length l) \<le> length nonce" "length c = nat (ciphertext_length l)"
    and "s + 4 + nat (auth_length l) \<le> length packet"
  shows "length (auth_packet packet s l nonce c) = length packet"
  using assms(2-4) layout_parts [OF assms(1)] by (simp add: auth_packet_def auth_head_def nat_add_distrib)

lemma parse_auth_packet:
  assumes l: "layout_ok siv max_len p l" and n: "nat (nonce_length l) \<le> length nonce" "length c = nat (ciphertext_length l)"
    and ver: "lvm_to_version (packet ! 0) = 4" and start: "48 \<le> start" "24 \<le> auth_length l"
    and fits: "field_fits packet NTP_PACKET_SIZE start (auth_length l)"
  shows "parse_field (auth_packet packet (nat start) l nonce c) (start + (4 + auth_length l)) start =
    Some (Some \<lparr>field_length = 4 + auth_length l, field_type = NTP_EF_NTS_AUTH_AND_EEF_nna,
      body_offset = nat start + 4, body_length = auth_length l\<rparr>)"
proof -
  let ?b = "auth_packet packet (nat start) l nonce c"
  have len: "nat start + 4 + nat (auth_length l) \<le> length packet" "nat start \<le> length packet" "auth_length l < 65536"
    using fits by (auto simp: field_fits_def)
  have b: "length ?b = length packet" "?b ! 0 = packet ! 0"
    using length_auth_packet [OF l n len(1)] start(1) len(2) by (simp_all add: auth_packet_def nth_append)
  have fits': "field_fits ?b (start + (4 + auth_length l)) start (auth_length l)"
    using fits b(1) len by (auto simp: field_fits_def ext_consts)
  have "parse_single_field ?b (start + (4 + auth_length l)) start =
      Some (Some \<lparr>field_length = 4 + auth_length l, field_type = NTP_EF_NTS_AUTH_AND_EEF_nna,
        body_offset = nat start + 4, body_length = auth_length l\<rparr>)"
    using auth_packet_parts(2) [OF l n(1) len(2) n(2) len(3)]
    by (intro parse_single_field_at [OF fits']) (simp_all add: NTP_EF_NTS_AUTH_AND_EEF_nna_def)
  moreover have "(start + (4 + auth_length l)) mod 4 = 0" "start mod 4 = 0" "start + (4 + auth_length l) \<le> NTP_PACKET_SIZE"
    using fits unfolding field_fits_def by presburger+
  moreover have "0 < length ?b"
    using b(1) len(1) by linarith
  ultimately show ?thesis
    using ver start b(2)
    by (simp add: parse_field_def get_lvm_def index_def NTP_HEADER_LENGTH_def NTP_MAX_V4_MAC_LENGTH_def NTP_MIN_EF_LENGTH_def)
qed

lemma lengths_ok_Some:
  assumes l: "layout_ok siv max_len (int p) l" and sizes: "siv_sizes siv" "auth_length l < 65536" and out: "int p \<le> out_len"
  shows "lengths_ok siv (nonce_length l) (ciphertext_length l) out_len (auth_length l) = Some True"
proof -
  note parts = layout_parts [OF l]
  have l': "ciphertext_length l = tag_length siv + int p" "ciphertext_padding l = get_padding_length (ciphertext_length l)"
      "min 16 (max_nonce_length siv) \<le> nonce_length l + nonce_padding l + additional_padding l"
    using l unfolding layout_ok_def by blast+
  have "i32_sub (ciphertext_length l) (tag_length siv) = Some (int p)"
    using l'(1) parts sizes by (auto simp: i32_sub_def in_i32_def siv_sizes_def)
  moreover have "get_padded_length (ciphertext_length l) = Some (ciphertext_length l + ciphertext_padding l)"
    using l'(2) parts sizes(2) by (simp add: get_padded_length_Some)
  moreover have "i32_add 4 (min 16 (max_nonce_length siv)) = Some (4 + min 16 (max_nonce_length siv))"
      "i32_add (4 + min 16 (max_nonce_length siv)) (ciphertext_length l + ciphertext_padding l) =
        Some (4 + min 16 (max_nonce_length siv) + (ciphertext_length l + ciphertext_padding l))"
    using parts sizes by (auto simp: i32_add_def in_i32_def siv_sizes_def)
  moreover have "\<not> 4 + min 16 (max_nonce_length siv) + (ciphertext_length l + ciphertext_padding l) > auth_length l"
    using l'(3) parts by linarith
  moreover have "\<not> (nonce_length l < 1 \<or> ciphertext_length l < tag_length siv)" "\<not> int p > out_len"
    using parts(1) l'(1) out by auto
  ultimately show ?thesis
    unfolding lengths_ok_def auth_consts by (simp only: if_False bind.bind_lunit simp_thms)
qed

lemma decrypt_body_Some:
  assumes "slice packet no (no + nat nl) = Some nonce" "slice packet 0 (nat start) = Some assoc"
    and "slice packet co (co + nat cl) = Some c" and "0 \<le> nl" "nl < 2 ^ 31" "0 \<le> cl" "cl < 2 ^ 31" "0 \<le> start" "start < 2 ^ 31"
    and p: "cl = tag_length siv + int (length p)" "length p \<le> length out" "int (length p) < 2 ^ 31"
    and dec: "decrypt siv nonce assoc c (take (length p) out) = (True, p)"
  shows "decrypt_body siv packet start no co nl cl out = Some (p @ drop (length p) out, Some (length p))"
  using assms(1-9) p(2,3) dec by (simp add: decrypt_body_def Let_def p(1) slice_def [of out] put_def)

lemma decrypt_generated:
  assumes l: "layout_ok siv max_len (int (length plaintext)) l" and n: "nat (nonce_length l) \<le> length nonce"
    and siv: "siv_ok siv" "siv_sizes siv" and ver: "lvm_to_version (packet ! 0) = 4"
    and start: "48 \<le> start" and fits: "field_fits packet NTP_PACKET_SIZE start (auth_length l)"
    and enc: "encrypt siv (take (nat (nonce_length l)) nonce) (take (nat start) packet) plaintext dst = (True, c)"
      "length dst = nat (ciphertext_length l)"
    and out: "length plaintext \<le> length out" "length out < 2 ^ 31" and info: "info_length info = start + (4 + auth_length l)"
  shows "decrypt_auth_ef siv (auth_packet packet (nat start) l nonce c) info start out =
    Some (plaintext @ drop (length plaintext) out, Some (length plaintext))"
proof -
  note parts = layout_parts [OF l]
  let ?b = "auth_packet packet (nat start) l nonce c" and ?nl = "nonce_length l" and ?cl = "ciphertext_length l"
  have l': "?cl = tag_length siv + int (length plaintext)" "nonce_padding l = get_padding_length ?nl"
      "ciphertext_padding l = get_padding_length ?cl"
    using l unfolding layout_ok_def by blast+
  have len: "length c = nat ?cl" "nat start \<le> length packet" "auth_length l < 65536" "start < 2 ^ 31"
    using encrypt_length [OF siv(1) enc(1)] enc(2) fits by (auto simp: field_fits_def ext_consts)
  have nn: "0 < nonce_padding l + ?nl" "4 \<le> ?nl + nonce_padding l" and auth: "24 \<le> auth_length l"
    using padding_range [of ?nl] parts siv(2) l' by (auto simp: siv_sizes_def) presburger+
  note at = auth_packet_parts [OF l n len(2) len(1) len(3)]
  have pads: "get_padded_length ?nl = Some (?nl + nonce_padding l)" "get_padded_length ?cl = Some (?cl + ciphertext_padding l)"
      "i32_add (?nl + nonce_padding l) (?cl + ciphertext_padding l) = Some (?nl + nonce_padding l + (?cl + ciphertext_padding l))"
    using l'(2,3) parts len(3) by (simp_all add: get_padded_length_Some i32_add_def in_i32_def)
  have dst: "int (length dst) = tag_length siv + int (length plaintext)"
    using enc(2) parts l'(1) by simp
  have dec: "decrypt siv (take (nat ?nl) nonce) (take (nat start) packet) c (take (length plaintext) out) = (True, plaintext)"
    using out(1) by (intro decrypt_encrypted [OF siv(1) dst enc(1)]) simp
  have body: "decrypt_body siv ?b start (nat start + 8) (nat start + 8 + nat (?nl + nonce_padding l)) ?nl ?cl out =
      Some (plaintext @ drop (length plaintext) out, Some (length plaintext))"
    using parts len(3,4) start out l'(1) by (intro decrypt_body_Some [OF at(5) at(1) at(6) _ _ _ _ _ _ l'(1) _ _ dec]) auto
  have "as_usize (?nl + nonce_padding l) = nat (?nl + nonce_padding l)" "as_i32 (length out) = int (length out)"
    using parts len(3) out(2) by simp_all
  then show ?thesis
    using parse_auth_packet [OF l n len(1) ver start auth fits] at(3,4) pads body parts auth
      lengths_ok_Some [OF l siv(2) len(3), of "int (length out)"] out(1)
    by (simp add: decrypt_auth_ef_def Let_def info AUTH_HEADER_LEN_def add.assoc)
qed

section \<open>Properties\<close>


text \<open>
  C39. Decryption panics on a field that ends with the packet buffer. The check of the padded nonce
  and ciphertext lengths against the body leaves out the four bytes of the header, so a packet of the full size whose
  field declares lengths that fill the body reads four bytes beyond the buffer, for every cipher.
\<close>

definition full_packet :: NtpPacketBuf where
  "full_packet = [0x23] @ replicate 47 0 @ [0x04, 0x04, 0x04, 0x44] @ [0x00, 0x40, 0x04, 0x00] @ replicate 1084 0"

definition full_info :: NtpPacketInfo where
  "full_info = default_info\<lparr>info_length := 1140, version := 4\<rparr>"

lemma full_packet_fields:
  "parse_field full_packet 1140 48 = Some (Some \<lparr>field_length = 1092, field_type = 0x0404, body_offset = 52, body_length = 1088\<rparr>)"
  "rd_u16 full_packet 52 = Some 64" "rd_u16 full_packet (52 + 2) = Some 1024" "length full_packet = 1140"
proof -
  let ?x = "[0x23] @ replicate 47 0 :: bytes"
  have codes: "field_header 0x0404 (4 + 1088) = [0x04, 0x04, 0x04, 0x44]" "be_bytes 2 (word_of_int 64 :: u16) = [0x00, 0x40]"
      "be_bytes 2 (word_of_int 1024 :: u16) = [0x04, 0x00]" "lvm_to_version 0x23 = 4"
    by code_simp+
  show len: "length full_packet = 1140"
    by (simp add: full_packet_def)
  show "rd_u16 full_packet 52 = Some 64"
    by (rule rd_u16_split [of _ "?x @ [0x04, 0x04, 0x04, 0x44]" 64 "[0x04, 0x00] @ replicate 1084 0"])
      (simp_all only: full_packet_def codes append_assoc, simp_all)
  show "rd_u16 full_packet (52 + 2) = Some 1024"
    by (rule rd_u16_split [of _ "?x @ [0x04, 0x04, 0x04, 0x44] @ [0x00, 0x40]" 1024 "replicate 1084 0"])
      (simp_all only: full_packet_def codes append_assoc, simp_all)
  have "field_fits full_packet 1140 48 1088"
    by (simp add: field_fits_def len)
  moreover have "take 4 (drop (nat 48) full_packet) = field_header 0x0404 (4 + 1088)"
    unfolding codes by (simp add: full_packet_def)
  ultimately have "parse_single_field full_packet 1140 48 =
      Some (Some \<lparr>field_length = 1092, field_type = 0x0404, body_offset = 52, body_length = 1088\<rparr>)"
    using parse_single_field_at [of full_packet 1140 48 1088 "0x0404"] by simp
  moreover have "index full_packet 0 = Some 0x23"
    by (simp add: full_packet_def index_def)
  ultimately show "parse_field full_packet 1140 48 =
      Some (Some \<lparr>field_length = 1092, field_type = 0x0404, body_offset = 52, body_length = 1088\<rparr>)"
    by (simp add: parse_field_def get_lvm_def codes(4) ext_consts)
qed


section \<open>Witnesses\<close>

text \<open>A cipher that puts a constant tag before the plaintext.\<close>

definition sample_siv :: Siv where
  "sample_siv = \<lparr>max_nonce_length = 16, tag_length = 16,
     encrypt = (\<lambda>n a p out. (True, take (length out) (replicate 16 7 @ p @ out))),
     decrypt = (\<lambda>n a c out. (True, take (length out) (drop 16 c @ out)))\<rparr>"

lemma sample_siv_ok: "siv_ok sample_siv" "siv_sizes sample_siv"
  by (auto simp: siv_ok_def siv_sizes_def sample_siv_def min_def)

definition blank_packet :: NtpPacketBuf where
  "blank_packet = 0x23 # replicate 1139 0"

definition sample_layout :: AuthLayout where
  "sample_layout = \<lparr>nonce_length = 16, nonce_padding = 0, ciphertext_length = 20, ciphertext_padding = 0,
     additional_padding = 0, auth_length = 40\<rparr>"



end
