(* ===== verification/NtsCookie.thy ===== *)
theory NtsCookie
  imports NtsAuth NtsKeRecord
begin

text \<open>
  The server cookie of NTS, \<open>crates/chrony-rs-core/src/nts_ke_cookie.rs\<close>: the session keys encrypted
  under one of four rotating server keys. The cipher is the trait \<open>Siv\<close> of theory \<open>NtsAuth\<close>.
\<close>

definition COOKIE_HEADER_LEN :: nat where "COOKIE_HEADER_LEN = 4"
definition NKE_MAX_KEY_LENGTH :: nat where "NKE_MAX_KEY_LENGTH = 32"
definition NKE_MAX_COOKIE_LENGTH_nks :: nat where "NKE_MAX_COOKIE_LENGTH_nks = 256"
definition MAX_SERVER_KEYS :: nat where "MAX_SERVER_KEYS = 4"

lemmas cookie_consts = COOKIE_HEADER_LEN_def NKE_MAX_KEY_LENGTH_def NKE_MAX_COOKIE_LENGTH_nks_def MAX_SERVER_KEYS_def

record CookieKey =
  key_id :: u32
  key_siv :: Siv
  key_nonce_length :: nat

record CookieContext =
  algorithm :: u16
  c2s :: bytes
  s2c :: bytes

definition generate_cookie :: "CookieKey \<Rightarrow> bytes \<Rightarrow> bytes \<Rightarrow> bytes \<Rightarrow> bytes option run" where
  "generate_cookie key nonce k1 k2 =
     (if length k1 > NKE_MAX_KEY_LENGTH \<or> length k2 \<noteq> length k1 then ret None
      else do {
        let tag_len = as_usize (tag_length (key_siv key));
        let plaintext = k1 @ k2;
        t \<leftarrow> u64_add COOKIE_HEADER_LEN (key_nonce_length key);
        t \<leftarrow> u64_add t (length plaintext);
        total \<leftarrow> u64_add t tag_len;
        if total > NKE_MAX_COOKIE_LENGTH_nks \<or> length nonce < key_nonce_length key then ret None
        else do {
          n \<leftarrow> slice nonce 0 (key_nonce_length key);
          let cookie = be_bytes 4 (key_id key) @ n;
          let (ok, c) = encrypt (key_siv key) n [] plaintext (replicate (length plaintext + tag_len) 0);
          ret (if ok then Some (cookie @ c) else None)
        }
      })"

text \<open>The algorithm that the length of one key implies.\<close>

definition key_algorithm :: "nat \<Rightarrow> u16 option" where
  "key_algorithm half =
     (if half = 16 then Some AEAD_AES_128_GCM_SIV else if half = 32 then Some AEAD_AES_SIV_CMAC_256 else None)"

text \<open>The decryption with the server key of the cookie.\<close>

definition open_cookie :: "bytes \<Rightarrow> CookieKey \<Rightarrow> CookieContext option run" where
  "open_cookie cookie key = do {
     let tag_len = as_usize (tag_length (key_siv key));
     t \<leftarrow> u64_add COOKIE_HEADER_LEN (key_nonce_length key);
     t \<leftarrow> u64_add t tag_len;
     if length cookie \<le> t then ret None
     else do {
       let nonce_end = COOKIE_HEADER_LEN + key_nonce_length key;
       nonce \<leftarrow> slice cookie COOKIE_HEADER_LEN nonce_end;
       ciphertext \<leftarrow> slice cookie nonce_end (length cookie);
       let plaintext_length = length ciphertext - tag_len;
       if plaintext_length > 2 * NKE_MAX_KEY_LENGTH \<or> plaintext_length mod 2 \<noteq> 0 then ret None
       else do {
         let (ok, plaintext) = decrypt (key_siv key) nonce [] ciphertext (replicate plaintext_length 0);
         if \<not> ok then ret None
         else do {
           let half = plaintext_length div 2;
           case key_algorithm half of
             None \<Rightarrow> ret None
           | Some alg \<Rightarrow> do {
               k1 \<leftarrow> slice plaintext 0 half;
               k2 \<leftarrow> slice plaintext half (length plaintext);
               ret (Some \<lparr>algorithm = alg, c2s = k1, s2c = k2\<rparr>)
             }
         }
       }
     }
   }"

definition decode_cookie :: "bytes \<Rightarrow> CookieKey list \<Rightarrow> CookieContext option run" where
  "decode_cookie cookie keys =
     (if length cookie \<le> COOKIE_HEADER_LEN then ret None
      else do {
        h \<leftarrow> slice cookie 0 4;
        let kid = (be_word h :: u32);
        key \<leftarrow> index keys (unat kid mod MAX_SERVER_KEYS);
        if kid \<noteq> key_id key then ret None else open_cookie cookie key
      })"

section \<open>Facts\<close>

lemma generate_cookie_Some:
  assumes siv: "siv_ok (key_siv key)" "siv_sizes (key_siv key)" and len: "length k2 = length k1" "length k1 \<le> 32"
    and total: "4 + key_nonce_length key + 2 * length k1 + nat (tag_length (key_siv key)) \<le> 256"
    and n: "key_nonce_length key \<le> length nonce"
    and enc: "\<And>out. fst (encrypt (key_siv key) (take (key_nonce_length key) nonce) [] (k1 @ k2) out)"
  shows "\<exists>out c. generate_cookie key nonce k1 k2 = Some (Some (be_bytes 4 (key_id key) @ take (key_nonce_length key) nonce @ c)) \<and>
    encrypt (key_siv key) (take (key_nonce_length key) nonce) [] (k1 @ k2) out = (True, c) \<and>
    length out = length (k1 @ k2) + nat (tag_length (key_siv key))"
proof -
  let ?out = "replicate (length (k1 @ k2) + nat (tag_length (key_siv key))) 0"
  obtain c where c: "encrypt (key_siv key) (take (key_nonce_length key) nonce) [] (k1 @ k2) ?out = (True, c)"
    using enc [of ?out] by (metis prod.collapse)
  let ?t = "nat (tag_length (key_siv key))" and ?n = "key_nonce_length key"
  have tag: "as_usize (tag_length (key_siv key)) = ?t"
    using siv(2) by (simp add: siv_sizes_def)
  have adds: "u64_add 4 ?n = Some (4 + ?n)" "u64_add (4 + ?n) (length (k1 @ k2)) = Some (4 + ?n + length (k1 @ k2))"
      "u64_add (4 + ?n + length (k1 @ k2)) ?t = Some (4 + ?n + length (k1 @ k2) + ?t)"
    using len total by (simp_all add: u64_add_def)
  have conds: "\<not> (length k1 > 32 \<or> length k2 \<noteq> length k1)" "\<not> (4 + ?n + length (k1 @ k2) + ?t > 256 \<or> length nonce < ?n)"
    using len total n by simp_all
  have "slice nonce 0 ?n = Some (take ?n nonce)"
    using n by (simp add: slice_def)
  then have "generate_cookie key nonce k1 k2 = Some (Some (be_bytes 4 (key_id key) @ take ?n nonce @ c))"
    unfolding generate_cookie_def Let_def cookie_consts if_not_P [OF conds(1)] tag adds bind.bind_lunit if_not_P [OF conds(2)]
    by (simp only: bind.bind_lunit c split_conv if_True append_assoc)
  with c show ?thesis
    by (intro exI [of _ ?out] exI [of _ c]) simp
qed

lemma open_cookie_Some:
  assumes siv: "siv_ok (key_siv key)" "siv_sizes (key_siv key)" and len: "length k2 = length k1" "length k1 = 16 \<or> length k1 = 32"
    and n: "length n = key_nonce_length key" "key_nonce_length key \<le> 256" and h: "length h = 4"
    and enc: "encrypt (key_siv key) n [] (k1 @ k2) out = (True, c)"
      "length out = length (k1 @ k2) + nat (tag_length (key_siv key))"
  shows "open_cookie (h @ n @ c) key = Some (Some \<lparr>algorithm =
      (if length k1 = 16 then AEAD_AES_128_GCM_SIV else AEAD_AES_SIV_CMAC_256), c2s = k1, s2c = k2\<rparr>)"
proof -
  let ?t = "nat (tag_length (key_siv key))" and ?e = "4 + key_nonce_length key"
  have tag: "as_usize (tag_length (key_siv key)) = ?t" "?t < 2 ^ 16" "0 \<le> tag_length (key_siv key)"
    using siv(2) by (auto simp: siv_sizes_def)
  have c: "length c = 2 * length k1 + ?t"
    using encrypt_length [OF siv(1) enc(1)] enc(2) len(1) by simp
  have slices: "slice (h @ n @ c) 4 ?e = Some n" "slice (h @ n @ c) ?e (length (h @ n @ c)) = Some c"
    using n h by (simp_all add: slice_def)
  have adds: "u64_add 4 (key_nonce_length key) = Some ?e" "u64_add ?e ?t = Some (?e + ?t)"
    using n(2) tag(2) by (simp_all add: u64_add_def)
  have dec: "decrypt (key_siv key) n [] c (replicate (2 * length k1) 0) = (True, k1 @ k2)"
    using enc(2) tag(3) len(1) by (intro decrypt_encrypted [OF siv(1) _ enc(1)]) simp_all
  have "\<not> length (h @ n @ c) \<le> ?e + ?t" "length c - ?t = 2 * length k1"
    using c n(1) h len(2) by auto
  then show ?thesis
    using slices adds dec len tag(1)
    by (auto simp: open_cookie_def cookie_consts Let_def slice_def [of "k1 @ k2"] key_algorithm_def)
qed


definition sample_cookie_key :: CookieKey where
  "sample_cookie_key = \<lparr>key_id = 6, key_siv = sample_siv, key_nonce_length = 16\<rparr>"


end
