(* ===== verification/Spec2Isabelle.thy ===== *)
theory Spec2Isabelle
  imports Access Nsr Ext Packet NtsKeRecord ClientLog DynArray DigestVectors Keys NtsCookie
begin

text \<open>
  Verification of chrony-rs, a port of the NTP daemon chrony to Rust.

  \<^bold>\<open>The program.\<close> The crate \<open>chrony-rs-core\<close> is the daemon's logic without system calls: it decodes and
  validates packets, keeps the table of NTP sources and the log of clients, decides who may ask, authenticates
  messages and estimates the clock. \<open>chrony-rs-io\<close> makes the system calls, \<open>chronyd-rs\<close> and \<open>chronyc-rs\<close> are the two
  programs. A request that reaches the daemon is checked against the access table, logged and rate limited, validated
  field by field, authenticated by a symmetric key or by NTS, and answered; interleaved answers look up the
  transmit timestamp of the previous one. This development covers those parts.

  \<^bold>\<open>Conventions.\<close> The workspace builds with overflow checks in every profile, so an arithmetic overflow, an index out
  of range and a failed assertion are panics: the value \<open>None\<close> of \<open>'a run\<close> (theory \<open>Prelude\<close>). A Rust \<open>Option\<close> or \<open>bool\<close>
  result stays a value under it. Integers keep their width where they can overflow or wrap: words for
  wrapping operations and bit patterns, and \<open>int\<close> or \<open>nat\<close> with checked operations elsewhere. Mutation is state passing over the record of
  the Rust struct. What the host injects (random bytes, resolvers, destructors, the cipher) is a parameter; a property
  names what it assumes of it.

  \<^bold>\<open>The theories.\<close>
  \<^item> \<open>Prelude\<close>: machine integers and checked arithmetic, slices, byte codecs with their round trips, and
    the rules for total correctness (\<open>returns\<close>).
  \<^item> \<open>AddrFilt\<close> (\<open>addrfilt.rs\<close>): the trie of access rules. It refines a map from nibble paths to rules; locale \<open>access_table\<close>
    states what a client relies on and is interpreted on the trie. C1 to C3: what a rule decides, the
    refinement, and the emptiness test on leaves.
  \<^item> \<open>Access\<close> (\<open>ntp/access.rs\<close>, the table builders of \<open>chronyd-rs/src/main.rs\<close>): C4, the last matching rule of the configuration
    decides.
  \<^item> \<open>NtpSources\<close> and \<open>Nsr\<close> (\<open>ntp_sources.rs\<close>): the open-addressing table of sources and the operations over it. C5: the table refines a map
    through every sequence of operations (locale \<open>source_map\<close>); C6 and C7: pools and name resolution.
  \<^item> \<open>Ext\<close> (\<open>ntp/ext.rs\<close>, \<open>ntp/parse.rs\<close>): extension fields and the packet validator. C8 to C12: it never panics, what it
    accepts is well laid out, fields read back, and the dispatch loop ends with the right verdict.
  \<^item> \<open>Packet\<close> (\<open>ntp/packet.rs\<close>, the bit-exact part of \<open>ntp/timestamp.rs\<close>): C13, decoding and encoding the header.
  \<^item> \<open>NtsKeRecord\<close> (\<open>nts_ke_record.rs\<close>): records, the message format and both sides of the negotiation. C14 to C18.
  \<^item> \<open>ClientTs\<close> and \<open>ClientLog\<close> (\<open>clientlog.rs\<close>): the timestamp map of interleaved mode (C19 to C23: the search ends and finds, insertion
    refines an ordered list, what was saved is found, reachable maps are safe, and the panic at the era rollover) and the
    client hash table with its rate limiter and reports (C24 to C29).
  \<^item> \<open>DynArray\<close> (\<open>array.rs\<close>): the growable array refines a list (C30, C31; locale \<open>store_refinement\<close>).
  \<^item> \<open>Digest\<close> and \<open>DigestVectors\<close> (\<open>md5.rs\<close>, \<open>hash_intmd5.rs\<close>): streaming MD5 equals the digest of the whole message (C32), with a published
    test vector.
  \<^item> \<open>Keys\<close> (\<open>keys.rs\<close>, parts of \<open>cmdparse.rs\<close> and \<open>util.rs\<close>): the key store. C33 to C37: the hexadecimal codec, lookup, exact authentication,
    generation against checking, and the keys that are stored wrongly.
  \<^item> \<open>NtsAuth\<close> and \<open>NtsCookie\<close> (\<open>nts_ntp_auth.rs\<close>, \<open>nts_ke_cookie.rs\<close>): the authenticator field and the cookie read back for
    every cipher with the contract \<open>siv_ok\<close> (C38, C40), and a packet on which decryption panics (C39).

  \<^bold>\<open>Bounds and termination.\<close> Loops are structural or come with a termination proof. Two are partial functions, where \<open>None\<close> also stands for
  not returning: the search of \<open>ClientTs\<close>, shown to return on every well-formed map (C19), and the draw of the hash seed, shown to
  return exactly when the random source ever gives a word that is not zero (C28). One recursion has fuel: looking up a
  client may grow the table, which looks up every client again; the table doubles up to \<open>MAX_SLOTS\<close>, at most 2 to the power 24, so a depth of
  \<open>GET_FUEL = 32\<close> is never used up, and C24 shows that the lookup returns. Sizes are bounded only by what the code's own integer and vector limits
  allow, stated as hypotheses where an input could exceed them.

  \<^bold>\<open>Defects shown.\<close> C23: after the NTP era rollover the timestamp search panics. C37: a key with bytes above 7F is stored re-encoded. C39: a received
  authenticator field of full size makes the decryption panic. \<open>AddrFilt\<close> also shows that a rule can overwrite a finer one that ends in the same
  nibble, which the documentation excludes.

  \<^bold>\<open>Not modelled.\<close> The clock discipline, regression, filtering, source selection, polling and measurement compute with \<open>f64\<close> and would need a model
  of IEEE arithmetic; for the same reason \<open>undo_ntp_tx_timestamp_slew\<close>, the timestamp conversions and the scheduler's delays are left out. Reference clocks,
  sockets, privileges, logging, the I/O crate and the two programs are system calls and wiring. The ciphers rest on an AES library outside the
  sources. The configuration parser and the control protocol process text and floats; the sessions of the NTS client and server hold timers, sockets and
  injected ciphers.
\<close>

end
